(* ===== verification/Prelude.thy ===== *)
theory Prelude
  imports Main "HOL-Library.Sublist" "HOL-Library.List_Lexorder" "HOL-Library.Char_ord"
    "HOL-Library.Multiset"
begin

text \<open>
  The parts of Go that several packages of the repository share: strings (Go strings are byte
  sequences, here \<^typ>\<open>string\<close>), the \<^verbatim>\<open>strings\<close>, \<^verbatim>\<open>strconv\<close> and \<^verbatim>\<open>sort\<close> functions the
  packages call, and the unspecified order in which \<^verbatim>\<open>range\<close> visits a map.

  A Go map is a partial function \<open>'k \<rightharpoonup> 'v\<close>.  A \<^verbatim>\<open>range\<close> loop over a map takes the
  order of the visit as an argument, a list of keys; \<open>range_order\<close> says that the list is
  one the Go runtime may choose (every key once).  A theorem about such a loop is about every
  order.  An operating-system call that may fail, a clock reading and a random draw are arguments in
  the same way.
\<close>

named_theorems go_string \<open>rewrites for the modelled \<^verbatim>\<open>strings\<close> and \<^verbatim>\<open>strconv\<close> functions\<close>
named_theorems go_range \<open>rewrites for \<^verbatim>\<open>range\<close> loops over maps\<close>

section \<open>Run-time failures\<close>

datatype go_panic =
    NilDeref
  | IndexOutOfRange
  | DivideByZero
  | NegativeLen
  | Fatal string

text \<open>A statement after one that may panic: \<open>Inl\<close> ends the function.\<close>

definition andThen :: "'e + 'a \<Rightarrow> ('a \<Rightarrow> 'e + 'b) \<Rightarrow> 'e + 'b" where
  "andThen m k = (case m of Inl e \<Rightarrow> Inl e | Inr a \<Rightarrow> k a)"

lemma andThen_simps [simp]: "andThen (Inr a) k = k a" "andThen (Inl e) k = Inl e"
  by (simp_all add: andThen_def)

lemma andThen_Inr: "andThen m k = Inr b \<longleftrightarrow> (\<exists>a. m = Inr a \<and> k a = Inr b)"
  by (simp add: andThen_def split: sum.split)

lemma andThen_cong [fundef_cong]:
  "m = m' \<Longrightarrow> (\<And>a. m' = Inr a \<Longrightarrow> k a = k' a) \<Longrightarrow> andThen m k = andThen m' k'"
  by (simp add: andThen_def split: sum.split)

section \<open>Maps and \<^verbatim>\<open>range\<close>\<close>

definition range_order :: "('k \<rightharpoonup> 'v) \<Rightarrow> 'k list \<Rightarrow> bool" where
  "range_order m ks \<longleftrightarrow> distinct ks \<and> set ks = dom m"

definition map_keys :: "('k \<rightharpoonup> 'v) \<Rightarrow> 'k list \<Rightarrow> 'v list" where
  "map_keys m ks = List.map_filter m ks"

lemma range_order_dom [go_range]: "range_order m ks \<Longrightarrow> k \<in> set ks \<longleftrightarrow> m k \<noteq> None"
  by (auto simp: range_order_def)

lemma range_order_finite: "range_order m ks \<Longrightarrow> finite (dom m)"
  by (metis List.finite_set range_order_def)

lemma range_order_exists: "finite (dom m) \<Longrightarrow> \<exists>ks. range_order m ks"
  using finite_distinct_list by (metis range_order_def)

lemma range_order_cong: "dom m = dom m' \<Longrightarrow> range_order m ks \<longleftrightarrow> range_order m' ks"
  by (simp add: range_order_def)

lemma range_order_perm: "range_order m ks \<Longrightarrow> range_order m ks' \<Longrightarrow> mset ks = mset ks'"
  by (metis range_order_def set_eq_iff_mset_eq_distinct)

lemma all_entries_iff:
  "(\<forall>k v. m k = Some v \<longrightarrow> P v) \<longleftrightarrow> dom m = {k. \<exists>v. m k = Some v \<and> P v}"
proof
  assume "\<forall>k v. m k = Some v \<longrightarrow> P v"
  then show "dom m = {k. \<exists>v. m k = Some v \<and> P v}" by auto
next
  assume eq: "dom m = {k. \<exists>v. m k = Some v \<and> P v}"
  show "\<forall>k v. m k = Some v \<longrightarrow> P v"
  proof (intro allI impI)
    fix k v assume "m k = Some v"
    then have "k \<in> {k. \<exists>v. m k = Some v \<and> P v}" unfolding eq [symmetric] by blast
    with \<open>m k = Some v\<close> show "P v" by simp
  qed
qed

section \<open>\<^verbatim>\<open>strconv.Itoa\<close>\<close>

fun itoa_nat :: "nat \<Rightarrow> string" where
  "itoa_nat n =
     (if n < 10 then [char_of (48 + n)] else itoa_nat (n div 10) @ [char_of (48 + n mod 10)])"

declare itoa_nat.simps [simp del]

definition itoa :: "int \<Rightarrow> string" where
  "itoa i = (if i < 0 then CHR ''-'' # itoa_nat (nat (- i)) else itoa_nat (nat i))"

definition digit_value :: "char \<Rightarrow> nat" where
  "digit_value c = of_char c - 48"

definition atoi_nat :: "string \<Rightarrow> nat" where
  "atoi_nat s = foldl (\<lambda>a c. 10 * a + digit_value c) 0 s"

definition is_digit :: "char \<Rightarrow> bool" where
  "is_digit c \<longleftrightarrow> 48 \<le> (of_char c :: nat) \<and> (of_char c :: nat) \<le> 57"

lemma of_char_digit: "d < 10 \<Longrightarrow> of_char (char_of (48 + d) :: char) = (48 + d :: nat)"
  by (simp add: of_char_of)

lemma atoi_snoc: "atoi_nat (s @ [c]) = 10 * atoi_nat s + digit_value c"
  by (simp add: atoi_nat_def)

lemma atoi_itoa_nat [go_string]: "atoi_nat (itoa_nat n) = n"
proof (induction n rule: itoa_nat.induct)
  case (1 n)
  show ?case
  proof (cases "n < 10")
    case True
    then show ?thesis
      by (simp add: itoa_nat.simps [of n] atoi_nat_def digit_value_def of_char_digit)
  next
    case False
    with 1 show ?thesis
      by (simp add: itoa_nat.simps [of n] atoi_snoc digit_value_def of_char_digit)
  qed
qed

lemma itoa_nat_inj [go_string]: "itoa_nat m = itoa_nat n \<longleftrightarrow> m = n"
  by (metis atoi_itoa_nat)

lemma itoa_nat_digits: "c \<in> set (itoa_nat n) \<Longrightarrow> is_digit c"
proof (induction n rule: itoa_nat.induct)
  case (1 n)
  then show ?case
    by (cases "n < 10")
       (auto simp: itoa_nat.simps [of n] is_digit_def of_char_digit)
qed

lemma itoa_nat_nonempty [simp]: "itoa_nat n \<noteq> []"
  by (subst itoa_nat.simps) simp

lemma dash_not_digit [simp]: "\<not> is_digit CHR ''-''"
  by (simp add: is_digit_def)

lemma dash_notin_itoa_nat [simp]: "CHR ''-'' \<notin> set (itoa_nat n)"
  using itoa_nat_digits dash_not_digit by blast

lemma itoa_chars: "c \<in> set (itoa i) \<Longrightarrow> is_digit c \<or> c = CHR ''-''"
  by (auto simp: itoa_def split: if_splits dest: itoa_nat_digits)

lemma itoa_inj [go_string]: "itoa i = itoa j \<longleftrightarrow> i = j"
proof -
  have "itoa_nat n \<noteq> CHR ''-'' # s" for n s
    using dash_notin_itoa_nat [of n] by (metis list.set_intros(1))
  then show ?thesis
    unfolding itoa_def
    by (auto simp: go_string split: if_splits dest: sym)
qed

lemma itoa_nonneg: "0 \<le> i \<Longrightarrow> itoa i = itoa_nat (nat i)"
  by (simp add: itoa_def)

text \<open>A separator that occurs in neither prefix splits a string in one way.\<close>

lemma sep_split:
  assumes "c \<notin> set a" and "c \<notin> set b"
  shows "a @ c # x = b @ c # y \<longleftrightarrow> a = b \<and> x = y"
  using assms
proof (induction a arbitrary: b)
  case Nil
  then show ?case by (cases b) auto
next
  case (Cons d a)
  then show ?case by (cases b) auto
qed

section \<open>\<^verbatim>\<open>strings\<close>\<close>

abbreviation HasPrefix :: "string \<Rightarrow> string \<Rightarrow> bool" where
  "HasPrefix s p \<equiv> prefix p s"

definition strings_Contains :: "string \<Rightarrow> string \<Rightarrow> bool" where
  "strings_Contains s sub \<longleftrightarrow> sublist sub s"

fun strings_Join :: "string list \<Rightarrow> string \<Rightarrow> string" where
  "strings_Join [] sep = []"
| "strings_Join [a] sep = a"
| "strings_Join (a # b # r) sep = a @ sep @ strings_Join (b # r) sep"

definition TrimPrefix :: "string \<Rightarrow> string \<Rightarrow> string" where
  "TrimPrefix s p = (if prefix p s then drop (length p) s else s)"

text \<open>\<^verbatim>\<open>strings.LastIndex\<close> of a one-byte separator; \<open>-1\<close> when it does not occur.\<close>

definition LastIndexByte :: "string \<Rightarrow> char \<Rightarrow> int" where
  "LastIndexByte s c =
     (if c \<in> set s then int (length s) - 1 - int (length (takeWhile (\<lambda>x. x \<noteq> c) (rev s))) else -1)"

lemma Join_append:
  "xs \<noteq> [] \<Longrightarrow> ys \<noteq> [] \<Longrightarrow> strings_Join (xs @ ys) sep = strings_Join xs sep @ sep @ strings_Join ys sep"
proof (induction xs)
  case Nil
  then show ?case by simp
next
  case (Cons a xs)
  then show ?case by (cases xs; cases ys) simp_all
qed

end
