(* ===== verification/MR_Task.thy ===== *)
theory MR_Task
  imports Prelude "HOL-Library.Word"
begin

text \<open>
  The data of the MapReduce package \<^verbatim>\<open>mr\<close>: the tasks (\<^verbatim>\<open>task.go\<close>), the messages
  (\<^verbatim>\<open>rpc.go\<close>), the key/value pairs and the bucket hash (\<^verbatim>\<open>data.go\<close>) and the task
  numbering (\<^verbatim>\<open>global_id.go\<close>).  Times are nanoseconds since Go's zero time, so that the
  zero value \<^verbatim>\<open>time.Time{}\<close> is \<open>0\<close>.
\<close>

unbundle bit_operations_syntax

section \<open>Tasks\<close>

type_synonym TaskID = int

datatype TaskState = TaskStateNone | TaskStateUnassigned | TaskStateRunning | TaskStateDone

datatype TaskType = TaskNone | TaskWait | TaskMap | TaskReduce

record Task =
  Task_ID :: TaskID
  Task_Type :: TaskType
  Task_State :: TaskState
  Task_AssignedAt :: int

record MapTask =
  MapTask_Task :: Task
  MapTask_File :: string
  MapTask_Buckets :: int

record ReduceTask =
  ReduceTask_Task :: Task
  ReduceTask_Bucket :: int
  ReduceTask_MapTaskOutputs :: "TaskID \<rightharpoonup> string"

definition zeroTime :: int where
  "zeroTime = 0"

definition taskTimeout :: int where
  "taskTimeout = 10 * 1000000000"

text \<open>\<^verbatim>\<open>time.Since\<close> saturates at the longest \<^verbatim>\<open>time.Duration\<close>.\<close>

definition time_Since :: "int \<Rightarrow> int \<Rightarrow> int" where
  "time_Since now t = min (2 ^ 63 - 1) (max (- (2 ^ 63)) (now - t))"

definition IsTimedOut :: "int \<Rightarrow> Task \<Rightarrow> bool" where
  "IsTimedOut now t \<longleftrightarrow> time_Since now (Task_AssignedAt t) \<ge> taskTimeout"

definition MarkRunning :: "int \<Rightarrow> Task \<Rightarrow> Task" where
  "MarkRunning now t = t\<lparr>Task_State := TaskStateRunning, Task_AssignedAt := now\<rparr>"

section \<open>Messages\<close>

record MapTaskData =
  MapData_Key :: string
  MapData_Content :: string
  MapData_Buckets :: int

record ReduceTaskData =
  ReduceData_Bucket :: int
  ReduceData_MapTaskOutputs :: "TaskID \<rightharpoonup> string"

record TaskReply =
  Reply_Task :: "Task option"
  Reply_MapData :: "MapTaskData option"
  Reply_ReduceData :: "ReduceTaskData option"

record ReportTaskCompletionArgs =
  Report_Task :: "Task option"
  Report_WorkerAddress :: string

record ReportMissingMapOutputsArgs =
  Missing_MapTaskID :: TaskID

record FetchBucketArgs =
  Fetch_MapTaskID :: TaskID
  Fetch_Bucket :: int

section \<open>Key/value pairs and the bucket hash\<close>

record KeyValue =
  Key :: string
  Value :: string

text \<open>\<^verbatim>\<open>hash/fnv\<close>: the 32-bit FNV-1a hash.\<close>

definition fnv32a_step :: "32 word \<Rightarrow> char \<Rightarrow> 32 word" where
  "fnv32a_step h c = (h XOR of_nat (of_char c)) * 16777619"

definition fnv32a :: "string \<Rightarrow> 32 word" where
  "fnv32a s = foldl fnv32a_step 2166136261 s"

definition ihash :: "string \<Rightarrow> int" where
  "ihash key = uint (fnv32a key AND 0x7fffffff)"

section \<open>Task numbers\<close>

definition getGlobalID :: "int \<Rightarrow> int \<times> int" where
  "getGlobalID globalID = (globalID + 1, globalID + 1)"

section \<open>Facts\<close>

lemma IsTimedOut_iff: "IsTimedOut now t \<longleftrightarrow> now - Task_AssignedAt t \<ge> 10000000000"
  by (auto simp: IsTimedOut_def time_Since_def taskTimeout_def)

lemma MarkRunning_simps [simp]:
  "Task_ID (MarkRunning now t) = Task_ID t"
  "Task_Type (MarkRunning now t) = Task_Type t"
  "Task_State (MarkRunning now t) = TaskStateRunning"
  "Task_AssignedAt (MarkRunning now t) = now"
  by (simp_all add: MarkRunning_def)

lemma ihash_bounds: "0 \<le> ihash key" "ihash key < 2 ^ 31"
proof -
  have "uint (fnv32a key AND 0x7fffffff) = uint (fnv32a key) AND 0x7fffffff"
    by (simp add: uint_and)
  also have "\<dots> = take_bit 31 (uint (fnv32a key))"
    using take_bit_eq_mask [of 31 "uint (fnv32a key)"] by (simp add: mask_eq_exp_minus_1)
  finally have *: "ihash key = take_bit 31 (uint (fnv32a key))"
    by (simp add: ihash_def)
  show "0 \<le> ihash key" "ihash key < 2 ^ 31"
    unfolding * using take_bit_int_less_exp [of 31 "uint (fnv32a key)"] by simp_all
qed

lemma ihash_bucket: "0 < n \<Longrightarrow> 0 \<le> ihash key mod n \<and> ihash key mod n < n"
  by simp

end
