(* ===== verification/MR_Coordinator.thy ===== *)
theory MR_Coordinator
  imports MR_Task
begin

text \<open>
  The coordinator of the MapReduce package (\<^verbatim>\<open>mr/coordinator.go\<close>): its state, the
  three RPC handlers and \<^verbatim>\<open>Done\<close>.  Every handler runs with the mutex held, so a handler is
  one function on the state.  A loop over one of the two task maps takes the order of the visit
  as an argument; a handler takes one clock reading, which it uses for \<^verbatim>\<open>time.Since\<close> and
  \<^verbatim>\<open>time.Now\<close>.  A task pointer is the key under which the coordinator's map holds it.
\<close>

section \<open>State and construction\<close>

record Coordinator =
  mapTasks :: "TaskID \<rightharpoonup> MapTask"
  reduceTasks :: "TaskID \<rightharpoonup> ReduceTask"

definition newTask :: "TaskID \<Rightarrow> TaskType \<Rightarrow> Task" where
  "newTask i ty = \<lparr>Task_ID = i, Task_Type = ty, Task_State = TaskStateUnassigned,
                   Task_AssignedAt = zeroTime\<rparr>"

fun makeMapTasks :: "int \<Rightarrow> string list \<Rightarrow> int \<Rightarrow> (TaskID \<rightharpoonup> MapTask) \<Rightarrow> int \<times> (TaskID \<rightharpoonup> MapTask)" where
  "makeMapTasks nReduceTasks [] globalID m = (globalID, m)"
| "makeMapTasks nReduceTasks (filePath # files) globalID m =
     (let (globalID', taskID) = getGlobalID globalID
      in makeMapTasks nReduceTasks files globalID'
           (m(taskID \<mapsto> \<lparr>MapTask_Task = newTask taskID TaskMap, MapTask_File = filePath,
                          MapTask_Buckets = nReduceTasks\<rparr>)))"

fun makeReduceTasks :: "int list \<Rightarrow> int \<Rightarrow> (TaskID \<rightharpoonup> ReduceTask) \<Rightarrow> int \<times> (TaskID \<rightharpoonup> ReduceTask)" where
  "makeReduceTasks [] globalID m = (globalID, m)"
| "makeReduceTasks (bucket # bs) globalID m =
     (let (globalID', taskID) = getGlobalID globalID
      in makeReduceTasks bs globalID'
           (m(taskID \<mapsto> \<lparr>ReduceTask_Task = newTask taskID TaskReduce, ReduceTask_Bucket = bucket,
                          ReduceTask_MapTaskOutputs = Map.empty\<rparr>)))"

definition MakeCoordinator :: "int \<Rightarrow> string list \<Rightarrow> int \<Rightarrow> int \<times> Coordinator" where
  "MakeCoordinator globalID files nReduceTasks =
     (let (g1, ms) = makeMapTasks nReduceTasks files globalID Map.empty;
          (g2, rs) = makeReduceTasks [0..nReduceTasks - 1] g1 Map.empty
      in (g2, \<lparr>mapTasks = ms, reduceTasks = rs\<rparr>))"

section \<open>Scheduling\<close>

definition shouldAssignTask :: "int \<Rightarrow> Task \<Rightarrow> bool" where
  "shouldAssignTask now task \<longleftrightarrow>
     Task_State task = TaskStateUnassigned \<or> (Task_State task = TaskStateRunning \<and> IsTimedOut now task)"

fun pickMapTaskLocked :: "int \<Rightarrow> (TaskID \<rightharpoonup> MapTask) \<Rightarrow> TaskID list \<Rightarrow> (TaskID \<times> MapTask) option" where
  "pickMapTaskLocked now m [] = None"
| "pickMapTaskLocked now m (k # ks) =
     (case m k of
        None \<Rightarrow> pickMapTaskLocked now m ks
      | Some mapTask \<Rightarrow>
          if shouldAssignTask now (MapTask_Task mapTask) then Some (k, mapTask)
          else pickMapTaskLocked now m ks)"

fun pickReduceTaskLocked ::
    "int \<Rightarrow> (TaskID \<rightharpoonup> ReduceTask) \<Rightarrow> TaskID list \<Rightarrow> (TaskID \<times> ReduceTask) option" where
  "pickReduceTaskLocked now m [] = None"
| "pickReduceTaskLocked now m (k # ks) =
     (case m k of
        None \<Rightarrow> pickReduceTaskLocked now m ks
      | Some reduceTask \<Rightarrow>
          if shouldAssignTask now (ReduceTask_Task reduceTask) then Some (k, reduceTask)
          else pickReduceTaskLocked now m ks)"

fun allMapTasksDoneLocked :: "(TaskID \<rightharpoonup> MapTask) \<Rightarrow> TaskID list \<Rightarrow> bool" where
  "allMapTasksDoneLocked m [] = True"
| "allMapTasksDoneLocked m (k # ks) =
     (case m k of
        None \<Rightarrow> allMapTasksDoneLocked m ks
      | Some mapTask \<Rightarrow>
          if Task_State (MapTask_Task mapTask) \<noteq> TaskStateDone then False
          else allMapTasksDoneLocked m ks)"

fun allReduceTasksDoneLocked :: "(TaskID \<rightharpoonup> ReduceTask) \<Rightarrow> TaskID list \<Rightarrow> bool" where
  "allReduceTasksDoneLocked m [] = True"
| "allReduceTasksDoneLocked m (k # ks) =
     (case m k of
        None \<Rightarrow> allReduceTasksDoneLocked m ks
      | Some reduceTask \<Rightarrow>
          if Task_State (ReduceTask_Task reduceTask) \<noteq> TaskStateDone then False
          else allReduceTasksDoneLocked m ks)"

definition Done :: "TaskID list \<Rightarrow> TaskID list \<Rightarrow> Coordinator \<Rightarrow> bool" where
  "Done mo ro c \<longleftrightarrow> allMapTasksDoneLocked (mapTasks c) mo \<and> allReduceTasksDoneLocked (reduceTasks c) ro"

section \<open>The RPC handlers\<close>

record request_env =
  env_now :: int
  env_ReadFile :: "string \<rightharpoonup> string"
  env_pickMap :: "TaskID list"
  env_allMap :: "TaskID list"
  env_pickReduce :: "TaskID list"

definition waitTask :: "int \<Rightarrow> Task" where
  "waitTask now = MarkRunning now \<lparr>Task_ID = 0, Task_Type = TaskWait, Task_State = TaskStateNone,
                                   Task_AssignedAt = zeroTime\<rparr>"

text \<open>The reply a handler fills in holds pointers into the coordinator's tables: to the task, which may be the wait task
  made for this reply, and to the map of the reduce task's inputs.  \<^verbatim>\<open>net/rpc\<close> encodes it after the handler has returned
  and released the lock, so what the worker gets is read from the tables at that time, by \<open>encodeReply\<close>.\<close>

datatype task_ref = MapTaskRef TaskID | ReduceTaskRef TaskID | OwnTask Task

record LiveReply =
  Live_Task :: "task_ref option"
  Live_MapData :: "MapTaskData option"
  Live_ReduceData :: "(int \<times> TaskID) option"

definition encodeReply :: "Coordinator \<Rightarrow> LiveReply \<Rightarrow> TaskReply" where
  "encodeReply c reply =
     \<lparr>Reply_Task =
        (case Live_Task reply of
           None \<Rightarrow> None
         | Some (MapTaskRef k) \<Rightarrow> map_option MapTask_Task (mapTasks c k)
         | Some (ReduceTaskRef k) \<Rightarrow> map_option ReduceTask_Task (reduceTasks c k)
         | Some (OwnTask t) \<Rightarrow> Some t),
      Reply_MapData = Live_MapData reply,
      Reply_ReduceData =
        (case Live_ReduceData reply of
           None \<Rightarrow> None
         | Some (b, k) \<Rightarrow> Some \<lparr>ReduceData_Bucket = b, ReduceData_MapTaskOutputs =
             (case reduceTasks c k of None \<Rightarrow> Map.empty | Some r \<Rightarrow> ReduceTask_MapTaskOutputs r)\<rparr>)\<rparr>"

abbreviation waitReply :: "int \<Rightarrow> LiveReply" where
  "waitReply now \<equiv> \<lparr>Live_Task = Some (OwnTask (waitTask now)), Live_MapData = None, Live_ReduceData = None\<rparr>"

definition RequestTask :: "request_env \<Rightarrow> Coordinator \<Rightarrow> Coordinator \<times> (string + LiveReply)" where
  "RequestTask e c =
     (case pickMapTaskLocked (env_now e) (mapTasks c) (env_pickMap e) of
        Some (k, mapTask) \<Rightarrow>
          (let task = MarkRunning (env_now e) (MapTask_Task mapTask);
               c' = c\<lparr>mapTasks := (mapTasks c)(k \<mapsto> mapTask\<lparr>MapTask_Task := task\<rparr>)\<rparr>
           in case env_ReadFile e (MapTask_File mapTask) of
                None \<Rightarrow> (c', Inl (''coordinator: cannot read file '' @ MapTask_File mapTask))
              | Some fileContent \<Rightarrow>
                  (c', Inr \<lparr>Live_Task = Some (MapTaskRef k),
                            Live_MapData = Some \<lparr>MapData_Key = MapTask_File mapTask,
                                                 MapData_Content = fileContent,
                                                 MapData_Buckets = MapTask_Buckets mapTask\<rparr>,
                            Live_ReduceData = None\<rparr>))
      | None \<Rightarrow>
          if \<not> allMapTasksDoneLocked (mapTasks c) (env_allMap e) then (c, Inr (waitReply (env_now e)))
          else
            (case pickReduceTaskLocked (env_now e) (reduceTasks c) (env_pickReduce e) of
               Some (k, reduceTask) \<Rightarrow>
                 (let task = MarkRunning (env_now e) (ReduceTask_Task reduceTask)
                  in (c\<lparr>reduceTasks := (reduceTasks c)(k \<mapsto> reduceTask\<lparr>ReduceTask_Task := task\<rparr>)\<rparr>,
                      Inr \<lparr>Live_Task = Some (ReduceTaskRef k), Live_MapData = None,
                           Live_ReduceData = Some (ReduceTask_Bucket reduceTask, k)\<rparr>))
             | None \<Rightarrow> (c, Inr (waitReply (env_now e)))))"

fun setMapOutput :: "TaskID \<Rightarrow> string \<Rightarrow> TaskID list \<Rightarrow> (TaskID \<rightharpoonup> ReduceTask) \<Rightarrow> (TaskID \<rightharpoonup> ReduceTask)" where
  "setMapOutput mid addr [] rs = rs"
| "setMapOutput mid addr (k # ks) rs =
     setMapOutput mid addr ks
       (case rs k of
          None \<Rightarrow> rs
        | Some r \<Rightarrow> rs(k \<mapsto> r\<lparr>ReduceTask_MapTaskOutputs := (ReduceTask_MapTaskOutputs r)(mid \<mapsto> addr)\<rparr>))"

fun deleteMapOutput :: "TaskID \<Rightarrow> TaskID list \<Rightarrow> (TaskID \<rightharpoonup> ReduceTask) \<Rightarrow> (TaskID \<rightharpoonup> ReduceTask)" where
  "deleteMapOutput mid [] rs = rs"
| "deleteMapOutput mid (k # ks) rs =
     deleteMapOutput mid ks
       (case rs k of
          None \<Rightarrow> rs
        | Some r \<Rightarrow> rs(k \<mapsto> r\<lparr>ReduceTask_MapTaskOutputs := (ReduceTask_MapTaskOutputs r)(mid := None)\<rparr>))"

definition ReportTaskCompletion ::
    "TaskID list \<Rightarrow> ReportTaskCompletionArgs \<Rightarrow> Coordinator \<Rightarrow> go_panic + Coordinator" where
  "ReportTaskCompletion ro args c =
     (case Report_Task args of
        None \<Rightarrow> Inl NilDeref
      | Some task \<Rightarrow>
          (case Task_Type task of
             TaskMap \<Rightarrow>
               (case mapTasks c (Task_ID task) of
                  None \<Rightarrow> Inr c
                | Some mapTask \<Rightarrow>
                    if Task_State (MapTask_Task mapTask) \<noteq> TaskStateDone then
                      Inr (c\<lparr>mapTasks := (mapTasks c)(Task_ID task \<mapsto> mapTask\<lparr>MapTask_Task :=
                                 (MapTask_Task mapTask)\<lparr>Task_State := TaskStateDone\<rparr>\<rparr>),
                             reduceTasks := setMapOutput (Task_ID (MapTask_Task mapTask))
                                 (Report_WorkerAddress args) ro (reduceTasks c)\<rparr>)
                    else Inr c)
           | TaskReduce \<Rightarrow>
               (case reduceTasks c (Task_ID task) of
                  None \<Rightarrow> Inr c
                | Some reduceTask \<Rightarrow>
                    Inr (c\<lparr>reduceTasks := (reduceTasks c)(Task_ID task \<mapsto> reduceTask\<lparr>ReduceTask_Task :=
                               (ReduceTask_Task reduceTask)\<lparr>Task_State := TaskStateDone\<rparr>\<rparr>)\<rparr>))
           | _ \<Rightarrow> Inr c))"

definition ReportMissingMapOutputs ::
    "TaskID list \<Rightarrow> ReportMissingMapOutputsArgs \<Rightarrow> Coordinator \<Rightarrow> Coordinator" where
  "ReportMissingMapOutputs ro args c =
     (case mapTasks c (Missing_MapTaskID args) of
        None \<Rightarrow> c
      | Some mapTask \<Rightarrow>
          if Task_State (MapTask_Task mapTask) = TaskStateDone then
            c\<lparr>mapTasks := (mapTasks c)(Missing_MapTaskID args \<mapsto> mapTask\<lparr>MapTask_Task :=
                 (MapTask_Task mapTask)\<lparr>Task_State := TaskStateUnassigned, Task_AssignedAt := zeroTime\<rparr>\<rparr>),
              reduceTasks := deleteMapOutput (Task_ID (MapTask_Task mapTask)) ro (reduceTasks c)\<rparr>
          else c)"

section \<open>The task tables\<close>

text \<open>
  The two pickers and the two completion tests share one contract: what a scan of a task table
  promises, whatever the order of the scan.
\<close>

locale task_table =
  fixes task_of :: "'a \<Rightarrow> Task"
    and pick :: "int \<Rightarrow> (TaskID \<rightharpoonup> 'a) \<Rightarrow> TaskID list \<Rightarrow> (TaskID \<times> 'a) option"
    and all_done :: "(TaskID \<rightharpoonup> 'a) \<Rightarrow> TaskID list \<Rightarrow> bool"
  assumes pick_Some: "pick now m ks = Some (k, t) \<Longrightarrow>
            k \<in> set ks \<and> m k = Some t \<and> shouldAssignTask now (task_of t)"
    and pick_None: "pick now m ks = None \<longleftrightarrow>
            (\<forall>k \<in> set ks. \<forall>t. m k = Some t \<longrightarrow> \<not> shouldAssignTask now (task_of t))"
    and all_done_iff: "all_done m ks \<longleftrightarrow>
            (\<forall>k \<in> set ks. \<forall>t. m k = Some t \<longrightarrow> Task_State (task_of t) = TaskStateDone)"
begin

lemma pick_not_done: "pick now m ks = Some (k, t) \<Longrightarrow> Task_State (task_of t) \<noteq> TaskStateDone"
  by (auto dest!: pick_Some simp: shouldAssignTask_def)

lemma pick_not_fresh:
  "pick now m ks = Some (k, t) \<Longrightarrow> Task_State (task_of t) = TaskStateRunning \<Longrightarrow> IsTimedOut now (task_of t)"
  by (auto dest!: pick_Some simp: shouldAssignTask_def)

lemma pick_none_order:
  "range_order m ks \<Longrightarrow> pick now m ks = None \<longleftrightarrow>
     (\<forall>k t. m k = Some t \<longrightarrow> \<not> shouldAssignTask now (task_of t))"
  by (auto simp: pick_None range_order_def)

lemma all_done_order:
  "range_order m ks \<Longrightarrow> all_done m ks \<longleftrightarrow> (\<forall>k t. m k = Some t \<longrightarrow> Task_State (task_of t) = TaskStateDone)"
  by (auto simp: all_done_iff range_order_def)

lemma all_done_no_pick: "set ks' \<subseteq> set ks \<Longrightarrow> all_done m ks \<Longrightarrow> pick now m ks' = None"
  by (auto simp: all_done_iff pick_None shouldAssignTask_def)

lemma pick_some_unassigned:
  assumes "range_order m ks" and "m k = Some t" and "Task_State (task_of t) = TaskStateUnassigned"
  shows "\<exists>k' t'. pick now m ks = Some (k', t')"
proof (cases "pick now m ks")
  case None
  with assms show ?thesis by (auto simp: pick_none_order shouldAssignTask_def)
qed auto

end

interpretation mapTable: task_table MapTask_Task pickMapTaskLocked allMapTasksDoneLocked
proof unfold_locales
  show "pickMapTaskLocked now m ks = Some (k, t) \<Longrightarrow>
      k \<in> set ks \<and> m k = Some t \<and> shouldAssignTask now (MapTask_Task t)" for now m ks k t
    by (induction ks) (auto split: option.splits if_splits)
  show "pickMapTaskLocked now m ks = None \<longleftrightarrow>
      (\<forall>k \<in> set ks. \<forall>t. m k = Some t \<longrightarrow> \<not> shouldAssignTask now (MapTask_Task t))" for now m ks
    by (induction ks) (auto split: option.splits)
  show "allMapTasksDoneLocked m ks \<longleftrightarrow>
      (\<forall>k \<in> set ks. \<forall>t. m k = Some t \<longrightarrow> Task_State (MapTask_Task t) = TaskStateDone)" for m ks
    by (induction ks) (auto split: option.splits)
qed

interpretation reduceTable: task_table ReduceTask_Task pickReduceTaskLocked allReduceTasksDoneLocked
proof unfold_locales
  show "pickReduceTaskLocked now m ks = Some (k, t) \<Longrightarrow>
      k \<in> set ks \<and> m k = Some t \<and> shouldAssignTask now (ReduceTask_Task t)" for now m ks k t
    by (induction ks) (auto split: option.splits if_splits)
  show "pickReduceTaskLocked now m ks = None \<longleftrightarrow>
      (\<forall>k \<in> set ks. \<forall>t. m k = Some t \<longrightarrow> \<not> shouldAssignTask now (ReduceTask_Task t))" for now m ks
    by (induction ks) (auto split: option.splits)
  show "allReduceTasksDoneLocked m ks \<longleftrightarrow>
      (\<forall>k \<in> set ks. \<forall>t. m k = Some t \<longrightarrow> Task_State (ReduceTask_Task t) = TaskStateDone)" for m ks
    by (induction ks) (auto split: option.splits)
qed

section \<open>The loops over the reduce tasks\<close>

lemma setMapOutput_apply:
  "setMapOutput mid addr ks rs k =
     (if k \<in> set ks
      then map_option (\<lambda>r. r\<lparr>ReduceTask_MapTaskOutputs := (ReduceTask_MapTaskOutputs r)(mid \<mapsto> addr)\<rparr>) (rs k)
      else rs k)"
  by (induction ks arbitrary: rs) (auto split: option.splits)

lemma deleteMapOutput_apply:
  "deleteMapOutput mid ks rs k =
     (if k \<in> set ks
      then map_option (\<lambda>r. r\<lparr>ReduceTask_MapTaskOutputs := (ReduceTask_MapTaskOutputs r)(mid := None)\<rparr>) (rs k)
      else rs k)"
  by (induction ks arbitrary: rs) (auto split: option.splits)

section \<open>The invariant\<close>

definition map_done :: "Coordinator \<Rightarrow> TaskID \<Rightarrow> bool" where
  "map_done c m \<longleftrightarrow> (\<exists>t. mapTasks c m = Some t \<and> Task_State (MapTask_Task t) = TaskStateDone)"

definition reduce_done :: "Coordinator \<Rightarrow> TaskID \<Rightarrow> bool" where
  "reduce_done c k \<longleftrightarrow> (\<exists>r. reduceTasks c k = Some r \<and> Task_State (ReduceTask_Task r) = TaskStateDone)"

definition map_entry_ok :: "int \<Rightarrow> TaskID \<Rightarrow> MapTask \<Rightarrow> bool" where
  "map_entry_ok n k t \<longleftrightarrow> Task_ID (MapTask_Task t) = k \<and> Task_Type (MapTask_Task t) = TaskMap \<and>
     Task_State (MapTask_Task t) \<noteq> TaskStateNone \<and> MapTask_Buckets t = n"

definition reduce_entry_ok :: "int \<Rightarrow> TaskID set \<Rightarrow> TaskID \<Rightarrow> ReduceTask \<Rightarrow> bool" where
  "reduce_entry_ok n done k r \<longleftrightarrow> Task_ID (ReduceTask_Task r) = k \<and>
     Task_Type (ReduceTask_Task r) = TaskReduce \<and> Task_State (ReduceTask_Task r) \<noteq> TaskStateNone \<and>
     0 \<le> ReduceTask_Bucket r \<and> ReduceTask_Bucket r < n \<and> dom (ReduceTask_MapTaskOutputs r) = done"

definition coord_inv :: "int \<Rightarrow> Coordinator \<Rightarrow> bool" where
  "coord_inv n c \<longleftrightarrow>
     finite (dom (mapTasks c)) \<and> finite (dom (reduceTasks c)) \<and>
     (\<forall>k t. mapTasks c k = Some t \<longrightarrow> map_entry_ok n k t) \<and>
     (\<forall>k r. reduceTasks c k = Some r \<longrightarrow> reduce_entry_ok n (Collect (map_done c)) k r)"

text \<open>What no handler changes: the set of tasks, the input file of a map task, the bucket of a
  reduce task.\<close>

definition same_job :: "Coordinator \<Rightarrow> Coordinator \<Rightarrow> bool" where
  "same_job c c' \<longleftrightarrow>
     (\<forall>k. map_option MapTask_File (mapTasks c k) = map_option MapTask_File (mapTasks c' k)) \<and>
     (\<forall>k. map_option ReduceTask_Bucket (reduceTasks c k) = map_option ReduceTask_Bucket (reduceTasks c' k))"

lemma same_job_refl [simp]: "same_job c c"
  by (simp add: same_job_def)

lemma same_job_trans: "same_job a b \<Longrightarrow> same_job b c \<Longrightarrow> same_job a c"
  by (simp add: same_job_def)

lemma same_job_dom:
  assumes "same_job c c'"
  shows "dom (mapTasks c') = dom (mapTasks c)" and "dom (reduceTasks c') = dom (reduceTasks c)"
proof -
  show "dom (mapTasks c') = dom (mapTasks c)"
    using assms unfolding same_job_def dom_def by (metis map_option_is_None)
  show "dom (reduceTasks c') = dom (reduceTasks c)"
    using assms unfolding same_job_def dom_def by (metis map_option_is_None)
qed

lemmas entry_ok_defs = map_entry_ok_def reduce_entry_ok_def

lemma map_done_dom: "map_done c m \<Longrightarrow> m \<in> dom (mapTasks c)"
  by (auto simp: map_done_def)

lemma coord_inv_mapD: "coord_inv n c \<Longrightarrow> mapTasks c k = Some t \<Longrightarrow> map_entry_ok n k t"
  by (simp add: coord_inv_def)

lemma coord_inv_reduceD:
  "coord_inv n c \<Longrightarrow> reduceTasks c k = Some r \<Longrightarrow> reduce_entry_ok n (Collect (map_done c)) k r"
  by (simp add: coord_inv_def)

section \<open>Construction\<close>

lemma makeMapTasks_apply:
  "snd (makeMapTasks n files g m) k =
     (if g < k \<and> k \<le> g + int (length files)
      then Some \<lparr>MapTask_Task = newTask k TaskMap, MapTask_File = files ! nat (k - g - 1), MapTask_Buckets = n\<rparr>
      else m k)"
proof (induction files arbitrary: g m)
  case Nil
  then show ?case by auto
next
  case (Cons f files)
  have "nat (k - g - 1) = Suc (nat (k - (g + 1) - 1))" if "g + 1 < k"
    using that by (simp add: nat_eq_iff)
  then show ?case
    by (auto simp: getGlobalID_def Cons.IH)
qed

lemma makeMapTasks_fst: "fst (makeMapTasks n files g m) = g + int (length files)"
  by (induction files arbitrary: g m) (simp_all add: getGlobalID_def)

lemma makeReduceTasks_apply:
  "snd (makeReduceTasks bs g m) k =
     (if g < k \<and> k \<le> g + int (length bs)
      then Some \<lparr>ReduceTask_Task = newTask k TaskReduce, ReduceTask_Bucket = bs ! nat (k - g - 1),
                 ReduceTask_MapTaskOutputs = Map.empty\<rparr>
      else m k)"
proof (induction bs arbitrary: g m)
  case Nil
  then show ?case by auto
next
  case (Cons b bs)
  have "nat (k - g - 1) = Suc (nat (k - (g + 1) - 1))" if "g + 1 < k"
    using that by (simp add: nat_eq_iff)
  then show ?case
    by (auto simp: getGlobalID_def Cons.IH)
qed

lemma MakeCoordinator_maps:
  "mapTasks (snd (MakeCoordinator g files n)) k =
     (if g < k \<and> k \<le> g + int (length files)
      then Some \<lparr>MapTask_Task = newTask k TaskMap, MapTask_File = files ! nat (k - g - 1), MapTask_Buckets = n\<rparr>
      else None)"
  using makeMapTasks_apply [of n files g Map.empty k]
  by (simp add: MakeCoordinator_def split_beta)

lemma MakeCoordinator_reduces:
  fixes g n :: int and files :: "string list"
  defines "h \<equiv> g + int (length files)"
  shows "reduceTasks (snd (MakeCoordinator g files n)) k =
     (if h < k \<and> k \<le> h + n
      then Some \<lparr>ReduceTask_Task = newTask k TaskReduce, ReduceTask_Bucket = k - h - 1,
                 ReduceTask_MapTaskOutputs = Map.empty\<rparr>
      else None)"
proof -
  have "[0..n - 1] ! nat (k - h - 1) = k - h - 1" if "h < k" "k \<le> h + n"
    using that by (simp add: nth_upto)
  then show ?thesis
    using makeReduceTasks_apply [of "[0..n - 1]" h Map.empty k]
      makeMapTasks_fst [of n files g Map.empty]
    by (auto simp: MakeCoordinator_def split_beta h_def)
qed

lemma MakeCoordinator_dom:
  "dom (mapTasks (snd (MakeCoordinator g files n))) = {g + 1 .. g + int (length files)}"
  "dom (reduceTasks (snd (MakeCoordinator g files n))) =
     {g + int (length files) + 1 .. g + int (length files) + n}"
  by (auto simp: dom_def MakeCoordinator_maps MakeCoordinator_reduces split: if_splits)

lemma MakeCoordinator_inv: "coord_inv n (snd (MakeCoordinator g files n))"
  unfolding coord_inv_def
  by (auto simp: MakeCoordinator_dom map_done_def MakeCoordinator_maps MakeCoordinator_reduces
      entry_ok_defs newTask_def split: if_splits)

section \<open>What each handler does\<close>

lemma RequestTask_cases:
  obtains
    (MapError) k t where "pickMapTaskLocked (env_now e) (mapTasks c) (env_pickMap e) = Some (k, t)"
      and "env_ReadFile e (MapTask_File t) = None"
      and "RequestTask e c =
        (c\<lparr>mapTasks := (mapTasks c)(k \<mapsto> t\<lparr>MapTask_Task := MarkRunning (env_now e) (MapTask_Task t)\<rparr>)\<rparr>,
         Inl (''coordinator: cannot read file '' @ MapTask_File t))"
  | (Map) k t content where "pickMapTaskLocked (env_now e) (mapTasks c) (env_pickMap e) = Some (k, t)"
      and "env_ReadFile e (MapTask_File t) = Some content"
      and "RequestTask e c =
        (c\<lparr>mapTasks := (mapTasks c)(k \<mapsto> t\<lparr>MapTask_Task := MarkRunning (env_now e) (MapTask_Task t)\<rparr>)\<rparr>,
         Inr \<lparr>Live_Task = Some (MapTaskRef k),
              Live_MapData = Some \<lparr>MapData_Key = MapTask_File t, MapData_Content = content,
                                   MapData_Buckets = MapTask_Buckets t\<rparr>,
              Live_ReduceData = None\<rparr>)"
  | (Wait) "pickMapTaskLocked (env_now e) (mapTasks c) (env_pickMap e) = None"
      and "\<not> allMapTasksDoneLocked (mapTasks c) (env_allMap e) \<or>
           pickReduceTaskLocked (env_now e) (reduceTasks c) (env_pickReduce e) = None"
      and "RequestTask e c = (c, Inr (waitReply (env_now e)))"
  | (Reduce) k r where "pickMapTaskLocked (env_now e) (mapTasks c) (env_pickMap e) = None"
      and "allMapTasksDoneLocked (mapTasks c) (env_allMap e)"
      and "pickReduceTaskLocked (env_now e) (reduceTasks c) (env_pickReduce e) = Some (k, r)"
      and "RequestTask e c =
        (c\<lparr>reduceTasks := (reduceTasks c)(k \<mapsto> r\<lparr>ReduceTask_Task := MarkRunning (env_now e) (ReduceTask_Task r)\<rparr>)\<rparr>,
         Inr \<lparr>Live_Task = Some (ReduceTaskRef k), Live_MapData = None,
              Live_ReduceData = Some (ReduceTask_Bucket r, k)\<rparr>)"
proof (cases "pickMapTaskLocked (env_now e) (mapTasks c) (env_pickMap e)")
  case (Some kt)
  then obtain k t where kt: "pickMapTaskLocked (env_now e) (mapTasks c) (env_pickMap e) = Some (k, t)"
    by (cases kt) auto
  show ?thesis
  proof (cases "env_ReadFile e (MapTask_File t)")
    case None
    show ?thesis by (rule MapError [OF kt None]) (simp add: RequestTask_def kt None Let_def)
  next
    case (Some content)
    show ?thesis by (rule Map [OF kt Some]) (simp add: RequestTask_def kt Some Let_def)
  qed
next
  case None
  note noMap = None
  show ?thesis
  proof (cases "allMapTasksDoneLocked (mapTasks c) (env_allMap e)")
    case False
    then show ?thesis by (intro Wait [OF noMap]) (simp_all add: RequestTask_def noMap)
  next
    case True
    show ?thesis
    proof (cases "pickReduceTaskLocked (env_now e) (reduceTasks c) (env_pickReduce e)")
      case None
      then show ?thesis by (intro Wait [OF noMap]) (simp_all add: RequestTask_def noMap True)
    next
      case (Some kr)
      then obtain k r where
        "pickReduceTaskLocked (env_now e) (reduceTasks c) (env_pickReduce e) = Some (k, r)"
        by (cases kr) auto
      then show ?thesis
        by (intro Reduce [OF noMap True]) (simp_all add: RequestTask_def noMap True Let_def)
    qed
  qed
qed

lemma RequestTask_map_done: "map_done (fst (RequestTask e c)) = map_done c"
proof (cases rule: RequestTask_cases [of e c])
  case (MapError k t)
  then show ?thesis
    using mapTable.pick_Some mapTable.pick_not_done by (fastforce simp: map_done_def fun_eq_iff)
next
  case (Map k t content)
  then show ?thesis
    using mapTable.pick_Some mapTable.pick_not_done by (fastforce simp: map_done_def fun_eq_iff)
qed (simp_all add: map_done_def fun_eq_iff)

lemma RequestTask_job: "same_job c (fst (RequestTask e c))"
  by (cases rule: RequestTask_cases [of e c])
     (auto simp: same_job_def dest!: mapTable.pick_Some reduceTable.pick_Some)

lemma entry_ok_mark:
  "map_entry_ok n k t \<Longrightarrow> map_entry_ok n k (t\<lparr>MapTask_Task := MarkRunning now (MapTask_Task t)\<rparr>)"
  "reduce_entry_ok n D k r \<Longrightarrow>
     reduce_entry_ok n D k (r\<lparr>ReduceTask_Task := MarkRunning now (ReduceTask_Task r)\<rparr>)"
  by (simp_all add: entry_ok_defs)

lemma RequestTask_inv:
  assumes inv: "coord_inv n c"
  shows "coord_inv n (fst (RequestTask e c))"
proof -
  note md = RequestTask_map_done [of e c]
  note dom = same_job_dom [OF RequestTask_job [of c e]]
  have maps: "map_entry_ok n k t" if "mapTasks (fst (RequestTask e c)) k = Some t" for k t
    using that inv
    by (cases rule: RequestTask_cases [of e c])
       (auto simp: coord_inv_def split: if_splits dest!: mapTable.pick_Some intro: entry_ok_mark)
  have reds: "reduce_entry_ok n (Collect (map_done c)) k r"
    if "reduceTasks (fst (RequestTask e c)) k = Some r" for k r
    using that inv
    by (cases rule: RequestTask_cases [of e c])
       (auto simp: coord_inv_def split: if_splits dest!: reduceTable.pick_Some intro: entry_ok_mark)
  show ?thesis
    using inv maps reds unfolding coord_inv_def md dom by blast
qed

lemma ReportMissing_map_done:
  "coord_inv n c \<Longrightarrow> map_done (ReportMissingMapOutputs ro args c) m \<longleftrightarrow>
     map_done c m \<and> m \<noteq> Missing_MapTaskID args"
  by (auto simp: ReportMissingMapOutputs_def map_done_def split: option.splits)

lemma ReportMissing_job: "same_job c (ReportMissingMapOutputs ro args c)"
  by (auto simp: ReportMissingMapOutputs_def same_job_def deleteMapOutput_apply option.map_comp comp_def
      split: option.splits)

lemma ReportMissing_inv:
  assumes inv: "coord_inv n c" and ro: "range_order (reduceTasks c) ro"
  shows "coord_inv n (ReportMissingMapOutputs ro args c)"
proof -
  let ?c = "ReportMissingMapOutputs ro args c" and ?m = "Missing_MapTaskID args"
  have md: "Collect (map_done ?c) = Collect (map_done c) - {?m}"
    using ReportMissing_map_done [OF inv] by auto
  have maps: "map_entry_ok n k t" if "mapTasks ?c k = Some t" for k t
    using that inv
    by (auto simp: ReportMissingMapOutputs_def coord_inv_def map_entry_ok_def split: option.splits if_splits)
  have reds: "reduce_entry_ok n (Collect (map_done c) - {?m}) k r" if "reduceTasks ?c k = Some r" for k r
  proof (cases "map_done c ?m")
    case True
    then obtain t where t: "mapTasks c ?m = Some t" "Task_State (MapTask_Task t) = TaskStateDone"
      by (auto simp: map_done_def)
    then have "Task_ID (MapTask_Task t) = ?m"
      using inv coord_inv_mapD by (fastforce simp: map_entry_ok_def)
    with that t obtain r0 where r0: "reduceTasks c k = Some r0"
      and r: "r = r0\<lparr>ReduceTask_MapTaskOutputs := (ReduceTask_MapTaskOutputs r0)(?m := None)\<rparr>"
      using ro by (auto simp: ReportMissingMapOutputs_def deleteMapOutput_apply range_order_def split: if_splits)
    have "reduce_entry_ok n (Collect (map_done c)) k r0"
      using inv r0 by (rule coord_inv_reduceD)
    then show ?thesis by (simp add: r reduce_entry_ok_def)
  next
    case False
    then have "reduceTasks ?c = reduceTasks c"
      by (auto simp: ReportMissingMapOutputs_def map_done_def split: option.splits)
    with that inv False show ?thesis by (auto simp: coord_inv_def)
  qed
  show ?thesis
    using inv maps reds
    unfolding coord_inv_def md same_job_dom [OF ReportMissing_job] by blast
qed

text \<open>The map task a completion report is about, if it is about one.\<close>

definition reports_map :: "ReportTaskCompletionArgs \<Rightarrow> TaskID \<Rightarrow> bool" where
  "reports_map args m \<longleftrightarrow> (\<exists>task. Report_Task args = Some task \<and> Task_Type task = TaskMap \<and> Task_ID task = m)"

definition reports_reduce :: "ReportTaskCompletionArgs \<Rightarrow> TaskID \<Rightarrow> bool" where
  "reports_reduce args k \<longleftrightarrow> (\<exists>task. Report_Task args = Some task \<and> Task_Type task = TaskReduce \<and> Task_ID task = k)"

lemma ReportTaskCompletion_panics: "ReportTaskCompletion ro args c = Inl p \<longleftrightarrow> Report_Task args = None \<and> p = NilDeref"
  by (auto simp: ReportTaskCompletion_def split: option.splits TaskType.splits)

lemma Report_map_done:
  assumes "ReportTaskCompletion ro args c = Inr c'"
  shows "map_done c' m \<longleftrightarrow> map_done c m \<or> (m \<in> dom (mapTasks c) \<and> reports_map args m)"
  using assms
  by (auto simp: ReportTaskCompletion_def map_done_def reports_map_def
      split: option.splits TaskType.splits if_splits)

lemma Report_reduce_done:
  assumes "ReportTaskCompletion ro args c = Inr c'"
  shows "reduce_done c' k \<longleftrightarrow> reduce_done c k \<or> (k \<in> dom (reduceTasks c) \<and> reports_reduce args k)"
  using assms
  by (auto simp: ReportTaskCompletion_def reduce_done_def reports_reduce_def setMapOutput_apply
      split: option.splits TaskType.splits if_splits)

lemma Report_job: "ReportTaskCompletion ro args c = Inr c' \<Longrightarrow> same_job c c'"
  by (auto simp: ReportTaskCompletion_def same_job_def setMapOutput_apply option.map_comp comp_def
      split: option.splits TaskType.splits if_splits)

lemma Report_maps_ok:
  assumes "coord_inv n c" and "ReportTaskCompletion ro args c = Inr c'" and "mapTasks c' k = Some t"
  shows "map_entry_ok n k t"
  using assms
  by (auto simp: ReportTaskCompletion_def coord_inv_def map_entry_ok_def
      split: option.splits TaskType.splits if_splits)

lemma Report_outputs:
  assumes inv: "coord_inv n c" and ro: "range_order (reduceTasks c) ro"
    and rep: "ReportTaskCompletion ro args c = Inr c'" and r: "reduceTasks c' k = Some r"
  shows "\<exists>r0. reduceTasks c k = Some r0 \<and> ReduceTask_Bucket r = ReduceTask_Bucket r0 \<and>
    Task_ID (ReduceTask_Task r) = Task_ID (ReduceTask_Task r0) \<and>
    Task_Type (ReduceTask_Task r) = Task_Type (ReduceTask_Task r0) \<and>
    (Task_State (ReduceTask_Task r) = Task_State (ReduceTask_Task r0) \<or>
     Task_State (ReduceTask_Task r) = TaskStateDone) \<and>
    dom (ReduceTask_MapTaskOutputs r) =
      dom (ReduceTask_MapTaskOutputs r0) \<union> {m. m \<in> dom (mapTasks c) \<and> \<not> map_done c m \<and> reports_map args m}"
proof -
  have "Task_ID (MapTask_Task t) = m" if "mapTasks c m = Some t" for m t
    using inv that coord_inv_mapD by (fastforce simp: map_entry_ok_def)
  moreover have "k' \<in> set ro" if "reduceTasks c k' = Some r'" for k' r'
    using ro that by (auto simp: range_order_def)
  ultimately show ?thesis
    using rep r
    by (auto simp: ReportTaskCompletion_def setMapOutput_apply reports_map_def map_done_def
        split: option.splits TaskType.splits if_splits)
qed

lemma Report_inv:
  assumes inv: "coord_inv n c" and ro: "range_order (reduceTasks c) ro"
    and rep: "ReportTaskCompletion ro args c = Inr c'"
  shows "coord_inv n c'"
proof -
  have md: "Collect (map_done c') =
      Collect (map_done c) \<union> {m. m \<in> dom (mapTasks c) \<and> \<not> map_done c m \<and> reports_map args m}"
    using Report_map_done [OF rep] by auto
  have reds: "reduce_entry_ok n (Collect (map_done c')) k r" if "reduceTasks c' k = Some r" for k r
  proof -
    from Report_outputs [OF inv ro rep that] obtain r0 where r0: "reduceTasks c k = Some r0"
      and eqs: "ReduceTask_Bucket r = ReduceTask_Bucket r0"
        "Task_ID (ReduceTask_Task r) = Task_ID (ReduceTask_Task r0)"
        "Task_Type (ReduceTask_Task r) = Task_Type (ReduceTask_Task r0)"
        "Task_State (ReduceTask_Task r) = Task_State (ReduceTask_Task r0) \<or>
         Task_State (ReduceTask_Task r) = TaskStateDone"
        "dom (ReduceTask_MapTaskOutputs r) = dom (ReduceTask_MapTaskOutputs r0) \<union>
           {m. m \<in> dom (mapTasks c) \<and> \<not> map_done c m \<and> reports_map args m}"
      by blast
    have "reduce_entry_ok n (Collect (map_done c)) k r0"
      using inv r0 by (rule coord_inv_reduceD)
    with eqs show ?thesis unfolding reduce_entry_ok_def md by auto
  qed
  show ?thesis
    using inv Report_maps_ok [OF inv rep] reds
    unfolding coord_inv_def same_job_dom [OF Report_job [OF rep]] by blast
qed

section \<open>Runs of the coordinator\<close>

text \<open>
  The coordinator under any sequence of RPCs, from any workers, at any times and with any
  iteration orders: lost, repeated, late and forged messages included.
\<close>

definition env_ok :: "Coordinator \<Rightarrow> request_env \<Rightarrow> bool" where
  "env_ok c e \<longleftrightarrow> range_order (mapTasks c) (env_pickMap e) \<and> range_order (mapTasks c) (env_allMap e) \<and>
     range_order (reduceTasks c) (env_pickReduce e)"

inductive coord_step :: "Coordinator \<Rightarrow> Coordinator \<Rightarrow> bool" where
  request: "env_ok c e \<Longrightarrow> coord_step c (fst (RequestTask e c))"
| report: "range_order (reduceTasks c) ro \<Longrightarrow> ReportTaskCompletion ro args c = Inr c' \<Longrightarrow> coord_step c c'"
| missing: "range_order (reduceTasks c) ro \<Longrightarrow> coord_step c (ReportMissingMapOutputs ro args c)"

inductive coord_reach :: "int \<Rightarrow> string list \<Rightarrow> int \<Rightarrow> Coordinator \<Rightarrow> bool" for g files n where
  start: "coord_reach g files n (snd (MakeCoordinator g files n))"
| step: "coord_reach g files n c \<Longrightarrow> coord_step c c' \<Longrightarrow> coord_reach g files n c'"

lemma coord_step_inv: "coord_step c c' \<Longrightarrow> coord_inv n c \<Longrightarrow> coord_inv n c'"
  by (induction rule: coord_step.induct) (auto intro: RequestTask_inv Report_inv ReportMissing_inv)

lemma coord_step_job: "coord_step c c' \<Longrightarrow> same_job c c'"
  by (induction rule: coord_step.induct) (auto intro: RequestTask_job Report_job ReportMissing_job)

lemma coord_reach_job: "coord_reach g files n c \<Longrightarrow> same_job (snd (MakeCoordinator g files n)) c"
  by (induction rule: coord_reach.induct) (auto intro: same_job_trans coord_step_job)

lemma coord_reach_coord_inv: "coord_reach g files n c \<Longrightarrow> coord_inv n c"
  by (induction rule: coord_reach.induct) (auto intro: MakeCoordinator_inv coord_step_inv)

lemma coord_reach_dom:
  assumes "coord_reach g files n c"
  shows "dom (mapTasks c) = {g + 1 .. g + int (length files)}"
    and "dom (reduceTasks c) = {g + int (length files) + 1 .. g + int (length files) + n}"
  using same_job_dom [OF coord_reach_job [OF assms]] by (simp_all add: MakeCoordinator_dom)

lemmas coord_reach_facts = coord_reach_coord_inv coord_reach_dom

text \<open>C3: in every reachable state of the coordinator every table entry is well formed (its key is
  its ID, its type and its bucket are right), and the map outputs recorded in each reduce task are
  exactly those of the map tasks that are done.\<close>

theorem coordinator_invariant: "coord_reach g files n c \<Longrightarrow> coord_inv n c"
  by (rule coord_reach_coord_inv)

section \<open>The reply of a reduce task\<close>

text \<open>Runs in which no map task that is done is reopened: between a handler's return and the end of the encoding
  of its reply, other handlers may run.\<close>

inductive calm_steps :: "Coordinator \<Rightarrow> Coordinator \<Rightarrow> bool" for c where
  calm_here: "calm_steps c c"
| calm_step: "calm_steps c c' \<Longrightarrow> coord_step c' c'' \<Longrightarrow> (\<forall>m. map_done c' m \<longrightarrow> map_done c'' m) \<Longrightarrow> calm_steps c c''"

definition outputs_of :: "Coordinator \<Rightarrow> TaskID \<Rightarrow> (TaskID \<rightharpoonup> string) option" where
  "outputs_of c k = map_option ReduceTask_MapTaskOutputs (reduceTasks c k)"

lemma RequestTask_outputs: "outputs_of (fst (RequestTask e c)) = outputs_of c"
proof (cases rule: RequestTask_cases [of e c])
  case (Reduce k r)
  then show ?thesis
    using reduceTable.pick_Some [OF Reduce(3)] by (simp add: outputs_of_def fun_eq_iff)
qed (simp_all add: outputs_of_def fun_eq_iff)

lemma Report_outputs_done:
  assumes "ReportTaskCompletion ro args c = Inr c'" and "dom (mapTasks c) = Collect (map_done c)"
  shows "outputs_of c' = outputs_of c"
proof -
  have "Task_State (MapTask_Task t) = TaskStateDone" if "mapTasks c m = Some t" for m t
  proof -
    have "map_done c m" using assms(2) that by blast
    then show ?thesis using that by (simp add: map_done_def)
  qed
  then show ?thesis
    using assms(1)
    by (auto simp: ReportTaskCompletion_def outputs_of_def fun_eq_iff split: option.splits TaskType.splits if_splits)
qed

lemma coord_step_outputs:
  assumes "coord_step c c'" and "dom (mapTasks c) = Collect (map_done c)" and "\<forall>m. map_done c m \<longrightarrow> map_done c' m"
    and "coord_inv n c"
  shows "outputs_of c' = outputs_of c"
  using assms
proof (induction rule: coord_step.induct)
  case (request c e)
  show ?case by (rule RequestTask_outputs)
next
  case (report c ro args c')
  then show ?case using Report_outputs_done by blast
next
  case (missing c ro args)
  then have "\<not> map_done c (Missing_MapTaskID args)"
    using ReportMissing_map_done by blast
  then show ?case
    by (auto simp: ReportMissingMapOutputs_def map_done_def split: option.splits)
qed

lemma calm_steps_outputs:
  assumes "calm_steps c c'" and "coord_inv n c" and "dom (mapTasks c) = Collect (map_done c)"
  shows "outputs_of c' = outputs_of c \<and> coord_inv n c' \<and> dom (mapTasks c') = Collect (map_done c')"
  using assms(1)
proof (induction rule: calm_steps.induct)
  case calm_here
  then show ?case using assms by simp
next
  case (calm_step c' c'')
  have "dom (mapTasks c'') = dom (mapTasks c')"
    by (rule same_job_dom(1) [OF coord_step_job [OF calm_step(2)]])
  then have "dom (mapTasks c'') = Collect (map_done c'')"
    using calm_step(3,4) map_done_dom [of c''] by blast
  moreover have "outputs_of c'' = outputs_of c'"
    by (rule coord_step_outputs [OF calm_step(2) _ calm_step(3), of n]) (use calm_step in simp_all)
  ultimately show ?case
    using calm_step coord_step_inv [OF calm_step(2)] by simp
qed

lemma reduce_handed_out:
  assumes reach: "coord_reach g files n c" and env: "env_ok c e"
    and req: "RequestTask e c = (c', Inr reply)" and d: "Live_ReduceData reply = Some (b, k)"
  shows "Live_Task reply = Some (ReduceTaskRef k)" and "Live_MapData reply = None"
    and "dom (mapTasks c) = Collect (map_done c)" and "\<not> reduce_done c k"
    and "\<exists>r. reduceTasks c k = Some r \<and> ReduceTask_Bucket r = b \<and>
      dom (ReduceTask_MapTaskOutputs r) = {g + 1 .. g + int (length files)}"
proof -
  note inv = coord_reach_coord_inv [OF reach] and dom = coord_reach_dom [OF reach]
  have *: "Live_Task reply = Some (ReduceTaskRef k) \<and> Live_MapData reply = None \<and>
      allMapTasksDoneLocked (mapTasks c) (env_allMap e) \<and> \<not> reduce_done c k \<and>
      (\<exists>r. reduceTasks c k = Some r \<and> ReduceTask_Bucket r = b)"
  proof (cases rule: RequestTask_cases [of e c])
    case (Reduce k' r')
    then show ?thesis
      using req d reduceTable.pick_Some [OF Reduce(3)] reduceTable.pick_not_done [OF Reduce(3)]
      by (auto simp: reduce_done_def)
  qed (use req d in auto)
  then obtain r where ad: "allMapTasksDoneLocked (mapTasks c) (env_allMap e)"
    and r: "reduceTasks c k = Some r" "ReduceTask_Bucket r = b" by blast
  have ord: "range_order (mapTasks c) (env_allMap e)" using env by (simp add: env_ok_def)
  have all: "dom (mapTasks c) = Collect (map_done c)"
    using ad unfolding mapTable.all_done_order [OF ord] map_done_def by fastforce
  have "dom (ReduceTask_MapTaskOutputs r) = Collect (map_done c)"
    using coord_inv_reduceD [OF inv r(1)] by (simp add: reduce_entry_ok_def)
  then show "\<exists>r. reduceTasks c k = Some r \<and> ReduceTask_Bucket r = b \<and>
      dom (ReduceTask_MapTaskOutputs r) = {g + 1 .. g + int (length files)}"
    using r all dom by auto
  show "Live_Task reply = Some (ReduceTaskRef k)" "Live_MapData reply = None" "\<not> reduce_done c k"
    "dom (mapTasks c) = Collect (map_done c)"
    using * all by blast+
qed

lemma encodeReply_outputs:
  "Live_ReduceData reply = Some (b, k) \<Longrightarrow> outputs_of c k = Some out \<Longrightarrow>
     Reply_ReduceData (encodeReply c reply) = Some \<lparr>ReduceData_Bucket = b, ReduceData_MapTaskOutputs = out\<rparr>"
  by (auto simp: encodeReply_def outputs_of_def)

lemma request_coord_step: "env_ok c e \<Longrightarrow> RequestTask e c = (c', r) \<Longrightarrow> coord_step c c'"
  using coord_step.request [of c e] by simp

text \<open>C7: a reduce task is handed out only when every map task is done, and the reply names a producer for every map
  task of the job and for nothing else, provided no finished map task is reopened before the reply is encoded: whatever
  other requests and reports are handled between the handler's return and the end of the encoding, the encoder finds
  in the reduce task's map of outputs what the handler found there.\<close>

theorem reduce_reply_complete:
  assumes reach: "coord_reach g files n c" and env: "env_ok c e"
    and req: "RequestTask e c = (c', Inr reply)" and d: "Live_ReduceData reply = Some (b, k)"
    and calm: "calm_steps c' c''"
  shows "(\<forall>m \<in> {g + 1 .. g + int (length files)}. map_done c m) \<and>
    (\<exists>r. reduceTasks c k = Some r \<and> dom (ReduceTask_MapTaskOutputs r) = {g + 1 .. g + int (length files)} \<and>
       Reply_ReduceData (encodeReply c'' reply) =
         Some \<lparr>ReduceData_Bucket = b, ReduceData_MapTaskOutputs = ReduceTask_MapTaskOutputs r\<rparr>)"
proof -
  note inv = coord_reach_coord_inv [OF reach] and dom = coord_reach_dom [OF reach]
  note h = reduce_handed_out [OF reach env req d]
  obtain r where r: "reduceTasks c k = Some r" "dom (ReduceTask_MapTaskOutputs r) = {g + 1 .. g + int (length files)}"
    using h(5) by blast
  have step: "coord_step c c'" by (rule request_coord_step [OF env req])
  have md: "map_done c' = map_done c" and out: "outputs_of c' = outputs_of c"
    using RequestTask_map_done [of e c] RequestTask_outputs [of e c] req by simp_all
  have "dom (mapTasks c') = Collect (map_done c')"
    using same_job_dom(1) [OF coord_step_job [OF step]] h(3) md by simp
  from calm_steps_outputs [OF calm coord_step_inv [OF step inv] this]
  have "outputs_of c'' k = Some (ReduceTask_MapTaskOutputs r)"
    using out r(1) by (simp add: outputs_of_def)
  from encodeReply_outputs [OF d this] show ?thesis
    using h(3) dom r by blast
qed

text \<open>C15: without that proviso it fails.  If a report of missing outputs of map task \<open>m\<close> is handled after a reduce task
  was handed out and before its reply is encoded, the reply, which had an entry for \<open>m\<close> when the handler returned,
  reaches the worker without one.\<close>

theorem reduce_reply_race:
  assumes reach: "coord_reach g files n c" and env: "env_ok c e"
    and req: "RequestTask e c = (c', Inr reply)" and d: "Live_ReduceData reply = Some (b, k)"
    and m: "m \<in> {g + 1 .. g + int (length files)}" and ro: "range_order (reduceTasks c') ro"
  shows "\<exists>d0 d1. Reply_ReduceData (encodeReply c' reply) = Some d0 \<and> m \<in> dom (ReduceData_MapTaskOutputs d0) \<and>
    Reply_ReduceData (encodeReply (ReportMissingMapOutputs ro \<lparr>Missing_MapTaskID = m\<rparr> c') reply) = Some d1 \<and>
    m \<notin> dom (ReduceData_MapTaskOutputs d1)"
proof -
  let ?c2 = "ReportMissingMapOutputs ro \<lparr>Missing_MapTaskID = m\<rparr> c'"
  note h = reduce_handed_out [OF reach env req d]
  obtain r where r: "reduceTasks c k = Some r" "dom (ReduceTask_MapTaskOutputs r) = {g + 1 .. g + int (length files)}"
    using h(5) by blast
  have step: "coord_step c c'" by (rule request_coord_step [OF env req])
  note reach' = coord_reach.step [OF reach step]
  have out: "outputs_of c' k = Some (ReduceTask_MapTaskOutputs r)"
    using RequestTask_outputs [of e c] req r(1) by (simp add: outputs_of_def fun_eq_iff)
  have step2: "coord_step c' ?c2" by (rule coord_step.missing [OF ro])
  note inv2 = coord_reach_coord_inv [OF coord_reach.step [OF reach' step2]]
  have "k \<in> dom (reduceTasks ?c2)"
    using same_job_dom(2) [OF coord_step_job [OF step2]] same_job_dom(2) [OF coord_step_job [OF step]] r(1) by auto
  then obtain r2 where r2: "reduceTasks ?c2 k = Some r2" by blast
  have "\<not> map_done ?c2 m"
    using ReportMissing_map_done [OF coord_reach_coord_inv [OF reach'], of ro "\<lparr>Missing_MapTaskID = m\<rparr>"] by simp
  then have "m \<notin> dom (ReduceTask_MapTaskOutputs r2)"
    using coord_inv_reduceD [OF inv2 r2] by (simp add: reduce_entry_ok_def)
  moreover have "outputs_of ?c2 k = Some (ReduceTask_MapTaskOutputs r2)"
    using r2 by (simp add: outputs_of_def)
  ultimately show ?thesis
    using encodeReply_outputs [OF d out] encodeReply_outputs [OF d, of ?c2] m r(2) by simp
qed

text \<open>C14: the coordinator hands out a task only when it is unassigned or was handed out at least ten
  seconds ago, so within the timeout no task runs twice and a finished task is never run again; the
  task handed out is then running since the time of the request.\<close>

theorem assigned_task_was_free:
  assumes inv: "coord_inv n c" and req: "RequestTask e c = (c', Inr reply)"
    and task: "Reply_Task (encodeReply c' reply) = Some task"
  shows "(Task_Type task = TaskMap \<longrightarrow> (\<exists>t t'. mapTasks c (Task_ID task) = Some t \<and>
            (Task_State (MapTask_Task t) = TaskStateUnassigned \<or>
             Task_State (MapTask_Task t) = TaskStateRunning \<and>
             env_now e - Task_AssignedAt (MapTask_Task t) \<ge> 10000000000) \<and>
            mapTasks c' (Task_ID task) = Some t' \<and> MapTask_Task t' = task)) \<and>
    (Task_Type task = TaskReduce \<longrightarrow> (\<exists>r r'. reduceTasks c (Task_ID task) = Some r \<and>
            (Task_State (ReduceTask_Task r) = TaskStateUnassigned \<or>
             Task_State (ReduceTask_Task r) = TaskStateRunning \<and>
             env_now e - Task_AssignedAt (ReduceTask_Task r) \<ge> 10000000000) \<and>
            reduceTasks c' (Task_ID task) = Some r' \<and> ReduceTask_Task r' = task)) \<and>
    Task_State task = TaskStateRunning \<and> Task_AssignedAt task = env_now e"
proof (cases rule: RequestTask_cases [of e c])
  case (Map k t content)
  from mapTable.pick_Some [OF Map(1)] have t: "mapTasks c k = Some t"
    and "shouldAssignTask (env_now e) (MapTask_Task t)" by auto
  moreover from coord_inv_mapD [OF inv t] have "Task_ID (MapTask_Task t) = k"
    "Task_Type (MapTask_Task t) = TaskMap" by (simp_all add: map_entry_ok_def)
  ultimately show ?thesis
    using Map(3) req task by (auto simp: encodeReply_def shouldAssignTask_def IsTimedOut_iff)
next
  case (Reduce k r)
  from reduceTable.pick_Some [OF Reduce(3)] have r: "reduceTasks c k = Some r"
    and "shouldAssignTask (env_now e) (ReduceTask_Task r)" by auto
  moreover from coord_inv_reduceD [OF inv r] have "Task_ID (ReduceTask_Task r) = k"
    "Task_Type (ReduceTask_Task r) = TaskReduce" by (simp_all add: reduce_entry_ok_def)
  ultimately show ?thesis
    using Reduce(4) req task by (auto simp: encodeReply_def shouldAssignTask_def IsTimedOut_iff)
qed (use req task in \<open>auto simp: encodeReply_def waitTask_def\<close>)

text \<open>C16: a worker is told to wait exactly when nothing can be handed out: no map task is free or
  overdue, and either some map task is still open or no reduce task is free or overdue.\<close>

theorem wait_iff_nothing_to_assign:
  assumes inv: "coord_inv n c" and env: "env_ok c e"
  shows "(\<exists>c' reply task. RequestTask e c = (c', Inr reply) \<and> Reply_Task (encodeReply c' reply) = Some task \<and>
            Task_Type task = TaskWait) \<longleftrightarrow>
    (\<forall>m t. mapTasks c m = Some t \<longrightarrow> \<not> shouldAssignTask (env_now e) (MapTask_Task t)) \<and>
    ((\<exists>m t. mapTasks c m = Some t \<and> Task_State (MapTask_Task t) \<noteq> TaskStateDone) \<or>
     (\<forall>k r. reduceTasks c k = Some r \<longrightarrow> \<not> shouldAssignTask (env_now e) (ReduceTask_Task r)))"
    (is "?waits \<longleftrightarrow> ?free")
proof -
  from env have ords: "range_order (mapTasks c) (env_pickMap e)" "range_order (mapTasks c) (env_allMap e)"
    "range_order (reduceTasks c) (env_pickReduce e)" by (simp_all add: env_ok_def)
  note scans = mapTable.pick_none_order [OF ords(1)] mapTable.all_done_order [OF ords(2)]
    reduceTable.pick_none_order [OF ords(3)]
  show ?thesis
  proof (cases rule: RequestTask_cases [of e c])
    case (MapError k t)
    then have "\<not> ?free" using scans(1) [of "env_now e"] by auto
    with MapError(3) show ?thesis by auto
  next
    case (Map k t content)
    then have "\<not> ?free" using scans(1) [of "env_now e"] by auto
    moreover have "Task_Type (MapTask_Task t) = TaskMap"
      using mapTable.pick_Some [OF Map(1)] coord_inv_mapD [OF inv] by (auto simp: map_entry_ok_def)
    ultimately show ?thesis using Map(3) by (auto simp: encodeReply_def)
  next
    case Wait
    then have "?free" using scans by auto
    moreover have ?waits using Wait(3) by (auto simp: encodeReply_def waitTask_def)
    ultimately show ?thesis by blast
  next
    case (Reduce k r)
    then have "\<not> ?free" using scans(2) reduceTable.pick_Some [OF Reduce(3)] by auto
    moreover have "Task_Type (ReduceTask_Task r) = TaskReduce"
      using reduceTable.pick_Some [OF Reduce(3)] coord_inv_reduceD [OF inv]
      by (auto simp: reduce_entry_ok_def)
    ultimately show ?thesis using Reduce(4) by (auto simp: encodeReply_def)
  qed
qed

lemma all_map_done_iff:
  "(\<forall>k t. mapTasks c k = Some t \<longrightarrow> Task_State (MapTask_Task t) = TaskStateDone) \<longleftrightarrow>
     dom (mapTasks c) = Collect (map_done c)"
  unfolding all_entries_iff by (simp add: map_done_def [abs_def])

lemma all_reduce_done_iff:
  "(\<forall>k r. reduceTasks c k = Some r \<longrightarrow> Task_State (ReduceTask_Task r) = TaskStateDone) \<longleftrightarrow>
     dom (reduceTasks c) = Collect (reduce_done c)"
  unfolding all_entries_iff by (simp add: reduce_done_def [abs_def])

text \<open>C17: \<^verbatim>\<open>Done\<close> is true exactly when every task is done, whatever the iteration orders.  Once it is
  true, every request is answered with a wait and changes nothing, and no completion report changes
  anything either: only a report of missing map outputs reopens the job.\<close>

theorem done_is_final:
  assumes inv: "coord_inv n c" and "range_order (mapTasks c) mo" and "range_order (reduceTasks c) ro"
    and env: "env_ok c e"
  shows "(Done mo ro c \<longleftrightarrow> dom (mapTasks c) = Collect (map_done c) \<and>
            dom (reduceTasks c) = Collect (reduce_done c)) \<and>
    (Done mo ro c \<longrightarrow> RequestTask e c = (c, Inr (waitReply (env_now e)))) \<and>
    (Done mo ro c \<longrightarrow> (\<forall>c'. ReportTaskCompletion ro args c = Inr c' \<longrightarrow> c' = c))"
proof (intro conjI impI allI)
  have D: "Done mo ro c \<longleftrightarrow>
      (\<forall>k t. mapTasks c k = Some t \<longrightarrow> Task_State (MapTask_Task t) = TaskStateDone) \<and>
      (\<forall>k r. reduceTasks c k = Some r \<longrightarrow> Task_State (ReduceTask_Task r) = TaskStateDone)"
    using assms(2,3) by (simp add: Done_def mapTable.all_done_order reduceTable.all_done_order)
  show "Done mo ro c \<longleftrightarrow> dom (mapTasks c) = Collect (map_done c) \<and>
      dom (reduceTasks c) = Collect (reduce_done c)"
    unfolding D all_map_done_iff all_reduce_done_iff ..
  assume "Done mo ro c"
  with D have m: "\<And>k t. mapTasks c k = Some t \<Longrightarrow> Task_State (MapTask_Task t) = TaskStateDone"
    and r: "\<And>k r. reduceTasks c k = Some r \<Longrightarrow> Task_State (ReduceTask_Task r) = TaskStateDone"
    by blast+
  show "RequestTask e c = (c, Inr (waitReply (env_now e)))"
  proof (cases rule: RequestTask_cases [of e c])
    case (MapError k t)
    then show ?thesis using m mapTable.pick_Some [OF MapError(1)] mapTable.pick_not_done [OF MapError(1)] by blast
  next
    case (Map k t content)
    then show ?thesis using m mapTable.pick_Some [OF Map(1)] mapTable.pick_not_done [OF Map(1)] by blast
  next
    case (Reduce k t)
    then show ?thesis
      using r reduceTable.pick_Some [OF Reduce(3)] reduceTable.pick_not_done [OF Reduce(3)] by blast
  qed
  fix c' assume "ReportTaskCompletion ro args c = Inr c'"
  with m r show "c' = c"
    by (auto simp: ReportTaskCompletion_def fun_upd_idem split: option.splits TaskType.splits if_splits)
qed

text \<open>C18: a repeated completion report, also one from another worker that ran the same task, changes
  nothing: the producer recorded for a map task is the first that reported it.\<close>

theorem completion_report_idempotent:
  assumes rep: "ReportTaskCompletion ro args c = Inr c'"
    and same: "Report_Task args' = Report_Task args"
  shows "ReportTaskCompletion ro' args' c' = Inr c'"
  using rep same
  by (auto simp: ReportTaskCompletion_def fun_upd_idem split: option.splits TaskType.splits if_splits)

section \<open>Progress\<close>

text \<open>
  One round of a worker that nothing disturbs: it asks, runs what it is given, and reports it.
\<close>

record round =
  round_env :: request_env
  round_order :: "TaskID list"
  round_address :: string

definition serve :: "round \<Rightarrow> Coordinator \<Rightarrow> Coordinator" where
  "serve x c =
     (case RequestTask (round_env x) c of
        (c', Inl _) \<Rightarrow> c'
      | (c', Inr reply) \<Rightarrow>
          (case Reply_Task (encodeReply c' reply) of
             None \<Rightarrow> c'
           | Some task \<Rightarrow>
               if Task_Type task = TaskWait then c'
               else (case ReportTaskCompletion (round_order x)
                             \<lparr>Report_Task = Some task, Report_WorkerAddress = round_address x\<rparr> c' of
                       Inl _ \<Rightarrow> c'
                     | Inr c'' \<Rightarrow> c'')))"

definition open_maps :: "Coordinator \<Rightarrow> TaskID set" where
  "open_maps c = dom (mapTasks c) - Collect (map_done c)"

definition open_reduces :: "Coordinator \<Rightarrow> TaskID set" where
  "open_reduces c = dom (reduceTasks c) - Collect (reduce_done c)"

definition no_task_running :: "Coordinator \<Rightarrow> bool" where
  "no_task_running c \<longleftrightarrow>
     (\<forall>m t. mapTasks c m = Some t \<longrightarrow> Task_State (MapTask_Task t) \<noteq> TaskStateRunning) \<and>
     (\<forall>k r. reduceTasks c k = Some r \<longrightarrow> Task_State (ReduceTask_Task r) \<noteq> TaskStateRunning)"

definition round_ok :: "Coordinator \<Rightarrow> round \<Rightarrow> bool" where
  "round_ok c x \<longleftrightarrow> env_ok c (round_env x) \<and> range_order (reduceTasks c) (round_order x) \<and>
     (\<forall>m t. mapTasks c m = Some t \<longrightarrow> env_ReadFile (round_env x) (MapTask_File t) \<noteq> None)"

lemma round_ok_job: "same_job c c' \<Longrightarrow> round_ok c x \<Longrightarrow> round_ok c' x"
proof -
  assume job: "same_job c c'" and ok: "round_ok c x"
  have "env_ReadFile (round_env x) (MapTask_File t) \<noteq> None" if "mapTasks c' m = Some t" for m t
  proof -
    from job that have "map_option MapTask_File (mapTasks c m) = Some (MapTask_File t)"
      by (simp add: same_job_def)
    then obtain z where "mapTasks c m = Some z" "MapTask_File z = MapTask_File t"
      by auto
    with ok show ?thesis by (metis round_ok_def)
  qed
  with job ok show "round_ok c' x"
    by (simp add: round_ok_def env_ok_def range_order_def same_job_dom)
qed

lemma unassigned_if_open:
  assumes "coord_inv n c" and "no_task_running c"
  shows "mapTasks c m = Some t \<Longrightarrow> \<not> map_done c m \<Longrightarrow> Task_State (MapTask_Task t) = TaskStateUnassigned"
    and "reduceTasks c k = Some r \<Longrightarrow> \<not> reduce_done c k \<Longrightarrow> Task_State (ReduceTask_Task r) = TaskStateUnassigned"
  using assms
  by (cases "Task_State (MapTask_Task t)"; force simp: coord_inv_def no_task_running_def map_done_def entry_ok_defs)
     (use assms in \<open>cases "Task_State (ReduceTask_Task r)";
        force simp: coord_inv_def no_task_running_def reduce_done_def entry_ok_defs\<close>)

lemma serve_map:
  assumes inv: "coord_inv n c" and idle: "no_task_running c" and ok: "round_ok c x"
    and op: "open_maps c \<noteq> {}"
  shows "\<exists>k \<in> open_maps c. open_maps (serve x c) = open_maps c - {k} \<and>
      open_reduces (serve x c) = open_reduces c \<and> no_task_running (serve x c) \<and>
      coord_inv n (serve x c) \<and> same_job c (serve x c)"
proof -
  let ?e = "round_env x"
  from op obtain m t where "mapTasks c m = Some t" "\<not> map_done c m"
    by (auto simp: open_maps_def)
  moreover then have "Task_State (MapTask_Task t) = TaskStateUnassigned"
    using unassigned_if_open(1) [OF inv idle] by blast
  ultimately obtain k t where pick: "pickMapTaskLocked (env_now ?e) (mapTasks c) (env_pickMap ?e) = Some (k, t)"
    using ok mapTable.pick_some_unassigned by (metis env_ok_def round_ok_def)
  then have t: "mapTasks c k = Some t" and nd: "Task_State (MapTask_Task t) \<noteq> TaskStateDone"
    using mapTable.pick_Some mapTable.pick_not_done by blast+
  from coord_inv_mapD [OF inv t] have tk: "Task_ID (MapTask_Task t) = k" "Task_Type (MapTask_Task t) = TaskMap"
    by (simp_all add: map_entry_ok_def)
  from ok t obtain content where content: "env_ReadFile ?e (MapTask_File t) = Some content"
    by (auto simp: round_ok_def)
  let ?c' = "fst (RequestTask ?e c)" and ?task = "MarkRunning (env_now ?e) (MapTask_Task t)"
  let ?args = "\<lparr>Report_Task = Some ?task, Report_WorkerAddress = round_address x\<rparr>"
  have c': "?c' = c\<lparr>mapTasks := (mapTasks c)(k \<mapsto> t\<lparr>MapTask_Task := ?task\<rparr>)\<rparr>"
    using pick content by (simp add: RequestTask_def Let_def)
  obtain c'' where rep: "ReportTaskCompletion (round_order x) ?args ?c' = Inr c''"
    using ReportTaskCompletion_panics by (metis ReportTaskCompletionArgs.select_convs(1) option.distinct(1) sum.exhaust)
  have serve: "serve x c = c''"
    using rep pick content tk by (auto simp: serve_def RequestTask_def encodeReply_def Let_def)
  have ro: "range_order (reduceTasks ?c') (round_order x)"
    using ok by (simp add: c' round_ok_def)
  have md: "map_done c'' m \<longleftrightarrow> map_done c m \<or> m = k" for m
    using Report_map_done [OF rep, of m] RequestTask_map_done [of ?e c] tk
    by (auto simp: reports_map_def c')
  have rd: "reduce_done c'' j \<longleftrightarrow> reduce_done c j" for j
    using Report_reduce_done [OF rep, of j] tk by (auto simp: reports_reduce_def c' reduce_done_def)
  have job: "same_job c c''"
    using same_job_trans [OF RequestTask_job [of c ?e] Report_job [OF rep]] .
  have "no_task_running c''"
    using idle rep tk t
    by (auto simp: ReportTaskCompletion_def c' no_task_running_def setMapOutput_apply split: if_splits)
  moreover have "coord_inv n c''"
    by (rule Report_inv [OF RequestTask_inv [OF inv] ro rep])
  moreover have "k \<in> open_maps c"
    using t nd by (auto simp: open_maps_def map_done_def)
  ultimately show ?thesis
    using job same_job_dom [OF job] md rd by (auto simp: serve open_maps_def open_reduces_def)
qed

lemma serve_reduce:
  assumes inv: "coord_inv n c" and idle: "no_task_running c" and ok: "round_ok c x"
    and nomaps: "open_maps c = {}" and op: "open_reduces c \<noteq> {}"
  shows "\<exists>k \<in> open_reduces c. open_maps (serve x c) = {} \<and>
      open_reduces (serve x c) = open_reduces c - {k} \<and> no_task_running (serve x c) \<and>
      coord_inv n (serve x c) \<and> same_job c (serve x c)"
proof -
  let ?e = "round_env x"
  from op obtain m r where "reduceTasks c m = Some r" "\<not> reduce_done c m"
    by (auto simp: open_reduces_def)
  moreover then have "Task_State (ReduceTask_Task r) = TaskStateUnassigned"
    using unassigned_if_open(2) [OF inv idle] by blast
  ultimately obtain k r where
    pick: "pickReduceTaskLocked (env_now ?e) (reduceTasks c) (env_pickReduce ?e) = Some (k, r)"
    using ok reduceTable.pick_some_unassigned by (metis env_ok_def round_ok_def)
  then have r: "reduceTasks c k = Some r" and nd: "Task_State (ReduceTask_Task r) \<noteq> TaskStateDone"
    using reduceTable.pick_Some reduceTable.pick_not_done by blast+
  from coord_inv_reduceD [OF inv r] have rk: "Task_ID (ReduceTask_Task r) = k"
    "Task_Type (ReduceTask_Task r) = TaskReduce"
    by (simp_all add: reduce_entry_ok_def)
  have alldone: "\<forall>k t. mapTasks c k = Some t \<longrightarrow> Task_State (MapTask_Task t) = TaskStateDone"
    using nomaps map_done_dom unfolding all_map_done_iff open_maps_def by blast
  then have ad: "allMapTasksDoneLocked (mapTasks c) (env_allMap ?e)"
    by (auto simp: mapTable.all_done_iff)
  moreover have nopick: "pickMapTaskLocked (env_now ?e) (mapTasks c) (env_pickMap ?e) = None"
    using alldone by (auto simp: mapTable.pick_None shouldAssignTask_def)
  let ?c' = "fst (RequestTask ?e c)" and ?task = "MarkRunning (env_now ?e) (ReduceTask_Task r)"
  let ?args = "\<lparr>Report_Task = Some ?task, Report_WorkerAddress = round_address x\<rparr>"
  have c': "?c' = c\<lparr>reduceTasks := (reduceTasks c)(k \<mapsto> r\<lparr>ReduceTask_Task := ?task\<rparr>)\<rparr>"
    using pick ad nopick by (simp add: RequestTask_def Let_def)
  obtain c'' where rep: "ReportTaskCompletion (round_order x) ?args ?c' = Inr c''"
    using ReportTaskCompletion_panics by (metis ReportTaskCompletionArgs.select_convs(1) option.distinct(1) sum.exhaust)
  have serve: "serve x c = c''"
    using rep pick ad nopick rk by (auto simp: serve_def RequestTask_def encodeReply_def Let_def)
  have dom': "dom (reduceTasks ?c') = dom (reduceTasks c)"
    using same_job_dom(2) [OF RequestTask_job] .
  have ro: "range_order (reduceTasks ?c') (round_order x)"
    using ok by (simp add: range_order_def dom' round_ok_def)
  have md: "map_done c'' m \<longleftrightarrow> map_done c m" for m
    using Report_map_done [OF rep, of m] RequestTask_map_done [of ?e c] rk
    by (auto simp: reports_map_def)
  have rd: "reduce_done c'' j \<longleftrightarrow> reduce_done c j \<or> j = k" for j
    using Report_reduce_done [OF rep, of j] rk r nd by (auto simp: reports_reduce_def c' reduce_done_def)
  have job: "same_job c c''"
    using same_job_trans [OF RequestTask_job [of c ?e] Report_job [OF rep]] .
  have "no_task_running c''"
    using idle rep rk r
    by (auto simp: ReportTaskCompletion_def c' no_task_running_def split: if_splits)
  moreover have "coord_inv n c''"
    by (rule Report_inv [OF RequestTask_inv [OF inv] ro rep])
  moreover have "k \<in> open_reduces c"
    using r nd by (auto simp: open_reduces_def reduce_done_def)
  ultimately show ?thesis
    using job same_job_dom [OF job] md rd nomaps by (auto simp: serve open_maps_def open_reduces_def)
qed


definition open_tasks :: "Coordinator \<Rightarrow> nat" where
  "open_tasks c = card (open_maps c) + card (open_reduces c)"

lemma serve_progress:
  assumes inv: "coord_inv n c" and idle: "no_task_running c" and ok: "round_ok c x" and op: "0 < open_tasks c"
  shows "open_tasks (serve x c) = open_tasks c - 1 \<and> no_task_running (serve x c) \<and>
      coord_inv n (serve x c) \<and> same_job c (serve x c)"
proof (cases "open_maps c = {}")
  case False
  have "finite (open_maps c)" using inv by (simp add: coord_inv_def open_maps_def)
  with False have "0 < card (open_maps c)" by (simp add: card_gt_0_iff)
  with serve_map [OF inv idle ok False] show ?thesis
    by (auto simp: open_tasks_def)
next
  case True
  with op have "open_reduces c \<noteq> {}" by (auto simp: open_tasks_def)
  moreover have "finite (open_reduces c)" using inv by (simp add: coord_inv_def open_reduces_def)
  ultimately show ?thesis
    using serve_reduce [OF inv idle ok True] True by (auto simp: open_tasks_def card_gt_0_iff)
qed

lemma serve_rounds:
  assumes "coord_inv n c" and "no_task_running c" and "\<forall>x \<in> set xs. round_ok c x"
    and "length xs = open_tasks c"
  shows "open_tasks (fold serve xs c) = 0 \<and> coord_inv n (fold serve xs c) \<and> same_job c (fold serve xs c)"
  using assms
proof (induction xs arbitrary: c)
  case Nil
  then show ?case by simp
next
  case (Cons x xs)
  from Cons.prems have step: "open_tasks (serve x c) = open_tasks c - 1" "no_task_running (serve x c)"
    "coord_inv n (serve x c)" "same_job c (serve x c)"
    using serve_progress [of n c x] by auto
  have "\<forall>y \<in> set xs. round_ok (serve x c) y"
    using Cons.prems(3) round_ok_job [OF step(4)] by auto
  moreover have "length xs = open_tasks (serve x c)"
    using Cons.prems(4) step(1) by simp
  ultimately show ?case
    using Cons.IH [OF step(3,2)] same_job_trans [OF step(4)] by auto
qed

lemma MakeCoordinator_open:
  assumes "0 \<le> n"
  shows "open_tasks (snd (MakeCoordinator g files n)) = length files + nat n"
    and "no_task_running (snd (MakeCoordinator g files n))"
proof -
  let ?c = "snd (MakeCoordinator g files n)"
  have "open_maps ?c = {g + 1 .. g + int (length files)}"
    "open_reduces ?c = {g + int (length files) + 1 .. g + int (length files) + n}"
    unfolding open_maps_def open_reduces_def
    by (auto simp: MakeCoordinator_dom map_done_def reduce_done_def MakeCoordinator_maps
        MakeCoordinator_reduces newTask_def split: if_splits)
  then show "open_tasks ?c = length files + nat n" by (simp add: open_tasks_def)
  show "no_task_running ?c"
    by (auto simp: no_task_running_def MakeCoordinator_maps MakeCoordinator_reduces newTask_def split: if_splits)
qed

text \<open>C19: a single worker that is never disturbed finishes the job: after as many rounds of request and
  completion report as there are input files and buckets, \<^verbatim>\<open>Done\<close> is true, whatever the iteration
  orders, clock readings and worker addresses.\<close>

theorem undisturbed_worker_finishes:
  fixes g n :: int and files :: "string list"
  defines "c0 \<equiv> snd (MakeCoordinator g files n)"
  assumes n: "0 \<le> n" and rounds: "\<forall>x \<in> set xs. round_ok c0 x" and len: "length xs = length files + nat n"
    and orders: "range_order (mapTasks c0) mo" "range_order (reduceTasks c0) ro"
  shows "Done mo ro (fold serve xs c0)"
proof -
  let ?c = "fold serve xs c0"
  have "coord_inv n c0" unfolding c0_def by (rule MakeCoordinator_inv)
  with rounds len have zero: "open_tasks ?c = 0" and inv: "coord_inv n ?c" and job: "same_job c0 ?c"
    using serve_rounds [of n c0 xs] MakeCoordinator_open [OF n, of g files] by (simp_all add: c0_def)
  have "open_maps ?c = {}" "open_reduces ?c = {}"
    using zero inv by (auto simp: open_tasks_def open_maps_def open_reduces_def coord_inv_def)
  moreover have "Collect (map_done ?c) \<subseteq> dom (mapTasks ?c)" "Collect (reduce_done ?c) \<subseteq> dom (reduceTasks ?c)"
    by (auto simp: map_done_def reduce_done_def)
  ultimately have "dom (mapTasks ?c) = Collect (map_done ?c)" "dom (reduceTasks ?c) = Collect (reduce_done ?c)"
    by (auto simp: open_maps_def open_reduces_def)
  moreover have "range_order (mapTasks ?c) mo" "range_order (reduceTasks ?c) ro"
    using orders same_job_dom [OF job] by (simp_all add: range_order_def)
  ultimately show ?thesis
    unfolding Done_def mapTable.all_done_order [OF \<open>range_order (mapTasks ?c) mo\<close>]
      reduceTable.all_done_order [OF \<open>range_order (reduceTasks ?c) ro\<close>] all_map_done_iff all_reduce_done_iff
    by simp
qed

section \<open>Witnesses\<close>

text \<open>A job with one input file and one bucket, used by the witnesses: as started, with the map
  task reported, and with the reduce task handed out.\<close>

definition ex_c0 :: Coordinator where
  "ex_c0 = snd (MakeCoordinator 0 [''in''] 1)"

definition ex_args :: ReportTaskCompletionArgs where
  "ex_args = \<lparr>Report_Task = Some (newTask 1 TaskMap), Report_WorkerAddress = ''w''\<rparr>"

definition ex_c1 :: Coordinator where
  "ex_c1 = (case ReportTaskCompletion [2] ex_args ex_c0 of Inr c \<Rightarrow> c | Inl _ \<Rightarrow> ex_c0)"

definition ex_env :: request_env where
  "ex_env = \<lparr>env_now = 7, env_ReadFile = [''in'' \<mapsto> ''text''], env_pickMap = [1], env_allMap = [1],
             env_pickReduce = [2]\<rparr>"

lemma ex_c0_eq: "ex_c0 = \<lparr>
    mapTasks = [1 \<mapsto> \<lparr>MapTask_Task = newTask 1 TaskMap, MapTask_File = ''in'', MapTask_Buckets = 1\<rparr>],
    reduceTasks = [2 \<mapsto> \<lparr>ReduceTask_Task = newTask 2 TaskReduce, ReduceTask_Bucket = 0,
                         ReduceTask_MapTaskOutputs = Map.empty\<rparr>]\<rparr>"
  by (simp add: ex_c0_def MakeCoordinator_def getGlobalID_def upto.simps)

lemma ex_c1_eq: "ex_c1 = \<lparr>
    mapTasks = [1 \<mapsto> \<lparr>MapTask_Task = (newTask 1 TaskMap)\<lparr>Task_State := TaskStateDone\<rparr>,
                      MapTask_File = ''in'', MapTask_Buckets = 1\<rparr>],
    reduceTasks = [2 \<mapsto> \<lparr>ReduceTask_Task = newTask 2 TaskReduce, ReduceTask_Bucket = 0,
                         ReduceTask_MapTaskOutputs = [1 \<mapsto> ''w'']\<rparr>]\<rparr>"
  by (simp add: ex_c1_def ex_c0_eq ReportTaskCompletion_def ex_args_def newTask_def)

lemma ex_report: "ReportTaskCompletion [2] ex_args ex_c0 = Inr ex_c1"
  by (simp add: ex_c1_def ReportTaskCompletion_def ex_args_def newTask_def split: option.splits)

lemma ex_orders:
  "range_order (reduceTasks ex_c0) [2]" "range_order (mapTasks ex_c1) [1]" "env_ok ex_c0 ex_env" "env_ok ex_c1 ex_env"
  by (simp_all add: ex_c0_eq ex_c1_eq env_ok_def ex_env_def range_order_def)

lemma ex_c0_reach: "coord_reach 0 [''in''] 1 ex_c0"
  unfolding ex_c0_def by (rule coord_reach.start)

lemma ex_c1_reach: "coord_reach 0 [''in''] 1 ex_c1"
  by (rule coord_reach.step [OF ex_c0_reach coord_step.report [OF ex_orders(1) ex_report]])

lemma ex_request0: "\<exists>c' reply. RequestTask ex_env ex_c0 = (c', Inr reply) \<and>
    Reply_Task (encodeReply c' reply) = Some (MarkRunning 7 (newTask 1 TaskMap))"
  by (simp add: encodeReply_def RequestTask_def ex_c0_eq ex_env_def shouldAssignTask_def newTask_def Let_def)

lemma ex_request1: "\<exists>c' reply. RequestTask ex_env ex_c1 = (c', Inr reply) \<and> Live_ReduceData reply = Some (0, 2)"
  by (simp add: RequestTask_def ex_c1_eq ex_env_def shouldAssignTask_def newTask_def Let_def)

theorem coordinator_invariant_witness:
  "\<exists>c. coord_reach 0 [''in''] 1 c \<and> coord_inv 1 c \<and> map_done ex_c1 1 \<and> \<not> map_done c 1 \<and> outputs_of c 2 = Some Map.empty"
proof -
  let ?c = "ReportMissingMapOutputs [2] \<lparr>Missing_MapTaskID = 1\<rparr> ex_c1"
  have "range_order (reduceTasks ex_c1) [2]" by (simp add: ex_c1_eq range_order_def)
  then have reach: "coord_reach 0 [''in''] 1 ?c"
    by (intro coord_reach.step [OF ex_c1_reach] coord_step.missing)
  have "map_done ex_c1 1" "\<not> map_done ?c 1" "outputs_of ?c 2 = Some Map.empty"
    by (simp_all add: ex_c1_eq ReportMissingMapOutputs_def map_done_def outputs_of_def newTask_def)
  with reach coordinator_invariant [OF reach] show ?thesis by blast
qed

theorem reduce_reply_complete_witness:
  "\<exists>c' c'' reply d. coord_reach 0 [''in''] 1 ex_c1 \<and> RequestTask ex_env ex_c1 = (c', Inr reply) \<and> calm_steps c' c'' \<and> c'' \<noteq> c' \<and>
     Reply_ReduceData (encodeReply c'' reply) = Some d \<and> dom (ReduceData_MapTaskOutputs d) = {1} \<and> map_done ex_c1 1"
proof -
  from ex_request1 obtain c' reply where *: "RequestTask ex_env ex_c1 = (c', Inr reply)" "Live_ReduceData reply = Some (0, 2)"
    by blast
  let ?args = "\<lparr>Report_Task = Some (newTask 2 TaskReduce), Report_WorkerAddress = ''v''\<rparr>"
  have c': "c' = ex_c1\<lparr>reduceTasks := [2 \<mapsto> \<lparr>ReduceTask_Task = MarkRunning 7 (newTask 2 TaskReduce), ReduceTask_Bucket = 0,
      ReduceTask_MapTaskOutputs = [1 \<mapsto> ''w'']\<rparr>]\<rparr>"
    using *(1) by (simp add: RequestTask_def ex_c1_eq ex_env_def shouldAssignTask_def newTask_def Let_def)
  obtain c'' where c'': "ReportTaskCompletion [2] ?args c' = Inr c''" "reduce_done c'' 2"
    by (simp add: c' ReportTaskCompletion_def newTask_def reduce_done_def)
  have "range_order (reduceTasks c') [2]" by (simp add: c' range_order_def)
  from coord_step.report [OF this c''(1)] have calm: "calm_steps c' c''"
    by (rule calm_step [OF calm_here]) (use Report_map_done [OF c''(1)] in blast)
  have "c'' \<noteq> c'" using c''(2) by (auto simp: c' reduce_done_def newTask_def)
  with reduce_reply_complete [OF ex_c1_reach ex_orders(4) * calm] ex_c1_reach * calm show ?thesis
    by auto
qed

theorem reduce_reply_race_witness:
  "\<exists>c' reply d0 d1. coord_reach 0 [''in''] 1 ex_c1 \<and> RequestTask ex_env ex_c1 = (c', Inr reply) \<and>
     Reply_ReduceData (encodeReply c' reply) = Some d0 \<and> 1 \<in> dom (ReduceData_MapTaskOutputs d0) \<and>
     Reply_ReduceData (encodeReply (ReportMissingMapOutputs [2] \<lparr>Missing_MapTaskID = 1\<rparr> c') reply) = Some d1 \<and>
     1 \<notin> dom (ReduceData_MapTaskOutputs d1)"
proof -
  from ex_request1 obtain c' reply where *: "RequestTask ex_env ex_c1 = (c', Inr reply)" "Live_ReduceData reply = Some (0, 2)"
    by blast
  have "dom (reduceTasks c') = {2}"
    using same_job_dom(2) [OF RequestTask_job [of ex_c1 ex_env]] * by (simp add: ex_c1_eq)
  then have ro: "range_order (reduceTasks c') [2]" by (simp add: range_order_def)
  have "(1 :: int) \<in> {0 + 1 .. 0 + int (length [''in''])}" by simp
  from reduce_reply_race [OF ex_c1_reach ex_orders(4) * this ro] show ?thesis
    using ex_c1_reach *(1) by blast
qed

theorem assigned_task_was_free_witness:
  "\<exists>c' reply task t'. coord_inv 1 ex_c0 \<and> RequestTask ex_env ex_c0 = (c', Inr reply) \<and>
     Reply_Task (encodeReply c' reply) = Some task \<and> Task_Type task = TaskMap \<and> mapTasks c' 1 = Some t' \<and>
     MapTask_Task t' = task \<and> Task_State task = TaskStateRunning \<and> Task_AssignedAt task = 7"
proof -
  note inv = coord_reach_coord_inv [OF ex_c0_reach]
  from ex_request0 obtain c' reply where *: "RequestTask ex_env ex_c0 = (c', Inr reply)"
    "Reply_Task (encodeReply c' reply) = Some (MarkRunning 7 (newTask 1 TaskMap))" by blast
  with assigned_task_was_free [OF inv *] inv show ?thesis
    by (auto simp: newTask_def ex_env_def)
qed

text \<open>Both sides of the equivalence occur: nothing waits in the first state; with the reduce
  task just handed out, the next request waits.\<close>

theorem wait_iff_nothing_to_assign_witness:
  "coord_inv 1 ex_c1 \<and> env_ok ex_c1 ex_env \<and>
   \<not> (\<exists>c' reply task. RequestTask ex_env ex_c1 = (c', Inr reply) \<and> Reply_Task (encodeReply c' reply) = Some task \<and>
        Task_Type task = TaskWait)"
proof -
  note inv = coord_reach_coord_inv [OF ex_c1_reach]
  have "shouldAssignTask (env_now ex_env) (newTask 2 TaskReduce)"
    by (simp add: shouldAssignTask_def newTask_def)
  with inv ex_orders(4) wait_iff_nothing_to_assign [OF inv ex_orders(4)] show ?thesis
    by (simp add: ex_c1_eq)
qed

theorem done_is_final_witness:
  "\<exists>c. coord_inv 1 c \<and> range_order (mapTasks c) [1] \<and> range_order (reduceTasks c) [2] \<and> env_ok c ex_env \<and>
     Done [1] [2] c \<and> RequestTask ex_env c = (c, Inr (waitReply 7))"
proof -
  define c where "c = (case ReportTaskCompletion [2] (ex_args\<lparr>Report_Task := Some (newTask 2 TaskReduce)\<rparr>) ex_c1
     of Inr c \<Rightarrow> c | Inl _ \<Rightarrow> ex_c1)"
  have c: "ReportTaskCompletion [2] (ex_args\<lparr>Report_Task := Some (newTask 2 TaskReduce)\<rparr>) ex_c1 = Inr c"
    by (simp add: c_def ReportTaskCompletion_def newTask_def split: option.splits)
  have ro: "range_order (reduceTasks ex_c1) [2]" by (simp add: ex_c1_eq range_order_def)
  have inv: "coord_inv 1 c"
    by (rule Report_inv [OF coord_reach_coord_inv [OF ex_c1_reach] ro c])
  have dom: "dom (mapTasks c) = {1}" "dom (reduceTasks c) = {2}"
    using same_job_dom [OF Report_job [OF c]] by (simp_all add: ex_c1_eq)
  have ords: "range_order (mapTasks c) [1]" "range_order (reduceTasks c) [2]" "env_ok c ex_env"
    by (simp_all add: range_order_def dom env_ok_def ex_env_def)
  have "Done [1] [2] c"
    by (simp add: c_def ex_c1_eq ReportTaskCompletion_def newTask_def Done_def)
  with done_is_final [OF inv ords] inv ords show ?thesis by (auto simp: ex_env_def)
qed

theorem completion_report_idempotent_witness:
  "ReportTaskCompletion [2] ex_args ex_c0 = Inr ex_c1 \<and>
   ReportTaskCompletion [2] (ex_args\<lparr>Report_WorkerAddress := ''other''\<rparr>) ex_c1 = Inr ex_c1"
  using ex_report completion_report_idempotent [OF ex_report, of "ex_args\<lparr>Report_WorkerAddress := ''other''\<rparr>" "[2]"]
  by simp

theorem undisturbed_worker_finishes_witness:
  "Done [1] [2] (fold serve
     [\<lparr>round_env = ex_env, round_order = [2], round_address = ''w''\<rparr>,
      \<lparr>round_env = ex_env, round_order = [2], round_address = ''v''\<rparr>]
     (snd (MakeCoordinator 0 [''in''] 1)))"
proof -
  have "round_ok ex_c0 \<lparr>round_env = ex_env, round_order = [2], round_address = a\<rparr>" for a
    using ex_orders by (simp add: round_ok_def ex_c0_eq ex_env_def)
  moreover have "range_order (mapTasks ex_c0) [1]" "range_order (reduceTasks ex_c0) [2]"
    by (simp_all add: ex_c0_eq range_order_def)
  ultimately show ?thesis
    using undisturbed_worker_finishes [where n = 1 and g = 0 and files = "[''in'']" and mo = "[1]" and ro = "[2]"
        and xs = "[\<lparr>round_env = ex_env, round_order = [2], round_address = ''w''\<rparr>,
                   \<lparr>round_env = ex_env, round_order = [2], round_address = ''v''\<rparr>]"]
    by (simp add: ex_c0_def [symmetric])
qed

end
