(* ===== verification/Go_Path.thy ===== *)
theory Go_Path
  imports Prelude
begin

text \<open>
  The functions of \<^verbatim>\<open>path\<close> and \<^verbatim>\<open>path/filepath\<close> (on Unix, where the two agree) that the
  repository calls, on byte strings: \<^verbatim>\<open>Clean\<close>, \<^verbatim>\<open>Join\<close>, \<^verbatim>\<open>Abs\<close>, \<^verbatim>\<open>Rel\<close>,
  \<^verbatim>\<open>Base\<close>, \<^verbatim>\<open>Dir\<close>, \<^verbatim>\<open>Ext\<close> and ASCII \<^verbatim>\<open>strings.ToLower\<close>.  The lemmas describe
  each by the list of the path's components.
\<close>

section \<open>Definitions\<close>

abbreviation slash :: char where
  "slash \<equiv> CHR ''/''"

fun split_slash_aux :: "string \<Rightarrow> string \<Rightarrow> string list" where
  "split_slash_aux cur [] = [cur]"
| "split_slash_aux cur (c # s) =
     (if c = slash then cur # split_slash_aux [] s else split_slash_aux (cur @ [c]) s)"

definition split_slash :: "string \<Rightarrow> string list" where
  "split_slash s = split_slash_aux [] s"

text \<open>One component in \<^verbatim>\<open>Clean\<close>; the components kept so far are stacked, the last on top.\<close>

definition clean_comp :: "bool \<Rightarrow> string list \<Rightarrow> string \<Rightarrow> string list" where
  "clean_comp rooted stack c =
     (if c = [] \<or> c = ''.'' then stack
      else if c = ''..'' then
        (case stack of
           [] \<Rightarrow> if rooted then [] else [''..'']
         | t # r \<Rightarrow> if t = ''..'' then ''..'' # stack else r)
      else c # stack)"

definition clean_comps :: "bool \<Rightarrow> string list \<Rightarrow> string list" where
  "clean_comps rooted cs = rev (foldl (clean_comp rooted) [] cs)"

definition path_Clean :: "string \<Rightarrow> string" where
  "path_Clean p =
     (if p = [] then ''.''
      else let rooted = (hd p = slash); cs = clean_comps rooted (split_slash p)
           in if rooted then slash # strings_Join cs ''/''
              else if cs = [] then ''.''
              else strings_Join cs ''/'')"

definition filepath_Join :: "string list \<Rightarrow> string" where
  "filepath_Join elems =
     (let es = filter (\<lambda>e. e \<noteq> []) elems in if es = [] then [] else path_Clean (strings_Join es ''/''))"

definition filepath_Abs :: "string option \<Rightarrow> string \<Rightarrow> string option" where
  "filepath_Abs cwd p =
     (if p \<noteq> [] \<and> hd p = slash then Some (path_Clean p)
      else map_option (\<lambda>w. filepath_Join [w, p]) cwd)"

fun strip_common :: "string list \<Rightarrow> string list \<Rightarrow> string list \<times> string list" where
  "strip_common (b # bs) (t # ts) = (if b = t then strip_common bs ts else (b # bs, t # ts))"
| "strip_common bs ts = (bs, ts)"

text \<open>The components \<^verbatim>\<open>Rel\<close> compares: those of a cleaned path, none for \<^verbatim>\<open>"."\<close> and \<^verbatim>\<open>"/"\<close>.\<close>

definition path_comps :: "string \<Rightarrow> string list" where
  "path_comps p = filter (\<lambda>c. c \<noteq> [] \<and> c \<noteq> ''.'') (split_slash p)"

definition filepath_Rel :: "string \<Rightarrow> string \<Rightarrow> string option" where
  "filepath_Rel basepath targpath =
     (let base = path_Clean basepath; targ = path_Clean targpath in
      if targ = base then Some ''.''
      else if (hd base = slash) \<noteq> (hd targ = slash) then None
      else let (bs, ts) = strip_common (path_comps base) (path_comps targ)
           in if bs \<noteq> [] \<and> hd bs = ''..'' then None
              else Some (strings_Join (replicate (length bs) ''..'' @ ts) ''/''))"

definition strip_trailing_slashes :: "string \<Rightarrow> string" where
  "strip_trailing_slashes p = rev (dropWhile (\<lambda>c. c = slash) (rev p))"

definition filepath_Base :: "string \<Rightarrow> string" where
  "filepath_Base p =
     (if p = [] then ''.''
      else let q = last (split_slash (strip_trailing_slashes p)) in if q = [] then ''/'' else q)"

definition filepath_Dir :: "string \<Rightarrow> string" where
  "filepath_Dir p = path_Clean (take (nat (LastIndexByte p slash + 1)) p)"

definition filepath_Ext :: "string \<Rightarrow> string" where
  "filepath_Ext p =
     (let f = last (split_slash p); i = LastIndexByte f (CHR ''.'')
      in if i = -1 then [] else drop (nat i) f)"

definition ascii_lower :: "char \<Rightarrow> char" where
  "ascii_lower c = (if 65 \<le> (of_char c :: nat) \<and> (of_char c :: nat) \<le> 90 then char_of (of_char c + 32 :: nat) else c)"

definition strings_ToLower :: "string \<Rightarrow> string" where
  "strings_ToLower s = map ascii_lower s"

section \<open>Splitting and joining\<close>

definition normal_comp :: "string \<Rightarrow> bool" where
  "normal_comp c \<longleftrightarrow> c \<noteq> [] \<and> c \<noteq> ''.'' \<and> c \<noteq> ''..'' \<and> slash \<notin> set c"

definition normal_comps :: "string list \<Rightarrow> bool" where
  "normal_comps cs \<longleftrightarrow> (\<forall>c \<in> set cs. normal_comp c)"

lemma split_aux_noslash: "slash \<notin> set s \<Longrightarrow> split_slash_aux cur s = [cur @ s]"
  by (induction s arbitrary: cur) auto

lemma split_aux_append:
  "slash \<notin> set a \<Longrightarrow> split_slash_aux cur (a @ slash # s) = (cur @ a) # split_slash_aux [] s"
  by (induction a arbitrary: cur) auto

lemma split_slash_Nil [simp]: "split_slash [] = [[]]"
  by (simp add: split_slash_def)

lemma split_slash_Cons_slash [simp]: "split_slash (slash # s) = [] # split_slash s"
  by (simp add: split_slash_def)

lemma split_slash_noslash: "slash \<notin> set a \<Longrightarrow> split_slash a = [a]"
  by (simp add: split_slash_def split_aux_noslash)

lemma split_slash_append: "slash \<notin> set a \<Longrightarrow> split_slash (a @ slash # s) = a # split_slash s"
  by (simp add: split_slash_def split_aux_append)

lemma split_aux_noslash_comps: "slash \<notin> set cur \<Longrightarrow> c \<in> set (split_slash_aux cur s) \<Longrightarrow> slash \<notin> set c"
proof (induction s arbitrary: cur)
  case (Cons a s)
  from Cons.prems show ?case
    using Cons.IH [of "[]"] Cons.IH [of "cur @ [a]"] by (auto split: if_splits)
qed auto

lemma split_slash_comps: "c \<in> set (split_slash s) \<Longrightarrow> slash \<notin> set c"
  using split_aux_noslash_comps [of "[]" c s] by (simp add: split_slash_def)

lemma split_slash_nonempty [simp]: "split_slash s \<noteq> []"
proof -
  have "split_slash_aux cur s \<noteq> []" for cur
    by (induction s arbitrary: cur) auto
  then show ?thesis by (simp add: split_slash_def)
qed

lemma split_slash_two: "split_slash (s @ slash # t) = split_slash s @ split_slash t"
proof -
  have "split_slash_aux cur (s @ slash # t) = split_slash_aux cur s @ split_slash_aux [] t" for cur
    by (induction s arbitrary: cur) auto
  then show ?thesis by (simp add: split_slash_def)
qed

lemma split_slash_Join:
  "cs \<noteq> [] \<Longrightarrow> \<forall>c \<in> set cs. slash \<notin> set c \<Longrightarrow> split_slash (strings_Join cs ''/'') = cs"
proof (induction cs)
  case Nil
  then show ?case by simp
next
  case (Cons c cs)
  then show ?case
    by (cases cs) (simp_all add: split_slash_noslash split_slash_append)
qed

lemma Join_nonempty: "cs \<noteq> [] \<Longrightarrow> \<forall>c \<in> set cs. c \<noteq> [] \<Longrightarrow> strings_Join cs sep \<noteq> []"
  by (induction cs sep rule: strings_Join.induct) auto

lemma Join_hd: "cs \<noteq> [] \<Longrightarrow> hd cs \<noteq> [] \<Longrightarrow> hd (strings_Join cs sep) = hd (hd cs)"
  by (induction cs sep rule: strings_Join.induct) auto

lemma normal_comps_simps [simp]:
  "normal_comps []"
  "normal_comps (c # cs) \<longleftrightarrow> normal_comp c \<and> normal_comps cs"
  "normal_comps (cs @ ds) \<longleftrightarrow> normal_comps cs \<and> normal_comps ds"
  "normal_comps (rev cs) \<longleftrightarrow> normal_comps cs"
  by (auto simp: normal_comps_def)

lemma normal_comps_noslash: "normal_comps cs \<Longrightarrow> \<forall>c \<in> set cs. slash \<notin> set c"
  by (auto simp: normal_comps_def normal_comp_def)

lemma normal_Join_nonempty: "normal_comps cs \<Longrightarrow> cs \<noteq> [] \<Longrightarrow> strings_Join cs ''/'' \<noteq> []"
  by (rule Join_nonempty) (auto simp: normal_comps_def normal_comp_def)

lemma normal_Join_hd: "normal_comps cs \<Longrightarrow> cs \<noteq> [] \<Longrightarrow> hd (strings_Join cs ''/'') \<noteq> slash"
  by (cases cs) (simp_all add: Join_hd normal_comp_def, metis list.set_sel(1))

section \<open>\<^verbatim>\<open>Clean\<close>\<close>

lemma foldl_clean_normal:
  "normal_comps cs \<Longrightarrow> foldl (clean_comp r) st cs = rev cs @ st"
  by (induction cs arbitrary: st) (auto simp: clean_comp_def normal_comp_def)

lemma foldl_clean_rooted:
  "normal_comps st \<Longrightarrow> \<forall>c \<in> set cs. slash \<notin> set c \<Longrightarrow> normal_comps (foldl (clean_comp True) st cs)"
  by (induction cs arbitrary: st)
     (auto simp: clean_comp_def normal_comp_def split: list.splits)

lemma clean_comps_rooted_normal: "normal_comps (clean_comps True (split_slash s))"
  unfolding clean_comps_def using foldl_clean_rooted [of "[]"] split_slash_comps by simp

lemma clean_comps_normal: "normal_comps cs \<Longrightarrow> clean_comps r cs = cs"
  by (simp add: clean_comps_def foldl_clean_normal)

lemma clean_comps_skip: "c = [] \<or> c = ''.'' \<Longrightarrow> clean_comps r (c # cs) = clean_comps r cs"
  by (auto simp: clean_comps_def clean_comp_def)

lemma clean_comps_append_normal:
  "normal_comps ds \<Longrightarrow> clean_comps r (cs @ ds) = clean_comps r cs @ ds"
  by (simp add: clean_comps_def foldl_clean_normal)

lemma Clean_rooted: "path_Clean (slash # p) = slash # strings_Join (clean_comps True (split_slash p)) ''/''"
  by (simp add: path_Clean_def Let_def clean_comps_skip)

lemma Clean_relative_normal:
  assumes "normal_comps cs" and "cs \<noteq> []"
  shows "path_Clean (strings_Join cs ''/'') = strings_Join cs ''/''"
  using assms normal_Join_nonempty normal_Join_hd
  by (simp add: path_Clean_def Let_def split_slash_Join normal_comps_noslash clean_comps_normal)

lemma Clean_rooted_normal:
  assumes "normal_comps cs"
  shows "path_Clean (slash # strings_Join cs ''/'') = slash # strings_Join cs ''/''"
  using assms
  by (cases "cs = []")
     (simp_all add: Clean_rooted clean_comps_skip split_slash_Join normal_comps_noslash clean_comps_normal)

lemma Clean_rooted_idem: "path_Clean (path_Clean (slash # p)) = path_Clean (slash # p)"
  unfolding Clean_rooted [of p] by (rule Clean_rooted_normal [OF clean_comps_rooted_normal])

section \<open>\<^verbatim>\<open>Rel\<close>\<close>

lemma path_comps_rooted: "normal_comps cs \<Longrightarrow> path_comps (slash # strings_Join cs ''/'') = cs"
  by (cases "cs = []")
     (auto simp: path_comps_def split_slash_Join normal_comps_noslash filter_id_conv
       normal_comps_def normal_comp_def)

lemma strip_common_prefix: "strip_common bs (bs @ ts) = ([], ts)"
  by (induction bs) (cases ts; simp)+

lemma Join_inj:
  assumes "normal_comps cs" and "normal_comps ds" and "strings_Join cs ''/'' = strings_Join ds ''/''"
  shows "cs = ds"
proof -
  have "path_comps (slash # strings_Join cs ''/'') = path_comps (slash # strings_Join ds ''/'')"
    by (simp add: assms(3))
  then show ?thesis using assms(1,2) by (simp add: path_comps_rooted)
qed

lemma Rel_below:
  assumes "normal_comps bs" and "normal_comps cs"
  shows "filepath_Rel (slash # strings_Join bs ''/'') (slash # strings_Join (bs @ cs) ''/'') =
    Some (if cs = [] then ''.'' else strings_Join cs ''/'')"
proof (cases "cs = []")
  case True
  then show ?thesis by (simp add: filepath_Rel_def)
next
  case False
  then have "strings_Join (bs @ cs) ''/'' \<noteq> strings_Join bs ''/''"
    using Join_inj [of "bs @ cs" bs] assms by auto
  with False assms show ?thesis
    by (simp add: filepath_Rel_def Clean_rooted_normal path_comps_rooted strip_common_prefix)
qed

end
