(* ===== verification/Go_OS.thy ===== *)
theory Go_OS
  imports Go_Path
begin

text \<open>
  The part of the operating system the repository uses: a file store with the calls of Go's \<^verbatim>\<open>os\<close>
  package.  Files and directories are keyed by their absolute, cleaned path.  Every call may fail:
  \<open>os_faults\<close> says for the calls to come, in order, which one fails and how (a call beyond the
  end of the list does not fail), and a call that fails that way changes nothing.  \<open>os_draws\<close> are
  the random numbers \<^verbatim>\<open>os.CreateTemp\<close> draws.  A theorem that holds for every state holds for every
  pattern of failures and every sequence of draws.
\<close>

datatype os_error = ErrNotExist | ErrPermission | ErrInvalid | ErrExist | ErrOther

record os_state =
  os_cwd :: string
  os_files :: "string \<rightharpoonup> string"
  os_dirs :: "string set"
  os_faults :: "os_error option list"
  os_draws :: "nat list"

definition os_key :: "string \<Rightarrow> string \<Rightarrow> string" where
  "os_key cwd name =
     (if name \<noteq> [] \<and> hd name = slash then path_Clean name else path_Clean (cwd @ ''/'' @ name))"

type_synonym ('e, 'a) os = "os_state \<Rightarrow> ('e + 'a) \<times> os_state"

definition os_return :: "'a \<Rightarrow> ('e, 'a) os" where
  "os_return a = (\<lambda>s. (Inr a, s))"

definition os_fail :: "'e \<Rightarrow> ('e, 'a) os" where
  "os_fail e = (\<lambda>s. (Inl e, s))"

text \<open>Go's \<^verbatim>\<open>x, err := m(); if err != nil { return err }\<close> and what follows.\<close>

definition os_bind :: "('e, 'a) os \<Rightarrow> ('a \<Rightarrow> ('e, 'b) os) \<Rightarrow> ('e, 'b) os" where
  "os_bind m k = (\<lambda>s. case m s of (Inl e, s') \<Rightarrow> (Inl e, s') | (Inr a, s') \<Rightarrow> k a s')"

text \<open>A deferred call: it runs after \<open>m\<close>, whatever \<open>m\<close> returned, and its own result is dropped.\<close>

definition os_defer :: "('e, 'a) os \<Rightarrow> ('f, 'b) os \<Rightarrow> ('e, 'a) os" where
  "os_defer m d = (\<lambda>s. case m s of (r, s') \<Rightarrow> (r, snd (d s')))"

definition os_mapErr :: "('e \<Rightarrow> 'f) \<Rightarrow> ('e, 'a) os \<Rightarrow> ('f, 'a) os" where
  "os_mapErr f m = (\<lambda>s. case m s of (Inl e, s') \<Rightarrow> (Inl (f e), s') | (Inr a, s') \<Rightarrow> (Inr a, s'))"

text \<open>One system call: it fails if the next fault says so.\<close>

definition os_call :: "(os_error, 'a) os \<Rightarrow> (os_error, 'a) os" where
  "os_call g = (\<lambda>s. case os_faults s of
      [] \<Rightarrow> g s
    | f # fs \<Rightarrow> (case f of None \<Rightarrow> g (s\<lparr>os_faults := fs\<rparr>) | Some e \<Rightarrow> (Inl e, s\<lparr>os_faults := fs\<rparr>)))"

definition os_ReadFile :: "string \<Rightarrow> (os_error, string) os" where
  "os_ReadFile name = os_call (\<lambda>s.
     let k = os_key (os_cwd s) name
     in if k \<in> os_dirs s then (Inl ErrOther, s)
        else (case os_files s k of None \<Rightarrow> (Inl ErrNotExist, s) | Some d \<Rightarrow> (Inr d, s)))"

text \<open>\<^verbatim>\<open>os.Stat\<close>, as far as \<^verbatim>\<open>IsDir\<close>.\<close>

definition os_Stat_IsDir :: "string \<Rightarrow> (os_error, bool) os" where
  "os_Stat_IsDir name = os_call (\<lambda>s.
     let k = os_key (os_cwd s) name
     in if k \<in> os_dirs s then (Inr True, s)
        else if os_files s k \<noteq> None then (Inr False, s)
        else (Inl ErrNotExist, s))"

definition os_Getwd :: "(os_error, string) os" where
  "os_Getwd = os_call (\<lambda>s. (Inr (os_cwd s), s))"

definition os_Create :: "string \<Rightarrow> (os_error, unit) os" where
  "os_Create name = os_call (\<lambda>s.
     let k = os_key (os_cwd s) name
     in if k \<in> os_dirs s then (Inl ErrOther, s)
        else (Inr (), s\<lparr>os_files := (os_files s)(k \<mapsto> [])\<rparr>))"

text \<open>\<^verbatim>\<open>os.CreateTemp\<close> draws until the name is free.\<close>

fun temp_name :: "string \<Rightarrow> (string \<rightharpoonup> string) \<Rightarrow> string set \<Rightarrow> string \<Rightarrow> nat list \<Rightarrow> (string \<times> nat list) option" where
  "temp_name cwd files dirs pre [] = None"
| "temp_name cwd files dirs pre (r # rs) =
     (let name = pre @ itoa_nat r; k = os_key cwd name
      in if files k = None \<and> k \<notin> dirs then Some (name, rs) else temp_name cwd files dirs pre rs)"

definition os_CreateTemp :: "string \<Rightarrow> string \<Rightarrow> (os_error, string) os" where
  "os_CreateTemp dir pre = os_call (\<lambda>s.
     case temp_name (os_cwd s) (os_files s) (os_dirs s) (dir @ ''/'' @ pre) (os_draws s) of
       None \<Rightarrow> (Inl ErrExist, s\<lparr>os_draws := []\<rparr>)
     | Some (name, rs) \<Rightarrow>
         (Inr name, s\<lparr>os_draws := rs, os_files := (os_files s)(os_key (os_cwd s) name \<mapsto> [])\<rparr>))"

definition os_Write :: "string \<Rightarrow> string \<Rightarrow> (os_error, unit) os" where
  "os_Write name bytes = os_call (\<lambda>s.
     let k = os_key (os_cwd s) name
     in (Inr (), s\<lparr>os_files := (os_files s)(k := map_option (\<lambda>d. d @ bytes) (os_files s k))\<rparr>))"

text \<open>\<^verbatim>\<open>Sync\<close> and \<^verbatim>\<open>Close\<close>.\<close>

definition os_flush :: "(os_error, unit) os" where
  "os_flush = os_call (\<lambda>s. (Inr (), s))"

definition os_Rename :: "string \<Rightarrow> string \<Rightarrow> (os_error, unit) os" where
  "os_Rename old new = os_call (\<lambda>s.
     let ko = os_key (os_cwd s) old; kn = os_key (os_cwd s) new
     in if kn \<in> os_dirs s then (Inl ErrExist, s)
        else (case os_files s ko of
                None \<Rightarrow> (Inl ErrNotExist, s)
              | Some d \<Rightarrow> (Inr (), s\<lparr>os_files := (os_files s)(ko := None, kn \<mapsto> d)\<rparr>)))"

definition os_Remove :: "string \<Rightarrow> (os_error, unit) os" where
  "os_Remove name = os_call (\<lambda>s.
     let k = os_key (os_cwd s) name
     in if os_files s k = None then (Inl ErrNotExist, s)
        else (Inr (), s\<lparr>os_files := (os_files s)(k := None)\<rparr>))"

section \<open>Weakest preconditions\<close>

text \<open>What holds after an operation: \<open>Q\<close> of the value it returned and the state, or \<open>E\<close> of the error.\<close>

definition wp :: "('e, 'a) os \<Rightarrow> ('a \<Rightarrow> os_state \<Rightarrow> bool) \<Rightarrow> ('e \<Rightarrow> os_state \<Rightarrow> bool) \<Rightarrow> os_state \<Rightarrow> bool" where
  "wp m Q E s \<longleftrightarrow> (case m s of (Inl e, s') \<Rightarrow> E e s' | (Inr a, s') \<Rightarrow> Q a s')"

lemma wp_return [simp]: "wp (os_return a) Q E s \<longleftrightarrow> Q a s"
  by (simp add: wp_def os_return_def)

lemma wp_fail [simp]: "wp (os_fail e) Q E s \<longleftrightarrow> E e s"
  by (simp add: wp_def os_fail_def)

lemma wp_bind [simp]: "wp (os_bind m k) Q E s \<longleftrightarrow> wp m (\<lambda>a. wp (k a) Q E) E s"
  by (simp add: wp_def os_bind_def split: prod.split sum.split)

lemma wp_defer [simp]:
  "wp (os_defer m d) Q E s \<longleftrightarrow> wp m (\<lambda>a s'. Q a (snd (d s'))) (\<lambda>e s'. E e (snd (d s'))) s"
  by (simp add: wp_def os_defer_def split: prod.split sum.split)

lemma wp_mapErr [simp]: "wp (os_mapErr f m) Q E s \<longleftrightarrow> wp m Q (\<lambda>e. E (f e)) s"
  by (simp add: wp_def os_mapErr_def split: prod.split sum.split)

lemma wp_conseq:
  "wp m Q E s \<Longrightarrow> (\<And>a s'. Q a s' \<Longrightarrow> Q' a s') \<Longrightarrow> (\<And>e s'. E e s' \<Longrightarrow> E' e s') \<Longrightarrow> wp m Q' E' s"
  by (auto simp: wp_def split: prod.splits sum.splits)

lemma wp_ok: "wp m Q E s \<Longrightarrow> m s = (Inr a, s') \<Longrightarrow> Q a s'"
  by (simp add: wp_def)

lemma wp_error: "wp m Q E s \<Longrightarrow> m s = (Inl e, s') \<Longrightarrow> E e s'"
  by (simp add: wp_def)

lemma wp_total: "wp m Q (\<lambda>e s'. False) s \<Longrightarrow> \<exists>a s'. m s = (Inr a, s') \<and> Q a s'"
  by (auto simp: wp_def split: prod.splits sum.splits)

lemma wp_bindI:
  "wp m Q' E' s \<Longrightarrow> (\<And>a s'. Q' a s' \<Longrightarrow> wp (k a) Q E s') \<Longrightarrow> (\<And>e s'. E' e s' \<Longrightarrow> E e s') \<Longrightarrow>
   wp (os_bind m k) Q E s"
  by (simp add: wp_conseq)

lemma wp_call:
  "(\<And>e fs. os_faults s \<noteq> [] \<Longrightarrow> E e (s\<lparr>os_faults := fs\<rparr>)) \<Longrightarrow>
   (\<And>fs. (os_faults s = [] \<Longrightarrow> fs = []) \<Longrightarrow> wp g Q E (s\<lparr>os_faults := fs\<rparr>)) \<Longrightarrow> wp (os_call g) Q E s"
proof -
  assume E: "\<And>e fs. os_faults s \<noteq> [] \<Longrightarrow> E e (s\<lparr>os_faults := fs\<rparr>)"
    and Q: "\<And>fs. (os_faults s = [] \<Longrightarrow> fs = []) \<Longrightarrow> wp g Q E (s\<lparr>os_faults := fs\<rparr>)"
  show ?thesis
  proof (cases "os_faults s")
    case Nil
    then have "s\<lparr>os_faults := []\<rparr> = s" by simp
    then have "wp g Q E s" using Q [of "[]"] by metis
    then show ?thesis using Nil by (simp add: wp_def os_call_def)
  next
    case (Cons f fs)
    then show ?thesis using Q [of fs] E [of _ fs] by (cases f) (simp_all add: wp_def os_call_def)
  qed
qed

section \<open>What the calls change\<close>

definition same_store :: "os_state \<Rightarrow> os_state \<Rightarrow> bool" where
  "same_store s s' \<longleftrightarrow> os_cwd s' = os_cwd s \<and> os_dirs s' = os_dirs s \<and> (os_faults s = [] \<longrightarrow> os_faults s' = [])"

lemma same_store_refl [simp]: "same_store s s"
  by (simp add: same_store_def)

lemma same_store_trans: "same_store a b \<Longrightarrow> same_store b c \<Longrightarrow> same_store a c"
  by (simp add: same_store_def)

text \<open>No file outside \<open>K\<close> differs.\<close>

definition only_changes :: "string set \<Rightarrow> os_state \<Rightarrow> os_state \<Rightarrow> bool" where
  "only_changes K s s' \<longleftrightarrow> same_store s s' \<and> (\<forall>k. k \<notin> K \<longrightarrow> os_files s' k = os_files s k)"

lemma only_changes_refl [simp]: "only_changes K s s"
  by (simp add: only_changes_def)

lemma only_changes_step: "only_changes K a b \<Longrightarrow> only_changes K b c \<Longrightarrow> only_changes K a c"
  by (auto simp: only_changes_def same_store_def)

lemma only_changes_mono: "only_changes K a b \<Longrightarrow> K \<subseteq> L \<Longrightarrow> only_changes L a b"
  by (auto simp: only_changes_def)

lemma only_changes_none: "only_changes {} s s' \<Longrightarrow> os_files s' = os_files s \<and> same_store s s'"
  by (auto simp: only_changes_def)

text \<open>Nothing changes except which calls are to fail.\<close>

definition quiet :: "os_state \<Rightarrow> os_state \<Rightarrow> bool" where
  "quiet s s' \<longleftrightarrow> only_changes {} s s' \<and> os_draws s' = os_draws s \<and> (os_faults s = [] \<longrightarrow> s' = s)"

lemma quiet_refl [simp]: "quiet s s"
  by (simp add: quiet_def)

lemma quiet_trans: "quiet a b \<Longrightarrow> quiet b c \<Longrightarrow> quiet a c"
  by (auto simp: quiet_def intro: only_changes_step)

lemma quiet_files: "quiet s s' \<Longrightarrow> os_files s' = os_files s \<and> same_store s s' \<and> only_changes {} s s'"
  by (auto simp: quiet_def dest: only_changes_none)

lemma quiet_faults: "quiet s s' \<Longrightarrow> os_faults s' \<noteq> [] \<Longrightarrow> os_faults s \<noteq> []"
  by (auto simp: quiet_def)

text \<open>For each call, what holds after it.  A call fails only with a fault, or as its branches say.\<close>

lemma ReadFile_spec:
  "wp (os_ReadFile name)
     (\<lambda>d s'. quiet s s' \<and> os_files s (os_key (os_cwd s) name) = Some d \<and> os_key (os_cwd s) name \<notin> os_dirs s)
     (\<lambda>e s'. quiet s s' \<and> (os_faults s = [] \<longrightarrow>
        os_key (os_cwd s) name \<in> os_dirs s \<or> os_files s (os_key (os_cwd s) name) = None)) s"
  unfolding os_ReadFile_def
  by (rule wp_call) (auto simp: wp_def Let_def quiet_def only_changes_def same_store_def split: option.split)

lemma Stat_spec:
  "wp (os_Stat_IsDir name)
     (\<lambda>d s'. quiet s s' \<and> d = (os_key (os_cwd s) name \<in> os_dirs s) \<and>
        (d \<or> os_files s (os_key (os_cwd s) name) \<noteq> None))
     (\<lambda>e s'. quiet s s' \<and> (os_faults s = [] \<longrightarrow>
        os_key (os_cwd s) name \<notin> os_dirs s \<and> os_files s (os_key (os_cwd s) name) = None)) s"
  unfolding os_Stat_IsDir_def
  by (rule wp_call) (auto simp: wp_def Let_def quiet_def only_changes_def same_store_def)

lemma Getwd_spec:
  "wp os_Getwd (\<lambda>d s'. quiet s s' \<and> d = os_cwd s) (\<lambda>e s'. quiet s s' \<and> os_faults s \<noteq> []) s"
  unfolding os_Getwd_def
  by (rule wp_call) (auto simp: wp_def quiet_def only_changes_def same_store_def)

lemma flush_spec:
  "wp os_flush (\<lambda>d s'. quiet s s') (\<lambda>e s'. quiet s s' \<and> os_faults s \<noteq> []) s"
  unfolding os_flush_def
  by (rule wp_call) (auto simp: wp_def quiet_def only_changes_def same_store_def)

lemma Create_spec:
  "wp (os_Create name)
     (\<lambda>d s'. same_store s s' \<and> os_files s' = (os_files s)(os_key (os_cwd s) name \<mapsto> []))
     (\<lambda>e s'. only_changes {} s s' \<and> (os_faults s = [] \<longrightarrow> os_key (os_cwd s) name \<in> os_dirs s)) s"
  unfolding os_Create_def
  by (rule wp_call) (auto simp: wp_def Let_def only_changes_def same_store_def)

lemma Write_spec:
  "wp (os_Write name bytes)
     (\<lambda>d s'. same_store s s' \<and> os_files s' = (os_files s)(os_key (os_cwd s) name :=
        map_option (\<lambda>d. d @ bytes) (os_files s (os_key (os_cwd s) name))))
     (\<lambda>e s'. only_changes {} s s' \<and> os_faults s \<noteq> []) s"
  unfolding os_Write_def
  by (rule wp_call) (auto simp: wp_def Let_def only_changes_def same_store_def)

lemma Rename_spec:
  "wp (os_Rename old new)
     (\<lambda>u s'. same_store s s' \<and> (\<exists>d. os_files s (os_key (os_cwd s) old) = Some d \<and>
        os_files s' = (os_files s)(os_key (os_cwd s) old := None, os_key (os_cwd s) new \<mapsto> d)))
     (\<lambda>e s'. only_changes {} s s' \<and> (os_faults s = [] \<longrightarrow>
        os_key (os_cwd s) new \<in> os_dirs s \<or> os_files s (os_key (os_cwd s) old) = None)) s"
  unfolding os_Rename_def
  by (rule wp_call) (auto simp: wp_def Let_def only_changes_def same_store_def split: option.split)

lemma Remove_spec:
  "same_store s (snd (os_Remove name s)) \<and>
   (os_files (snd (os_Remove name s)) = os_files s \<or>
    os_files (snd (os_Remove name s)) = (os_files s)(os_key (os_cwd s) name := None))"
proof -
  have "wp (os_Remove name)
     (\<lambda>u s'. same_store s s' \<and> os_files s' = (os_files s)(os_key (os_cwd s) name := None))
     (\<lambda>e s'. only_changes {} s s') s"
    unfolding os_Remove_def
    by (rule wp_call) (auto simp: wp_def Let_def only_changes_def same_store_def)
  then show ?thesis
    by (auto simp: wp_def dest: only_changes_none split: prod.splits sum.splits)
qed

lemma Remove_none: "os_files s (os_key (os_cwd s) name) = None \<Longrightarrow> os_files (snd (os_Remove name s)) = os_files s"
  using Remove_spec [of s name] by (auto simp: fun_upd_idem)

lemma temp_name_fresh:
  "temp_name cwd files dirs pre rs = Some (name, rs') \<Longrightarrow>
     (\<exists>r \<in> set rs. name = pre @ itoa_nat r) \<and> files (os_key cwd name) = None \<and> os_key cwd name \<notin> dirs"
  by (induction rs) (auto simp: Let_def split: if_splits)

definition temp_available :: "string \<Rightarrow> os_state \<Rightarrow> bool" where
  "temp_available pre s \<longleftrightarrow> temp_name (os_cwd s) (os_files s) (os_dirs s) pre (os_draws s) \<noteq> None"

lemma CreateTemp_spec:
  "wp (os_CreateTemp dir pre)
     (\<lambda>name s'. same_store s s' \<and> (\<exists>r. name = dir @ ''/'' @ pre @ itoa_nat r) \<and>
        os_files s (os_key (os_cwd s) name) = None \<and> os_files s' = (os_files s)(os_key (os_cwd s) name \<mapsto> []))
     (\<lambda>e s'. only_changes {} s s' \<and> (os_faults s = [] \<longrightarrow> \<not> temp_available (dir @ ''/'' @ pre) s)) s"
  unfolding os_CreateTemp_def
proof (rule wp_call)
  fix fs :: "os_error option list"
  assume fs: "os_faults s = [] \<Longrightarrow> fs = []"
  show "wp (\<lambda>s. case temp_name (os_cwd s) (os_files s) (os_dirs s) (dir @ ''/'' @ pre) (os_draws s) of
       None \<Rightarrow> (Inl ErrExist, s\<lparr>os_draws := []\<rparr>)
     | Some (name, rs) \<Rightarrow>
         (Inr name, s\<lparr>os_draws := rs, os_files := (os_files s)(os_key (os_cwd s) name \<mapsto> [])\<rparr>))
     (\<lambda>name s'. same_store s s' \<and> (\<exists>r. name = dir @ ''/'' @ pre @ itoa_nat r) \<and>
        os_files s (os_key (os_cwd s) name) = None \<and> os_files s' = (os_files s)(os_key (os_cwd s) name \<mapsto> []))
     (\<lambda>e s'. only_changes {} s s' \<and> (os_faults s = [] \<longrightarrow> \<not> temp_available (dir @ ''/'' @ pre) s))
     (s\<lparr>os_faults := fs\<rparr>)"
  proof (cases "temp_name (os_cwd s) (os_files s) (os_dirs s) (dir @ ''/'' @ pre) (os_draws s)")
    case None
    then show ?thesis using fs by (simp add: wp_def temp_available_def only_changes_def same_store_def)
  next
    case (Some p)
    obtain name rs where p: "p = (name, rs)" by (cases p)
    show ?thesis
      using temp_name_fresh [OF Some [unfolded p]] Some p fs by (auto simp: wp_def same_store_def)
  qed
qed (simp add: only_changes_def same_store_def)

section \<open>Replacing a file through a temporary one\<close>

text \<open>
  Two components write a file by creating a temporary one, filling it and renaming it to its
  destination, with a deferred removal of the temporary file.  \<open>body\<close> is what happens between the
  creation and the deferred calls: if it succeeds it has moved a temporary file with the wanted content
  to the destination, and if it fails it has touched the temporary file only.
\<close>

locale atomic_file =
  fixes dir :: string and pre :: string and dest :: string
    and body :: "string \<Rightarrow> (os_error, unit) os" and cleanup :: "string \<Rightarrow> (os_error, unit) os"
    and content :: string and complete :: bool
  assumes body_spec: "os_files s (os_key (os_cwd s) tmp) = Some [] \<Longrightarrow>
      wp (body tmp)
        (\<lambda>u s'. complete \<and> same_store s s' \<and>
           os_files s' = (os_files s)(os_key (os_cwd s) tmp := None, os_key (os_cwd s) dest \<mapsto> content))
        (\<lambda>e s'. only_changes {os_key (os_cwd s) tmp} s s' \<and>
           (os_faults s = [] \<longrightarrow> \<not> complete \<or> os_key (os_cwd s) dest \<in> os_dirs s)) s"
    and cleanup_only: "only_changes {os_key (os_cwd s) tmp} s (snd (cleanup tmp s))"
    and cleanup_gone: "os_files s (os_key (os_cwd s) tmp) = None \<Longrightarrow> os_files (snd (cleanup tmp s)) = os_files s"
begin

lemma replace_spec:
  assumes fresh: "\<And>r. os_key (os_cwd s) dest \<noteq> os_key (os_cwd s) (dir @ ''/'' @ pre @ itoa_nat r)"
  shows "wp (os_bind (os_CreateTemp dir pre) (\<lambda>tmp. os_defer (body tmp) (cleanup tmp)))
    (\<lambda>u s'. complete \<and> same_store s s' \<and> os_files s' = (os_files s)(os_key (os_cwd s) dest \<mapsto> content))
    (\<lambda>e s'. (\<exists>r. only_changes {os_key (os_cwd s) (dir @ ''/'' @ pre @ itoa_nat r)} s s') \<and>
       (\<forall>k. os_files s k \<noteq> None \<longrightarrow> os_files s' k = os_files s k) \<and>
       (os_faults s = [] \<longrightarrow> \<not> complete \<or> os_key (os_cwd s) dest \<in> os_dirs s \<or>
          \<not> temp_available (dir @ ''/'' @ pre) s)) s"
proof (rule wp_bindI [OF CreateTemp_spec], goal_cases)
  case (1 tmp s1)
  define t where "t = os_key (os_cwd s) tmp"
  obtain r where r: "tmp = dir @ ''/'' @ pre @ itoa_nat r" using 1 by blast
  have s1: "same_store s s1" "os_files s t = None" "os_files s1 = (os_files s)(t \<mapsto> [])" "os_cwd s1 = os_cwd s"
    using 1 by (simp_all add: t_def same_store_def)
  have ne: "os_key (os_cwd s) dest \<noteq> t" using fresh r by (simp add: t_def)
  have "os_files s1 (os_key (os_cwd s1) tmp) = Some []" using s1 by (simp add: t_def)
  then show ?case
    unfolding wp_defer
  proof (rule wp_conseq [OF body_spec], goal_cases)
    case (1 u s2)
    then have s2: "os_cwd s2 = os_cwd s" "os_files s2 = (os_files s)(os_key (os_cwd s) dest \<mapsto> content)"
      using s1 by (auto simp: same_store_def t_def)
    have "os_files (snd (cleanup tmp s2)) = os_files s2"
      by (rule cleanup_gone) (use s2 s1 ne in \<open>simp add: t_def\<close>)
    moreover have "same_store s (snd (cleanup tmp s2))"
      using 1 s1 cleanup_only [of s2 tmp] by (simp add: only_changes_def same_store_def)
    ultimately show ?case using 1 s2 by simp
  next
    case (2 e s2)
    then have s2: "only_changes {t} s s2" "os_cwd s2 = os_cwd s"
      using s1 by (auto simp: only_changes_def same_store_def t_def)
    then have oc: "only_changes {t} s (snd (cleanup tmp s2))"
      using cleanup_only [of s2 tmp] only_changes_step by (simp add: t_def)
    moreover from oc s1(2) have "\<forall>k. os_files s k \<noteq> None \<longrightarrow> os_files (snd (cleanup tmp s2)) k = os_files s k"
      by (metis only_changes_def singletonD)
    moreover have "os_faults s = [] \<longrightarrow> \<not> complete \<or> os_key (os_cwd s) dest \<in> os_dirs s"
      using 2 s1 by (simp add: same_store_def)
    ultimately show ?case unfolding t_def r by blast
  qed
next
  case (2 e s1)
  then have "only_changes {os_key (os_cwd s) (dir @ ''/'' @ pre @ itoa_nat 0)} s s1" using only_changes_mono by blast
  with 2 show ?case by (auto dest: only_changes_none)
qed

end

lemma flush_snd: "only_changes {} s (snd (os_flush s))"
  using flush_spec [of s] by (auto simp: wp_def quiet_def split: prod.splits sum.splits)

lemma Remove_snd: "only_changes {os_key (os_cwd s) tmp} s (snd (os_Remove tmp s))"
  using Remove_spec [of s tmp] by (auto simp: only_changes_def)

lemma os_defer_defer: "os_defer (os_defer m d) d' = os_defer m (\<lambda>s. d' (snd (d s)))"
  by (simp add: os_defer_def fun_eq_iff split: prod.split)

lemma flush_Rename_spec:
  assumes "os_files s (os_key (os_cwd s) tmp) = Some d"
  shows "wp (os_bind os_flush (\<lambda>_. os_Rename tmp dest))
    (\<lambda>u s'. same_store s s' \<and> os_files s' = (os_files s)(os_key (os_cwd s) tmp := None, os_key (os_cwd s) dest \<mapsto> d))
    (\<lambda>e s'. only_changes {} s s' \<and> (os_faults s = [] \<longrightarrow> os_key (os_cwd s) dest \<in> os_dirs s)) s"
proof (rule wp_bindI [OF flush_spec], goal_cases)
  case (1 u s1)
  have s1: "same_store s s1" "os_files s1 = os_files s" using quiet_files [OF 1] by simp_all
  show ?case
    by (rule wp_conseq [OF Rename_spec]) (use s1 assms in \<open>auto simp: only_changes_def same_store_def\<close>)
next
  case (2 e s1)
  then show ?case using quiet_files by auto
qed

text \<open>A name without a slash denotes an entry of the working directory.\<close>

lemma foldl_clean_Join:
  "normal_comps ws \<Longrightarrow> foldl (clean_comp True) st (split_slash (strings_Join ws ''/'')) = rev ws @ st"
  by (cases "ws = []")
     (simp_all add: split_slash_Join normal_comps_noslash foldl_clean_normal clean_comp_def)

lemma os_key_relative:
  assumes "normal_comps ws" and "name \<noteq> []" and "hd name \<noteq> slash"
  shows "os_key (slash # strings_Join ws ''/'') name =
    slash # strings_Join (rev (foldl (clean_comp True) (rev ws) (split_slash name))) ''/''"
proof -
  have "os_key (slash # strings_Join ws ''/'') name = path_Clean (slash # strings_Join ws ''/'' @ slash # name)"
    using assms(3) by (simp add: os_key_def)
  also have "\<dots> = slash # strings_Join (clean_comps True (split_slash (strings_Join ws ''/'' @ slash # name))) ''/''"
    by (rule Clean_rooted)
  finally show ?thesis
    by (simp add: split_slash_two clean_comps_def foldl_clean_Join assms(1))
qed

lemma normal_comp_hd: "normal_comp c \<Longrightarrow> c \<noteq> [] \<and> hd c \<noteq> slash"
  by (cases c) (auto simp: normal_comp_def)

lemma foldl_clean_one: "normal_comp c \<Longrightarrow> foldl (clean_comp True) st (split_slash c) = c # st"
  by (simp add: split_slash_noslash normal_comp_def clean_comp_def)

lemma os_key_local:
  assumes "normal_comps ws" and "normal_comp name"
  shows "os_key (slash # strings_Join ws ''/'') name = slash # strings_Join (ws @ [name]) ''/''"
  using os_key_relative [OF assms(1)] normal_comp_hd [OF assms(2)] foldl_clean_one [OF assms(2)] by simp

lemma os_key_dot_local:
  assumes "normal_comps ws" and "normal_comp name"
  shows "os_key (slash # strings_Join ws ''/'') (''./'' @ name) = slash # strings_Join (ws @ [name]) ''/''"
proof -
  have "split_slash (''./'' @ name) = ''.'' # split_slash name"
    using split_slash_append [of "''.''" name] by simp
  then show ?thesis
    using os_key_relative [OF assms(1), of "''./'' @ name"] foldl_clean_one [OF assms(2)]
    by (simp add: clean_comp_def)
qed

lemma os_key_local_inj:
  assumes "normal_comps ws" and "normal_comp a" and "normal_comp b"
  shows "os_key (slash # strings_Join ws ''/'') a = os_key (slash # strings_Join ws ''/'') b \<longleftrightarrow> a = b"
proof
  assume "os_key (slash # strings_Join ws ''/'') a = os_key (slash # strings_Join ws ''/'') b"
  then have "strings_Join (ws @ [a]) ''/'' = strings_Join (ws @ [b]) ''/''"
    by (simp only: os_key_local assms list.inject)
  then have "ws @ [a] = ws @ [b]" by (rule Join_inj [rotated 2]) (simp_all add: assms)
  then show "a = b" by simp
qed simp

end
