(* ===== verification/Go_Json.thy ===== *)
theory Go_Json
  imports MR_Task
begin

text \<open>
  The part of \<^verbatim>\<open>encoding/json\<close> the workers use: \<^verbatim>\<open>Encoder.Encode\<close> of a \<^verbatim>\<open>KeyValue\<close>, one object a
  line, and \<^verbatim>\<open>Decoder.Decode\<close> of a stream of such lines.  Strings are byte strings.  The encoder
  escapes what Go escapes (quote, backslash, control characters, the HTML characters, U+2028 and U+2029)
  and writes U+FFFD for a byte that is not part of a valid UTF-8 sequence; the decoder undoes the
  escapes, surrogate pairs included.  The decoder is that of objects in the layout the encoder writes;
  it reports an error for any other.
\<close>

section \<open>UTF-8\<close>

abbreviation byte :: "char \<Rightarrow> nat" where
  "byte \<equiv> of_char"

definition cont :: "char \<Rightarrow> bool" where
  "cont c \<longleftrightarrow> 128 \<le> byte c \<and> byte c \<le> 191"

text \<open>The length of the UTF-8 sequence at the head, 0 if it is not valid (\<^verbatim>\<open>utf8.DecodeRune\<close>).\<close>

fun utf8_len :: "string \<Rightarrow> nat" where
  "utf8_len [] = 0"
| "utf8_len (a # s) =
     (if byte a < 128 then 1
      else if 194 \<le> byte a \<and> byte a \<le> 223 then
        (case s of b # _ \<Rightarrow> if cont b then 2 else 0 | [] \<Rightarrow> 0)
      else if 224 \<le> byte a \<and> byte a \<le> 239 then
        (case s of
           b # c # _ \<Rightarrow>
             if cont b \<and> cont c \<and> (byte a = 224 \<longrightarrow> 160 \<le> byte b) \<and> (byte a = 237 \<longrightarrow> byte b \<le> 159) then 3 else 0
         | _ \<Rightarrow> 0)
      else if 240 \<le> byte a \<and> byte a \<le> 244 then
        (case s of
           b # c # d # _ \<Rightarrow>
             if cont b \<and> cont c \<and> cont d \<and> (byte a = 240 \<longrightarrow> 144 \<le> byte b) \<and> (byte a = 244 \<longrightarrow> byte b \<le> 143) then 4 else 0
         | _ \<Rightarrow> 0)
      else 0)"

lemma utf8_len_le: "utf8_len s \<le> length s"
  by (cases s rule: utf8_len.cases) (auto split: list.splits)

lemma utf8_len_take: "utf8_len s \<noteq> 0 \<Longrightarrow> utf8_len (take (utf8_len s) s @ t) = utf8_len s"
  by (cases s rule: utf8_len.cases) (auto split: list.splits if_splits)

function utf8_valid :: "string \<Rightarrow> bool" where
  "utf8_valid s = (if s = [] then True else if utf8_len s = 0 then False else utf8_valid (drop (utf8_len s) s))"
  by pat_completeness auto
termination
  by (relation "measure length") auto

declare utf8_valid.simps [simp del]

definition utf8_encode :: "nat \<Rightarrow> string" where
  "utf8_encode r =
     (if r < 128 then [char_of r]
      else if r < 2048 then [char_of (192 + r div 64), char_of (128 + r mod 64)]
      else if r < 65536 then [char_of (224 + r div 4096), char_of (128 + r div 64 mod 64), char_of (128 + r mod 64)]
      else [char_of (240 + r div 262144), char_of (128 + r div 4096 mod 64), char_of (128 + r div 64 mod 64),
            char_of (128 + r mod 64)])"

section \<open>The encoder\<close>

abbreviation quote :: char where "quote \<equiv> CHR 0x22"
abbreviation backslash :: char where "backslash \<equiv> CHR 0x5C"
abbreviation newline :: char where "newline \<equiv> CHR 0x0A"

definition hex_digit :: "nat \<Rightarrow> char" where
  "hex_digit d = (if d < 10 then char_of (48 + d) else char_of (87 + d))"

definition escape_ascii :: "char \<Rightarrow> string" where
  "escape_ascii c =
     (if c = quote \<or> c = backslash then [backslash, c]
      else if byte c = 8 then [backslash, CHR ''b'']
      else if byte c = 12 then [backslash, CHR ''f'']
      else if byte c = 10 then [backslash, CHR ''n'']
      else if byte c = 13 then [backslash, CHR ''r'']
      else if byte c = 9 then [backslash, CHR ''t'']
      else if byte c < 32 \<or> c = CHR ''<'' \<or> c = CHR ''>'' \<or> c = CHR ''&'' then
        [backslash, CHR ''u'', CHR ''0'', CHR ''0'', hex_digit (byte c div 16), hex_digit (byte c mod 16)]
      else [c])"

function json_escape :: "string \<Rightarrow> string" where
  "json_escape [] = []"
| "json_escape (c # s) =
     (if byte c < 128 then escape_ascii c @ json_escape s
      else if utf8_len (c # s) = 0 then backslash # ''ufffd'' @ json_escape s
      else if take (utf8_len (c # s)) (c # s) = [CHR 0xE2, CHR 0x80, CHR 0xA8] then
        backslash # ''u2028'' @ json_escape (drop (utf8_len (c # s)) (c # s))
      else if take (utf8_len (c # s)) (c # s) = [CHR 0xE2, CHR 0x80, CHR 0xA9] then
        backslash # ''u2029'' @ json_escape (drop (utf8_len (c # s)) (c # s))
      else take (utf8_len (c # s)) (c # s) @ json_escape (drop (utf8_len (c # s)) (c # s)))"
  by pat_completeness auto
termination
  by (relation "measure length") auto

declare json_escape.simps(2) [simp del]

definition json_string :: "string \<Rightarrow> string" where
  "json_string s = quote # json_escape s @ [quote]"

definition json_key_prefix :: string where
  "json_key_prefix = CHR ''{'' # quote # ''Key'' @ [quote, CHR '':'']"

definition json_value_prefix :: string where
  "json_value_prefix = CHR '','' # quote # ''Value'' @ [quote, CHR '':'']"

definition json_Encode :: "KeyValue \<Rightarrow> string" where
  "json_Encode kv =
     json_key_prefix @ json_string (Key kv) @ json_value_prefix @ json_string (Value kv) @ [CHR ''}'', newline]"

section \<open>The decoder\<close>

definition hex_value :: "char \<Rightarrow> nat option" where
  "hex_value c =
     (if 48 \<le> byte c \<and> byte c \<le> 57 then Some (byte c - 48)
      else if 97 \<le> byte c \<and> byte c \<le> 102 then Some (byte c - 87)
      else if 65 \<le> byte c \<and> byte c \<le> 70 then Some (byte c - 55)
      else None)"

fun getu4 :: "string \<Rightarrow> (nat \<times> string) option" where
  "getu4 (a # b # c # d # s) =
     (case (hex_value a, hex_value b, hex_value c, hex_value d) of
        (Some w, Some x, Some y, Some z) \<Rightarrow> Some (((w * 16 + x) * 16 + y) * 16 + z, s)
      | _ \<Rightarrow> None)"
| "getu4 _ = None"

text \<open>After \<^verbatim>\<open>\u\<close>: four digits, and for a surrogate the second half if one follows; the replacement
  character for a lone surrogate.\<close>

definition unicode_escape :: "string \<Rightarrow> (string \<times> string) option" where
  "unicode_escape s =
     (case getu4 s of
        None \<Rightarrow> None
      | Some (r, s') \<Rightarrow>
          if 55296 \<le> r \<and> r < 57344 then
            (case s' of
               x # y # t \<Rightarrow>
                 if x = backslash \<and> y = CHR ''u'' then
                   (case getu4 t of
                      Some (r', t') \<Rightarrow>
                        if r < 56320 \<and> 56320 \<le> r' \<and> r' < 57344
                        then Some (utf8_encode (65536 + (r - 55296) * 1024 + (r' - 56320)), t')
                        else Some (utf8_encode 65533, s')
                    | None \<Rightarrow> Some (utf8_encode 65533, s'))
                 else Some (utf8_encode 65533, s')
             | _ \<Rightarrow> Some (utf8_encode 65533, s'))
          else Some (utf8_encode r, s'))"

definition simple_escape :: "char \<Rightarrow> char option" where
  "simple_escape c =
     (if c = quote \<or> c = backslash \<or> c = CHR ''/'' then Some c
      else if c = CHR ''b'' then Some (CHR 0x08)
      else if c = CHR ''f'' then Some (CHR 0x0C)
      else if c = CHR ''n'' then Some (CHR 0x0A)
      else if c = CHR ''r'' then Some (CHR 0x0D)
      else if c = CHR ''t'' then Some (CHR 0x09)
      else None)"

lemma getu4_shorter: "getu4 s = Some (r, t) \<Longrightarrow> length t < length s"
  by (cases s rule: getu4.cases) (auto split: option.splits)

lemma unicode_escape_shorter: "unicode_escape s = Some (x, t) \<Longrightarrow> length t < length s"
  by (auto simp: unicode_escape_def dest!: getu4_shorter split: option.splits if_splits list.splits)

text \<open>The rest of a string literal: its value and what follows the closing quote.\<close>

function json_unquote :: "string \<Rightarrow> (string \<times> string) option" where
  "json_unquote [] = None"
| "json_unquote (c # s) =
     (if c = quote then Some ([], s)
      else if c = backslash then
        (case s of
           [] \<Rightarrow> None
         | e # t \<Rightarrow>
             if e = CHR ''u'' then
               (case unicode_escape t of
                  None \<Rightarrow> None
                | Some (x, t') \<Rightarrow> map_option (\<lambda>(v, r). (x @ v, r)) (json_unquote t'))
             else
               (case simple_escape e of
                  None \<Rightarrow> None
                | Some x \<Rightarrow> map_option (\<lambda>(v, r). (x # v, r)) (json_unquote t)))
      else if byte c < 32 then None
      else if utf8_len (c # s) = 0 then map_option (\<lambda>(v, r). (utf8_encode 65533 @ v, r)) (json_unquote s)
      else map_option (\<lambda>(v, r). (take (utf8_len (c # s)) (c # s) @ v, r)) (json_unquote (drop (utf8_len (c # s)) (c # s))))"
  by pat_completeness auto
termination
  by (relation "measure length") (auto dest: unicode_escape_shorter)

declare json_unquote.simps(2) [simp del]

definition expect :: "string \<Rightarrow> string \<Rightarrow> string option" where
  "expect p s = (if prefix p s then Some (drop (length p) s) else None)"

definition json_Decode :: "string \<Rightarrow> (KeyValue \<times> string) option" where
  "json_Decode s =
     (case expect (json_key_prefix @ [quote]) s of
        None \<Rightarrow> None
      | Some s1 \<Rightarrow>
          (case json_unquote s1 of
             None \<Rightarrow> None
           | Some (k, s2) \<Rightarrow>
               (case expect (json_value_prefix @ [quote]) s2 of
                  None \<Rightarrow> None
                | Some s3 \<Rightarrow>
                    (case json_unquote s3 of
                       None \<Rightarrow> None
                     | Some (v, s4) \<Rightarrow>
                         map_option (\<lambda>r. (\<lparr>Key = k, Value = v\<rparr>, r)) (expect [CHR ''}'', newline] s4)))))"

lemma json_unquote_shorter: "json_unquote s = Some (v, r) \<Longrightarrow> length r < length s"
proof (induction s arbitrary: v rule: json_unquote.induct)
  case (2 c s)
  note eq = 2(5) [unfolded json_unquote.simps(2)]
  consider "c = quote" | "c = backslash" | "c \<noteq> quote" "c \<noteq> backslash" by blast
  then show ?case
  proof cases
    case 1
    then show ?thesis using eq by simp
  next
    case c: 2
    then obtain e t where s: "s = e # t" using eq by (cases s) auto
    show ?thesis
    proof (cases "e = CHR ''u''")
      case True
      then obtain x t' v' where "unicode_escape t = Some (x, t')" "json_unquote t' = Some (v', r)"
        using eq c s by (auto split: option.splits)
      then show ?thesis using 2(1) [OF _ c s True, of "(x, t')" x t'] c s unicode_escape_shorter by fastforce
    next
      case False
      then obtain x v' where "simple_escape e = Some x" "json_unquote t = Some (v', r)"
        using eq c s by (auto split: option.splits)
      then show ?thesis using 2(2) [OF _ c s False] c s by fastforce
    qed
  next
    case 3
    show ?thesis
    proof (cases "utf8_len (c # s) = 0")
      case True
      then show ?thesis using eq 3 2(3) by (fastforce split: if_splits)
    next
      case False
      then obtain v' where "json_unquote (drop (utf8_len (c # s)) (c # s)) = Some (v', r)" "\<not> byte c < 32"
        using eq 3 by (auto split: if_splits)
      then have "length r < length (drop (utf8_len (c # s)) (c # s))" using 2(4) 3 False by blast
      then show ?thesis by (metis length_drop diff_le_self order.strict_trans2)
    qed
  qed
qed simp

lemma expect_shorter: "expect p s = Some t \<Longrightarrow> p \<noteq> [] \<Longrightarrow> length t < length s"
  by (auto simp: expect_def prefix_def split: if_splits)

lemma json_Decode_shorter: "json_Decode s = Some (kv, t) \<Longrightarrow> length t < length s"
  by (auto simp: json_Decode_def json_key_prefix_def json_value_prefix_def dest!: expect_shorter json_unquote_shorter
      split: option.splits)

text \<open>The loop of \<^verbatim>\<open>readBucketFile\<close>: decode until the end of the input.\<close>

function json_DecodeAll :: "string \<Rightarrow> KeyValue list option" where
  "json_DecodeAll s =
     (if s = [] then Some []
      else (case json_Decode s of
              None \<Rightarrow> None
            | Some (kv, t) \<Rightarrow> map_option (\<lambda>kvs. kv # kvs) (json_DecodeAll t)))"
  by pat_completeness auto
termination
  by (relation "measure length") (auto dest: json_Decode_shorter)

declare json_DecodeAll.simps [simp del]

section \<open>Round trip\<close>

lemma char_of_consts:
  "char_of (226::nat) = CHR 0xE2" "char_of (128::nat) = CHR 0x80" "char_of (168::nat) = CHR 0xA8"
  "char_of (169::nat) = CHR 0xA9" "char_of (8::nat) = CHR 0x08" "char_of (12::nat) = CHR 0x0C"
  "char_of (10::nat) = CHR 0x0A" "char_of (13::nat) = CHR 0x0D" "char_of (9::nat) = CHR 0x09"
  by code_simp+

lemma hex_value_digit: "d < 16 \<Longrightarrow> hex_value (hex_digit d) = Some d"
  by (auto simp: hex_value_def hex_digit_def)

lemma byte_quote_etc: "byte c < 128 \<Longrightarrow> c \<noteq> quote \<Longrightarrow> c \<noteq> backslash \<Longrightarrow> \<not> byte c < 32 \<Longrightarrow>
    json_unquote (c # t) = map_option (\<lambda>(v, r). (c # v, r)) (json_unquote t)"
  by (subst json_unquote.simps) simp

lemma unquote_ascii:
  assumes "byte c < 128"
  shows "json_unquote (escape_ascii c @ t) = map_option (\<lambda>(v, r). (c # v, r)) (json_unquote t)"
proof -
  have hex: "json_unquote ([backslash, CHR ''u'', CHR ''0'', CHR ''0'', hex_digit (byte c div 16), hex_digit (byte c mod 16)] @ t) =
      map_option (\<lambda>(v, r). (c # v, r)) (json_unquote t)"
  proof -
    have "hex_value (CHR ''0'') = Some 0" by (simp add: hex_value_def)
    moreover have "byte c div 16 < 16" using assms by simp
    ultimately have "getu4 ([CHR ''0'', CHR ''0'', hex_digit (byte c div 16), hex_digit (byte c mod 16)] @ t) = Some (byte c, t)"
      using hex_value_digit [of "byte c div 16"] hex_value_digit [of "byte c mod 16"] by simp
    then have "unicode_escape ([CHR ''0'', CHR ''0'', hex_digit (byte c div 16), hex_digit (byte c mod 16)] @ t) = Some ([c], t)"
      using assms by (simp add: unicode_escape_def utf8_encode_def)
    then show ?thesis by (simp add: json_unquote.simps(2))
  qed
  have ctl: "c = char_of n" if "byte c = n" for n :: nat
    using that by (metis char_of_char)
  have simple: "json_unquote (backslash # e # t) = map_option (\<lambda>(v, r). (x # v, r)) (json_unquote t)"
    if "simple_escape e = Some x" "e \<noteq> CHR ''u''" for e x
    using that by (simp add: json_unquote.simps(2))
  show ?thesis
    unfolding escape_ascii_def
    using hex simple byte_quote_etc [OF assms] ctl [of 8] ctl [of 12] ctl [of 10] ctl [of 13] ctl [of 9]
    by (auto simp: simple_escape_def char_of_consts)
qed

lemma unquote_rune:
  assumes "utf8_len s \<noteq> 0" and "\<not> byte (hd s) < 128" and "s \<noteq> []"
  shows "json_unquote (take (utf8_len s) s @ t) = map_option (\<lambda>(v, r). (take (utf8_len s) s @ v, r)) (json_unquote t)"
proof -
  obtain c u where s: "s = c # u" using assms(3) by (cases s) auto
  define x where "x = take (utf8_len s) s"
  obtain y where x: "x = c # y" using assms(1) s by (cases "utf8_len s") (auto simp: x_def)
  have len: "utf8_len (x @ t) = length x"
    using utf8_len_take [OF assms(1), of t] utf8_len_le [of s] by (simp add: x_def)
  have "\<not> byte c < 128" using assms(2) s by simp
  then have "c \<noteq> quote" "c \<noteq> backslash" "\<not> byte c < 32" by auto
  then have "json_unquote (x @ t) = map_option (\<lambda>(v, r). (x @ v, r)) (json_unquote t)"
    using len assms(1) by (simp add: x json_unquote.simps(2))
  then show ?thesis by (simp add: x_def)
qed

lemma unquote_escape:
  "utf8_valid s \<Longrightarrow> json_unquote (json_escape s @ quote # t) = Some (s, t)"
proof (induction s rule: json_escape.induct)
  case 1
  show ?case by (simp add: json_unquote.simps(2))
next
  case (2 c s)
  have valid: "utf8_len (c # s) \<noteq> 0" "utf8_valid (drop (utf8_len (c # s)) (c # s))"
    using "2.prems" by (subst (asm) utf8_valid.simps, simp split: if_splits)+
  show ?case
  proof (cases "byte c < 128")
    case True
    then have "utf8_len (c # s) = 1" by simp
    with valid have "utf8_valid s" by simp
    then show ?thesis
      using 2(1) True unquote_ascii [OF True] by (simp add: json_escape.simps(2))
  next
    case False
    let ?r = "take (utf8_len (c # s)) (c # s)" and ?d = "drop (utf8_len (c # s)) (c # s)"
    have IH: "json_unquote (json_escape ?d @ quote # t) = Some (?d, t)"
      using 2(3-5) valid False by metis
    have app: "?r @ ?d = c # s" by (rule append_take_drop_id)
    consider "?r = [CHR 0xE2, CHR 0x80, CHR 0xA8]" | "?r = [CHR 0xE2, CHR 0x80, CHR 0xA9]"
      | "?r \<noteq> [CHR 0xE2, CHR 0x80, CHR 0xA8]" "?r \<noteq> [CHR 0xE2, CHR 0x80, CHR 0xA9]" by blast
    then show ?thesis
    proof cases
      case 1
      have "unicode_escape (''2028'' @ u) = Some ([CHR 0xE2, CHR 0x80, CHR 0xA8], u)" for u
        by (simp add: unicode_escape_def hex_value_def utf8_encode_def char_of_consts)
      then show ?thesis
        using valid False 1 IH app by (simp add: json_escape.simps(2) json_unquote.simps(2))
    next
      case 2
      have "unicode_escape (''2029'' @ u) = Some ([CHR 0xE2, CHR 0x80, CHR 0xA9], u)" for u
        by (simp add: unicode_escape_def hex_value_def utf8_encode_def char_of_consts)
      then show ?thesis
        using valid False 2 IH app by (simp add: json_escape.simps(2) json_unquote.simps(2))
    next
      case 3
      have "json_escape (c # s) = ?r @ json_escape ?d"
        using valid False 3 by (simp add: json_escape.simps(2))
      then have "json_unquote (json_escape (c # s) @ quote # t) =
          map_option (\<lambda>(v, r). (?r @ v, r)) (json_unquote (json_escape ?d @ quote # t))"
        using unquote_rune [OF valid(1)] False by simp
      then show ?thesis using IH app by simp
    qed
  qed
qed

definition kv_valid :: "KeyValue \<Rightarrow> bool" where
  "kv_valid kv \<longleftrightarrow> utf8_valid (Key kv) \<and> utf8_valid (Value kv)"

lemma expect_append [simp]: "expect p (p @ t) = Some t"
  by (simp add: expect_def)

lemma Decode_Encode:
  assumes "kv_valid kv"
  shows "json_Decode (json_Encode kv @ t) = Some (kv, t)"
proof -
  let ?s4 = "[CHR ''}'', newline] @ t"
  let ?s3 = "json_escape (Value kv) @ quote # ?s4"
  let ?s2 = "(json_value_prefix @ [quote]) @ ?s3"
  let ?s1 = "json_escape (Key kv) @ quote # ?s2"
  have "json_Encode kv @ t = (json_key_prefix @ [quote]) @ ?s1"
    by (simp add: json_Encode_def json_string_def)
  moreover have "json_unquote ?s1 = Some (Key kv, ?s2)" "json_unquote ?s3 = Some (Value kv, ?s4)"
    using assms unquote_escape by (simp_all add: kv_valid_def)
  ultimately show ?thesis
    unfolding json_Decode_def by (simp only: expect_append option.case prod.case option.map) simp
qed

lemma Encode_nonempty: "json_Encode kv \<noteq> []"
  by (simp add: json_Encode_def json_key_prefix_def)

lemma json_DecodeAll_Encode:
  assumes "\<forall>kv \<in> set kvs. kv_valid kv"
  shows "json_DecodeAll (concat (map json_Encode kvs)) = Some kvs"
  using assms
proof (induction kvs)
  case Nil
  show ?case by (simp add: json_DecodeAll.simps)
next
  case (Cons kv kvs)
  then show ?case
    using Decode_Encode [of kv "concat (map json_Encode kvs)"] Encode_nonempty [of kv]
    by (subst json_DecodeAll.simps) simp
qed

text \<open>Validity is needed: a byte that is not UTF-8 comes back as U+FFFD, so two such keys become one.\<close>

lemma json_lossy:
  "json_Decode (json_Encode \<lparr>Key = [CHR 0xFF], Value = []\<rparr>) =
     Some (\<lparr>Key = [CHR 0xEF, CHR 0xBF, CHR 0xBD], Value = []\<rparr>, [])"
proof -
  have "json_escape [CHR 0xFF] = backslash # ''ufffd''" by (simp add: json_escape.simps(2))
  moreover have "char_of (239::nat) = CHR 0xEF" "char_of (191::nat) = CHR 0xBF" "char_of (189::nat) = CHR 0xBD"
    by code_simp+
  then have "utf8_encode 65533 = [CHR 0xEF, CHR 0xBF, CHR 0xBD]" by (simp add: utf8_encode_def)
  then have "json_unquote (backslash # ''ufffd'' @ quote # t) = Some ([CHR 0xEF, CHR 0xBF, CHR 0xBD], t)" for t
    by (simp add: json_unquote.simps(2) unicode_escape_def hex_value_def)
  ultimately show ?thesis
    by (simp add: json_Decode_def json_Encode_def json_string_def json_key_prefix_def json_value_prefix_def
        expect_def json_unquote.simps(2))
qed

end
