(* ===== verification/MR_Worker.thy ===== *)
theory MR_Worker
  imports MR_Task Go_OS Go_Json
begin

text \<open>
  The worker of the MapReduce package (\<^verbatim>\<open>mr/worker.go\<close>, \<^verbatim>\<open>mr/bucket.go\<close>, \<^verbatim>\<open>mr/worker_rpc.go\<close>)
  over the file store of theory \<open>Go_OS\<close> and the encoding of theory \<open>Go_Json\<close>.  The application's
  Map and Reduce functions are arguments.  What the worker sends to the coordinator is returned as the
  list of its calls; what another worker answers to \<^verbatim>\<open>FetchBucket\<close> is an argument of the reduce task.
\<close>

section \<open>Errors, calls, file names\<close>

datatype worker_error =
    WorkerOS os_error
  | WorkerDecode
  | WorkerFetch TaskID
  | WorkerPanic go_panic
  | WorkerBadReply string

datatype worker_call =
    CallReportTaskCompletion ReportTaskCompletionArgs
  | CallReportMissingMapOutputs ReportMissingMapOutputsArgs

definition taskIntermediateFileName :: "TaskID \<Rightarrow> int \<Rightarrow> string" where
  "taskIntermediateFileName taskID bucket = ''mr-'' @ itoa taskID @ ''-'' @ itoa bucket"

definition reduceOutputFileName :: "int \<Rightarrow> string" where
  "reduceOutputFileName bucket = ''mr-out-'' @ itoa bucket"

definition getWorkerListenAddress :: "(string \<rightharpoonup> string) \<Rightarrow> string" where
  "getWorkerListenAddress env =
     (case env ''MR_WORKER_LISTEN_ADDRESS'' of
        Some addr \<Rightarrow> if addr \<noteq> [] then addr else ''127.0.0.1:''
      | None \<Rightarrow> ''127.0.0.1:'')"

definition getWorkerPublicAddress :: "(string \<rightharpoonup> string) \<Rightarrow> string" where
  "getWorkerPublicAddress env =
     (case env ''MR_WORKER_PUBLIC_ADDRESS'' of
        Some addr \<Rightarrow> if addr \<noteq> [] then addr else getWorkerListenAddress env
      | None \<Rightarrow> getWorkerListenAddress env)"

definition getCoordinatorAddress :: "(string \<rightharpoonup> string) \<Rightarrow> string" where
  "getCoordinatorAddress env =
     (case env ''MR_COORDINATOR_ADDRESS'' of
        Some addr \<Rightarrow> if addr \<noteq> [] then addr else ''0.0.0.0:7777''
      | None \<Rightarrow> ''0.0.0.0:7777'')"

section \<open>Map tasks\<close>

text \<open>\<^verbatim>\<open>make\<close> panics for a negative length, and \<^verbatim>\<open>%\<close> for a zero divisor.\<close>

fun bucketLoop :: "KeyValue list \<Rightarrow> int \<Rightarrow> KeyValue list list \<Rightarrow> go_panic + KeyValue list list" where
  "bucketLoop [] nBuckets buckets = Inr buckets"
| "bucketLoop (kv # keyValues) nBuckets buckets =
     (if nBuckets = 0 then Inl DivideByZero
      else let bucket = nat (ihash (Key kv) mod nBuckets)
           in bucketLoop keyValues nBuckets (buckets[bucket := buckets ! bucket @ [kv]]))"

definition bucketContents :: "KeyValue list \<Rightarrow> int \<Rightarrow> go_panic + KeyValue list list" where
  "bucketContents keyValues nBuckets =
     (if nBuckets < 0 then Inl NegativeLen else bucketLoop keyValues nBuckets (replicate (nat nBuckets) []))"

fun encodeAll :: "string \<Rightarrow> KeyValue list \<Rightarrow> (os_error, unit) os" where
  "encodeAll tmp [] = os_return ()"
| "encodeAll tmp (kv # keyValues) = os_bind (os_Write tmp (json_Encode kv)) (\<lambda>_. encodeAll tmp keyValues)"

text \<open>On an encoding error the temporary file is closed before the error is returned; the deferred
  \<^verbatim>\<open>os.Remove\<close> runs on every way out.\<close>

definition writeBucketToFile :: "TaskID \<Rightarrow> int \<Rightarrow> KeyValue list \<Rightarrow> (os_error, unit) os" where
  "writeBucketToFile taskID bucket keyValues =
     (let filename = taskIntermediateFileName taskID bucket in
      os_bind (os_CreateTemp (filepath_Dir filename) ''mr-bucket-'') (\<lambda>tmp.
        os_defer
          (\<lambda>s. case encodeAll tmp keyValues s of
                 (Inl e, s') \<Rightarrow> (Inl e, snd (os_flush s'))
               | (Inr _, s') \<Rightarrow> os_bind os_flush (\<lambda>_. os_Rename tmp filename) s')
          (os_Remove tmp)))"

fun writeBucketsLoop :: "TaskID \<Rightarrow> int \<Rightarrow> KeyValue list list \<Rightarrow> (os_error, unit) os" where
  "writeBucketsLoop taskID bucket [] = os_return ()"
| "writeBucketsLoop taskID bucket (keyValues # buckets) =
     os_bind (writeBucketToFile taskID bucket keyValues) (\<lambda>_. writeBucketsLoop taskID (bucket + 1) buckets)"

definition writeBucketsToFiles :: "TaskID \<Rightarrow> KeyValue list list \<Rightarrow> (os_error, unit) os" where
  "writeBucketsToFiles taskID buckets = writeBucketsLoop taskID 0 buckets"

definition runMapTask ::
  "(string \<Rightarrow> string \<Rightarrow> KeyValue list) \<Rightarrow> Task \<Rightarrow> MapTaskData \<Rightarrow> (worker_error, unit) os" where
  "runMapTask mapf task data =
     (let mappedContents = mapf (MapData_Key data) (MapData_Content data) in
      case bucketContents mappedContents (MapData_Buckets data) of
        Inl p \<Rightarrow> os_fail (WorkerPanic p)
      | Inr buckets \<Rightarrow> os_mapErr WorkerOS (writeBucketsToFiles (Task_ID task) buckets))"

section \<open>Reduce tasks\<close>

definition readBucketFile :: "TaskID \<Rightarrow> int \<Rightarrow> (worker_error, KeyValue list) os" where
  "readBucketFile taskID bucket =
     os_bind (os_mapErr WorkerOS (os_ReadFile (taskIntermediateFileName taskID bucket))) (\<lambda>content.
       case json_DecodeAll content of
         None \<Rightarrow> os_fail WorkerDecode
       | Some keyValues \<Rightarrow> os_return keyValues)"

text \<open>The RPC handler by which another worker reads a bucket of this one.\<close>

definition FetchBucket :: "FetchBucketArgs \<Rightarrow> (worker_error, KeyValue list) os" where
  "FetchBucket args = readBucketFile (Fetch_MapTaskID args) (Fetch_Bucket args)"

text \<open>\<open>call\<close> is what the other worker answers, nothing if the call fails (\<^verbatim>\<open>CallWorker\<close>).\<close>

definition fetchBucketFromWorker ::
  "(string \<Rightarrow> FetchBucketArgs \<Rightarrow> KeyValue list option) \<Rightarrow> string \<Rightarrow> TaskID \<Rightarrow> int \<Rightarrow> (worker_error, KeyValue list) os" where
  "fetchBucketFromWorker call address mapTaskID bucket =
     (case call address \<lparr>Fetch_MapTaskID = mapTaskID, Fetch_Bucket = bucket\<rparr> of
        None \<Rightarrow> os_fail (WorkerFetch mapTaskID)
      | Some keyValues \<Rightarrow> os_return keyValues)"

text \<open>The loop over \<^verbatim>\<open>data.MapTaskOutputs\<close>, in the order \<open>ms\<close>; the error names the map task whose
  output is missing, which the worker reports to the coordinator before it returns.\<close>

fun gatherLoop ::
  "(string \<Rightarrow> FetchBucketArgs \<Rightarrow> KeyValue list option) \<Rightarrow> string \<Rightarrow> ReduceTaskData \<Rightarrow> TaskID list \<Rightarrow>
   KeyValue list \<Rightarrow> (TaskID, KeyValue list) os" where
  "gatherLoop call workerAddress data [] mappedContents = os_return mappedContents"
| "gatherLoop call workerAddress data (mapTaskID # ms) mappedContents =
     (case ReduceData_MapTaskOutputs data mapTaskID of
        None \<Rightarrow> gatherLoop call workerAddress data ms mappedContents
      | Some producerAddress \<Rightarrow>
          os_bind (os_mapErr (\<lambda>_. mapTaskID)
              (if producerAddress = workerAddress then readBucketFile mapTaskID (ReduceData_Bucket data)
               else fetchBucketFromWorker call producerAddress mapTaskID (ReduceData_Bucket data)))
            (\<lambda>bucketContents. gatherLoop call workerAddress data ms (mappedContents @ bucketContents)))"

definition groupByKey :: "KeyValue list \<Rightarrow> string \<rightharpoonup> string list" where
  "groupByKey keyValues =
     foldl (\<lambda>grouped kv. grouped(Key kv \<mapsto>
        (case grouped (Key kv) of None \<Rightarrow> [] | Some vs \<Rightarrow> vs) @ [Value kv])) Map.empty keyValues"

text \<open>\<open>ks\<close> is the order in which the loop over the groups visits the keys; \<^verbatim>\<open>sort.Strings\<close> then
  orders them bytewise.\<close>

definition reduceContents ::
  "string list \<Rightarrow> (string \<rightharpoonup> string list) \<Rightarrow> (string \<Rightarrow> string list \<Rightarrow> string) \<Rightarrow> KeyValue list" where
  "reduceContents ks groupedContents reducef =
     map (\<lambda>key. \<lparr>Key = key, Value = reducef key (case groupedContents key of None \<Rightarrow> [] | Some vs \<Rightarrow> vs)\<rparr>) (sort ks)"

definition output_line :: "KeyValue \<Rightarrow> string" where
  "output_line kv = Key kv @ '' '' @ Value kv @ [newline]"

text \<open>The result of \<^verbatim>\<open>fmt.Fprintf\<close> is not looked at.\<close>

fun printAll :: "string \<Rightarrow> KeyValue list \<Rightarrow> (os_error, unit) os" where
  "printAll filename [] = os_return ()"
| "printAll filename (kv # kvs) = (\<lambda>s. printAll filename kvs (snd (os_Write filename (output_line kv) s)))"

definition writeReducedContentsToBucketFile :: "int \<Rightarrow> KeyValue list \<Rightarrow> (os_error, unit) os" where
  "writeReducedContentsToBucketFile bucket reducedContents =
     (let filename = reduceOutputFileName bucket in
      os_bind (os_Create filename) (\<lambda>_. os_defer (printAll filename reducedContents) os_flush))"

definition runReduceTask ::
  "(string \<Rightarrow> FetchBucketArgs \<Rightarrow> KeyValue list option) \<Rightarrow> string \<Rightarrow> (string \<Rightarrow> string list \<Rightarrow> string) \<Rightarrow>
   TaskID list \<Rightarrow> ((string \<rightharpoonup> string list) \<Rightarrow> string list) \<Rightarrow> ReduceTaskData \<Rightarrow> (worker_error, unit) os" where
  "runReduceTask call workerAddress reducef ms keyOrder data =
     os_bind (os_mapErr WorkerFetch (gatherLoop call workerAddress data ms [])) (\<lambda>mappedContents.
       let groupedContents = groupByKey mappedContents;
           reducedContents = reduceContents (keyOrder groupedContents) groupedContents reducef
       in os_mapErr WorkerOS (writeReducedContentsToBucketFile (ReduceData_Bucket data) reducedContents))"

section \<open>The worker's turn\<close>

text \<open>The calls a task makes to the coordinator: the completion report after a success, the report of
  the missing map output when a bucket could not be had.\<close>

definition executeTask ::
  "(string \<Rightarrow> string \<Rightarrow> KeyValue list) \<Rightarrow> (string \<Rightarrow> string list \<Rightarrow> string) \<Rightarrow>
   (string \<Rightarrow> FetchBucketArgs \<Rightarrow> KeyValue list option) \<Rightarrow> string \<Rightarrow> TaskID list \<Rightarrow>
   ((string \<rightharpoonup> string list) \<Rightarrow> string list) \<Rightarrow> TaskReply \<Rightarrow> os_state \<Rightarrow>
   ((worker_error + unit) \<times> worker_call list) \<times> os_state" where
  "executeTask mapf reducef call workerAddress ms keyOrder reply s =
     (case Reply_Task reply of
        None \<Rightarrow> ((Inl (WorkerBadReply ''missing task''), []), s)
      | Some task \<Rightarrow>
          (case Task_Type task of
             TaskMap \<Rightarrow>
               (case Reply_MapData reply of
                  None \<Rightarrow> ((Inl (WorkerBadReply ''missing data''), []), s)
                | Some data \<Rightarrow>
                    (case runMapTask mapf task data s of
                       (Inl e, s') \<Rightarrow> ((Inl e, []), s')
                     | (Inr _, s') \<Rightarrow>
                         ((Inr (), [CallReportTaskCompletion
                             \<lparr>Report_Task = Some task, Report_WorkerAddress = workerAddress\<rparr>]), s')))
           | TaskReduce \<Rightarrow>
               (case Reply_ReduceData reply of
                  None \<Rightarrow> ((Inl (WorkerBadReply ''missing data''), []), s)
                | Some data \<Rightarrow>
                    (case runReduceTask call workerAddress reducef ms keyOrder data s of
                       (Inl (WorkerFetch m), s') \<Rightarrow>
                         ((Inl (WorkerFetch m), [CallReportMissingMapOutputs \<lparr>Missing_MapTaskID = m\<rparr>]), s')
                     | (Inl e, s') \<Rightarrow> ((Inl e, []), s')
                     | (Inr _, s') \<Rightarrow>
                         ((Inr (), [CallReportTaskCompletion
                             \<lparr>Report_Task = Some task, Report_WorkerAddress = workerAddress\<rparr>]), s')))
           | TaskWait \<Rightarrow> ((Inr (), []), s)
           | TaskNone \<Rightarrow> ((Inl (WorkerBadReply ''unsupported task type''), []), s)))"

section \<open>File names\<close>

text \<open>The key of a file of the worker's directory.\<close>

definition local_key :: "string list \<Rightarrow> string \<Rightarrow> string" where
  "local_key ws name = slash # strings_Join (ws @ [name]) ''/''"

definition worker_cwd :: "string list \<Rightarrow> os_state \<Rightarrow> bool" where
  "worker_cwd ws s \<longleftrightarrow> normal_comps ws \<and> os_cwd s = slash # strings_Join ws ''/''"

definition bucket_temp :: "nat \<Rightarrow> string" where
  "bucket_temp r = ''mr-bucket-'' @ itoa_nat r"

lemma worker_cwd_same: "worker_cwd ws s \<Longrightarrow> same_store s s' \<Longrightarrow> worker_cwd ws s'"
  by (simp add: worker_cwd_def same_store_def)

lemma itoa_noslash [simp]: "slash \<notin> set (itoa i)" "slash \<notin> set (itoa_nat r)"
  by (auto simp: is_digit_def dest: itoa_chars itoa_nat_digits)

lemma names_normal [simp]:
  "normal_comp (taskIntermediateFileName i b)" "normal_comp (reduceOutputFileName b)" "normal_comp (bucket_temp r)"
  by (simp_all add: taskIntermediateFileName_def reduceOutputFileName_def bucket_temp_def normal_comp_def)

lemma itoa_hd: "itoa i \<noteq> [] \<and> (is_digit (hd (itoa i)) \<or> hd (itoa i) = CHR ''-'')"
proof -
  have "itoa i \<noteq> []" by (simp add: itoa_def)
  then show ?thesis using itoa_chars [of "hd (itoa i)" i] hd_in_set by blast
qed

lemma intermediate_name_distinct:
  "taskIntermediateFileName i b \<noteq> reduceOutputFileName c"
  "taskIntermediateFileName i b \<noteq> bucket_temp r" "reduceOutputFileName c \<noteq> bucket_temp r"
proof -
  obtain d t where d: "itoa i = d # t" "is_digit d \<or> d = CHR ''-''" using itoa_hd [of i] by (cases "itoa i") auto
  then have "d \<noteq> CHR ''o''" "d \<noteq> CHR ''b''" by (auto simp: is_digit_def)
  then show "taskIntermediateFileName i b \<noteq> reduceOutputFileName c" "taskIntermediateFileName i b \<noteq> bucket_temp r"
    by (simp_all add: taskIntermediateFileName_def reduceOutputFileName_def bucket_temp_def d)
qed (simp add: reduceOutputFileName_def bucket_temp_def)

lemma intermediate_name_inj:
  assumes "0 \<le> i" and "0 \<le> j"
  shows "taskIntermediateFileName i b = taskIntermediateFileName j c \<longleftrightarrow> i = j \<and> b = c"
proof
  assume "taskIntermediateFileName i b = taskIntermediateFileName j c"
  then have eq: "itoa_nat (nat i) @ CHR ''-'' # itoa b = itoa_nat (nat j) @ CHR ''-'' # itoa c"
    using assms by (simp add: taskIntermediateFileName_def itoa_nonneg)
  have "itoa_nat (nat i) = itoa_nat (nat j) \<and> itoa b = itoa c"
    using eq sep_split [of "CHR ''-''"] by simp
  then show "i = j \<and> b = c" using assms by (simp add: itoa_nat_inj itoa_inj eq_nat_nat_iff)
qed simp

lemma output_name_inj: "reduceOutputFileName b = reduceOutputFileName c \<longleftrightarrow> b = c"
  by (simp add: reduceOutputFileName_def itoa_inj)

lemma local_key_inj:
  "normal_comps ws \<Longrightarrow> normal_comp a \<Longrightarrow> normal_comp b \<Longrightarrow> local_key ws a = local_key ws b \<longleftrightarrow> a = b"
  using os_key_local_inj os_key_local by (simp add: local_key_def)

lemma worker_key: "worker_cwd ws s \<Longrightarrow> normal_comp name \<Longrightarrow> os_key (os_cwd s) name = local_key ws name"
  by (simp add: worker_cwd_def local_key_def os_key_local)

lemma Dir_local: "slash \<notin> set name \<Longrightarrow> filepath_Dir name = ''.''"
  by (simp add: filepath_Dir_def LastIndexByte_def path_Clean_def)

lemma bucket_temp_key:
  assumes "worker_cwd ws s"
  shows "os_key (os_cwd s) (''.'' @ ''/'' @ ''mr-bucket-'' @ itoa_nat r) = local_key ws (bucket_temp r)"
proof -
  have "''.'' @ ''/'' @ ''mr-bucket-'' @ itoa_nat r = ''./'' @ bucket_temp r" by (simp add: bucket_temp_def)
  then show ?thesis
    using os_key_dot_local [of ws "bucket_temp r"] assms names_normal(3) [of r]
    unfolding worker_cwd_def local_key_def by metis
qed

section \<open>Buckets\<close>

definition bucket_of :: "int \<Rightarrow> KeyValue list \<Rightarrow> int \<Rightarrow> KeyValue list" where
  "bucket_of n kvs b = filter (\<lambda>kv. ihash (Key kv) mod n = b) kvs"

lemma bucketLoop_spec:
  assumes "0 < n" and "length bs = nat n"
  shows "\<exists>bs'. bucketLoop kvs n bs = Inr bs' \<and> length bs' = nat n \<and>
    (\<forall>i < nat n. bs' ! i = bs ! i @ bucket_of n kvs (int i))"
  using assms(2)
proof (induction kvs arbitrary: bs)
  case Nil
  then show ?case by (simp add: bucket_of_def)
next
  case (Cons kv kvs)
  define b where "b = nat (ihash (Key kv) mod n)"
  have b: "b < nat n" "int b = ihash (Key kv) mod n"
    using ihash_bucket [OF assms(1), of "Key kv"] assms(1) by (simp_all add: b_def)
  obtain bs' where bs': "bucketLoop kvs n (bs[b := bs ! b @ [kv]]) = Inr bs'" "length bs' = nat n"
    "\<forall>i < nat n. bs' ! i = bs[b := bs ! b @ [kv]] ! i @ bucket_of n kvs (int i)"
    using Cons.IH [of "bs[b := bs ! b @ [kv]]"] Cons.prems by (auto simp del: bucketLoop.simps)
  have one: "bucket_of n (kv # kvs) (int i) = (if i = b then [kv] else []) @ bucket_of n kvs (int i)" for i
    unfolding bucket_of_def using b(2) [symmetric] by simp
  have "bs' ! i = bs ! i @ bucket_of n (kv # kvs) (int i)" if "i < nat n" for i
    using bs'(3) that b(1) Cons.prems unfolding one by (cases "i = b") simp_all
  moreover have "bucketLoop (kv # kvs) n bs = Inr bs'"
    using bs'(1) assms(1) by (simp add: Let_def b_def [symmetric])
  ultimately show ?case using bs'(2) by blast
qed

lemma bucketContents_eq:
  assumes "0 < nBuckets"
  shows "bucketContents keyValues nBuckets = Inr (map (bucket_of nBuckets keyValues) [0..nBuckets - 1])"
proof -
  obtain bs where bs: "bucketLoop keyValues nBuckets (replicate (nat nBuckets) []) = Inr bs" "length bs = nat nBuckets"
    "\<forall>i < nat nBuckets. bs ! i = bucket_of nBuckets keyValues (int i)"
    using bucketLoop_spec [OF assms, of "replicate (nat nBuckets) []" keyValues] by auto
  have "bs = map (bucket_of nBuckets keyValues) [0..nBuckets - 1]"
    by (rule nth_equalityI) (use bs assms in \<open>auto simp: nth_upto\<close>)
  then show ?thesis using bs assms by (simp add: bucketContents_def)
qed

text \<open>C25: \<^verbatim>\<open>bucketContents\<close> splits the pairs over the buckets by the hash of their key: with a positive
  number of buckets it returns that many, and bucket \<open>b\<close> holds exactly the pairs whose key hashes
  to \<open>b\<close>, in their order.\<close>

theorem bucketContents_partition:
  assumes "0 < nBuckets"
  shows "bucketContents keyValues nBuckets = Inr (map (bucket_of nBuckets keyValues) [0..nBuckets - 1])"
  using assms by (rule bucketContents_eq)

theorem bucketContents_partition_witness:
  "bucketContents [\<lparr>Key = ''a'', Value = ''1''\<rparr>, \<lparr>Key = ''b'', Value = ''2''\<rparr>] 3 =
     Inr (map (bucket_of 3 [\<lparr>Key = ''a'', Value = ''1''\<rparr>, \<lparr>Key = ''b'', Value = ''2''\<rparr>]) [0..2])"
  using bucketContents_partition [of 3 "[\<lparr>Key = ''a'', Value = ''1''\<rparr>, \<lparr>Key = ''b'', Value = ''2''\<rparr>]"] by simp

section \<open>Intermediate files\<close>

lemma encodeAll_spec:
  "wp (encodeAll tmp kvs)
     (\<lambda>u s'. same_store s s' \<and> os_files s' = (os_files s)(os_key (os_cwd s) tmp :=
        map_option (\<lambda>d. d @ concat (map json_Encode kvs)) (os_files s (os_key (os_cwd s) tmp))))
     (\<lambda>e s'. only_changes {os_key (os_cwd s) tmp} s s' \<and> os_faults s \<noteq> []) s"
proof (induction kvs arbitrary: s)
  case Nil
  show ?case by (simp add: fun_upd_idem option.map_ident)
next
  case (Cons kv kvs)
  show ?case
    unfolding encodeAll.simps
  proof (rule wp_bindI [OF Write_spec], goal_cases)
    case (1 u s1)
    then show ?case
      by (intro wp_conseq [OF Cons.IH [of s1]])
         (auto simp: only_changes_def same_store_def option.map_comp o_def)
  next
    case (2 e s1)
    then show ?case using only_changes_mono by blast
  qed
qed

definition bucketBody :: "string \<Rightarrow> KeyValue list \<Rightarrow> string \<Rightarrow> (os_error, unit) os" where
  "bucketBody filename kvs tmp = (\<lambda>s. case encodeAll tmp kvs s of
      (Inl e, s') \<Rightarrow> (Inl e, snd (os_flush s'))
    | (Inr _, s') \<Rightarrow> os_bind os_flush (\<lambda>_. os_Rename tmp filename) s')"

lemma wp_bucketBody:
  "wp (bucketBody filename kvs tmp) Q E s \<longleftrightarrow>
     wp (encodeAll tmp kvs) (\<lambda>_. wp (os_bind os_flush (\<lambda>_. os_Rename tmp filename)) Q E) (\<lambda>e s'. E e (snd (os_flush s'))) s"
  by (simp add: wp_def bucketBody_def split: prod.split sum.split)

lemma bucketBody_spec:
  assumes "os_files s (os_key (os_cwd s) tmp) = Some []"
  shows "wp (bucketBody filename kvs tmp)
    (\<lambda>u s'. True \<and> same_store s s' \<and> os_files s' =
       (os_files s)(os_key (os_cwd s) tmp := None, os_key (os_cwd s) filename \<mapsto> concat (map json_Encode kvs)))
    (\<lambda>e s'. only_changes {os_key (os_cwd s) tmp} s s' \<and>
       (os_faults s = [] \<longrightarrow> \<not> True \<or> os_key (os_cwd s) filename \<in> os_dirs s)) s"
  unfolding wp_bucketBody
proof (rule wp_conseq [OF encodeAll_spec], goal_cases)
  case (1 u s1)
  then have s1: "same_store s s1" "os_files s1 = (os_files s)(os_key (os_cwd s) tmp \<mapsto> concat (map json_Encode kvs))"
    using assms by simp_all
  then have "os_files s1 (os_key (os_cwd s1) tmp) = Some (concat (map json_Encode kvs))" by (simp add: same_store_def)
  then show ?case
    by (rule wp_conseq [OF flush_Rename_spec]) (use s1 in \<open>auto simp: only_changes_def same_store_def\<close>)
next
  case (2 e s1)
  have "only_changes {os_key (os_cwd s) tmp} s1 (snd (os_flush s1))"
    using flush_snd [of s1] only_changes_mono by blast
  then show ?case using 2 only_changes_step by blast
qed

interpretation bucketFile: atomic_file "''.''" "''mr-bucket-''" filename "bucketBody filename kvs" os_Remove
  "concat (map json_Encode kvs)" True
  for filename kvs
proof
  show "only_changes {os_key (os_cwd s) tmp} s (snd (os_Remove tmp s))" for s tmp by (rule Remove_snd)
  show "os_files (snd (os_Remove tmp s)) = os_files s" if "os_files s (os_key (os_cwd s) tmp) = None" for s tmp
    by (rule Remove_none [OF that])
qed (rule bucketBody_spec)

text \<open>The content of an intermediate file.\<close>

definition bucket_text :: "KeyValue list \<Rightarrow> string" where
  "bucket_text kvs = concat (map json_Encode kvs)"

abbreviation intermediate_key :: "string list \<Rightarrow> TaskID \<Rightarrow> int \<Rightarrow> string" where
  "intermediate_key ws taskID bucket \<equiv> local_key ws (taskIntermediateFileName taskID bucket)"

lemma writeBucketToFile_spec:
  assumes cwd: "worker_cwd ws s"
  shows "wp (writeBucketToFile taskID bucket kvs)
    (\<lambda>u s'. same_store s s' \<and> os_files s' = (os_files s)(intermediate_key ws taskID bucket \<mapsto> bucket_text kvs))
    (\<lambda>e s'. (\<exists>r. only_changes {local_key ws (bucket_temp r)} s s') \<and>
       (\<forall>k. os_files s k \<noteq> None \<longrightarrow> os_files s' k = os_files s k) \<and>
       (os_faults s = [] \<longrightarrow> intermediate_key ws taskID bucket \<in> os_dirs s \<or> \<not> temp_available ''./mr-bucket-'' s)) s"
proof -
  let ?f = "taskIntermediateFileName taskID bucket"
  have ws: "normal_comps ws" using cwd by (simp add: worker_cwd_def)
  have dir: "filepath_Dir ?f = ''.''"
    by (rule Dir_local) (use names_normal(1) [of taskID bucket] in \<open>simp add: normal_comp_def\<close>)
  have eq: "writeBucketToFile taskID bucket kvs =
      os_bind (os_CreateTemp ''.'' ''mr-bucket-'') (\<lambda>tmp. os_defer (bucketBody ?f kvs tmp) (os_Remove tmp))"
    by (simp add: writeBucketToFile_def Let_def dir bucketBody_def)
  have key: "os_key (os_cwd s) ?f = intermediate_key ws taskID bucket" using worker_key [OF cwd] by simp
  have fresh: "os_key (os_cwd s) ?f \<noteq> os_key (os_cwd s) (''.'' @ ''/'' @ ''mr-bucket-'' @ itoa_nat r)" for r
    unfolding bucket_temp_key [OF cwd] key
    using local_key_inj [OF ws] intermediate_name_distinct(2) by simp
  have pre: "''.'' @ ''/'' @ ''mr-bucket-'' = ''./mr-bucket-''" by simp
  show ?thesis
    using bucketFile.replace_spec [where s = s and filename = ?f and kvs = kvs, OF fresh]
    unfolding eq bucket_temp_key [OF cwd] key pre bucket_text_def by simp
qed

text \<open>The files a sequence of buckets is written to.\<close>

fun bucket_files :: "string list \<Rightarrow> TaskID \<Rightarrow> int \<Rightarrow> KeyValue list list \<Rightarrow> string \<rightharpoonup> string" where
  "bucket_files ws taskID bucket [] = Map.empty"
| "bucket_files ws taskID bucket (kvs # buckets) =
     (bucket_files ws taskID (bucket + 1) buckets)(intermediate_key ws taskID bucket \<mapsto> bucket_text kvs)"

lemma intermediate_key_inj:
  "normal_comps ws \<Longrightarrow> 0 \<le> i \<Longrightarrow> 0 \<le> j \<Longrightarrow> intermediate_key ws i b = intermediate_key ws j c \<longleftrightarrow> i = j \<and> b = c"
  using local_key_inj intermediate_name_inj by simp

lemma intermediate_key_distinct:
  "normal_comps ws \<Longrightarrow> intermediate_key ws i b \<noteq> local_key ws (reduceOutputFileName c)"
  "normal_comps ws \<Longrightarrow> intermediate_key ws i b \<noteq> local_key ws (bucket_temp r)"
  "normal_comps ws \<Longrightarrow> local_key ws (reduceOutputFileName c) \<noteq> local_key ws (bucket_temp r)"
  using local_key_inj intermediate_name_distinct by simp_all

lemma bucket_files_above:
  assumes "normal_comps ws" and "0 \<le> taskID" and "c < bucket"
  shows "bucket_files ws taskID bucket buckets (intermediate_key ws taskID c) = None"
  using assms(3)
  by (induction buckets arbitrary: bucket) (simp_all add: intermediate_key_inj [OF assms(1,2,2)])

lemma bucket_files_nth:
  assumes "normal_comps ws" and "0 \<le> taskID" and "i < length buckets"
  shows "bucket_files ws taskID bucket buckets (intermediate_key ws taskID (bucket + int i)) = Some (bucket_text (buckets ! i))"
  using assms(3)
proof (induction buckets arbitrary: bucket i)
  case (Cons kvs buckets)
  show ?case
  proof (cases i)
    case (Suc j)
    then show ?thesis
      using Cons.IH [of j "bucket + 1"] Cons.prems
      by (simp add: intermediate_key_inj [OF assms(1,2,2)] algebra_simps)
  qed simp
qed simp

lemma bucket_files_Some:
  "bucket_files ws taskID bucket buckets k = Some t \<Longrightarrow>
     \<exists>i < length buckets. k = intermediate_key ws taskID (bucket + int i) \<and> t = bucket_text (buckets ! i)"
proof (induction buckets arbitrary: bucket)
  case (Cons kvs buckets)
  show ?case
  proof (cases "k = intermediate_key ws taskID bucket")
    case True
    then show ?thesis using Cons.prems by (intro exI [of _ 0]) simp
  next
    case False
    then obtain i where "i < length buckets" "k = intermediate_key ws taskID (bucket + 1 + int i)" "t = bucket_text (buckets ! i)"
      using Cons.IH [of "bucket + 1"] Cons.prems by auto
    then show ?thesis by (intro exI [of _ "Suc i"]) (simp add: algebra_simps)
  qed
qed simp

text \<open>What a failure may leave: a temporary file that did not exist, and for each of the task's
  intermediate files the old content or the complete new one.\<close>

definition partly_written :: "string list \<Rightarrow> (string \<rightharpoonup> string) \<Rightarrow> os_state \<Rightarrow> os_state \<Rightarrow> bool" where
  "partly_written ws new s s' \<longleftrightarrow> same_store s s' \<and>
     (\<forall>k. os_files s' k = os_files s k \<or> (new k \<noteq> None \<and> os_files s' k = new k) \<or>
          (\<exists>r. k = local_key ws (bucket_temp r) \<and> os_files s k = None))"

lemma map_add_upd_left: "g k = None \<Longrightarrow> f(k \<mapsto> x) ++ g = f ++ g(k \<mapsto> x)"
  by (auto simp: map_add_def fun_eq_iff split: option.split)

lemma writeBucketsLoop_spec:
  assumes "worker_cwd ws s" and id: "0 \<le> taskID"
  shows "wp (writeBucketsLoop taskID bucket buckets)
    (\<lambda>u s'. same_store s s' \<and> os_files s' = os_files s ++ bucket_files ws taskID bucket buckets)
    (\<lambda>e s'. partly_written ws (bucket_files ws taskID bucket buckets) s s') s"
  using assms(1)
proof (induction buckets arbitrary: bucket s)
  case (Cons kvs buckets)
  let ?k = "intermediate_key ws taskID bucket" and ?g = "bucket_files ws taskID (bucket + 1) buckets"
  have ws: "normal_comps ws" using Cons.prems by (simp add: worker_cwd_def)
  have g: "?g ?k = None" using bucket_files_above [OF ws id] by simp
  show ?case
    unfolding writeBucketsLoop.simps
  proof (rule wp_bindI [OF writeBucketToFile_spec [OF Cons.prems]], goal_cases)
    case (1 u s1)
    then have cwd1: "worker_cwd ws s1" using worker_cwd_same [OF Cons.prems] by simp
    have f1: "os_files s1 = (os_files s)(?k \<mapsto> bucket_text kvs)" "same_store s s1" using 1 by simp_all
    show ?case
    proof (rule wp_conseq [OF Cons.IH [OF cwd1]], goal_cases)
      case (1 u s2)
      then have "os_files s2 = os_files s1 ++ ?g" by blast
      also have "\<dots> = (os_files s)(?k \<mapsto> bucket_text kvs) ++ ?g" by (simp only: f1(1))
      also have "\<dots> = os_files s ++ ?g(?k \<mapsto> bucket_text kvs)" by (rule map_add_upd_left) (rule g)
      also have "\<dots> = os_files s ++ bucket_files ws taskID bucket (kvs # buckets)" by (simp only: bucket_files.simps)
      finally show ?case using 1 f1(2) same_store_trans by blast
    next
      case (2 e s2)
      then have "same_store s s2" using f1 same_store_trans by (auto simp: partly_written_def)
      moreover have "os_files s2 k = os_files s k \<or>
          (bucket_files ws taskID bucket (kvs # buckets) k \<noteq> None \<and> os_files s2 k = bucket_files ws taskID bucket (kvs # buckets) k) \<or>
          (\<exists>r. k = local_key ws (bucket_temp r) \<and> os_files s k = None)" for k
      proof -
        have "os_files s2 k = os_files s1 k \<or> (?g k \<noteq> None \<and> os_files s2 k = ?g k) \<or>
            (\<exists>r. k = local_key ws (bucket_temp r) \<and> os_files s1 k = None)"
          using 2 unfolding partly_written_def by blast
        then show ?thesis using f1(1) g by (cases "k = ?k") auto
      qed
      ultimately show ?case unfolding partly_written_def by blast
    qed
  next
    case (2 e s1)
    then obtain r where r: "only_changes {local_key ws (bucket_temp r)} s s1"
      "\<forall>k. os_files s k \<noteq> None \<longrightarrow> os_files s1 k = os_files s k" by blast
    then show ?case unfolding partly_written_def only_changes_def by (metis singletonD)
  qed
qed simp

lemma readBucketFile_ok:
  assumes "worker_cwd ws s" and "os_files s (intermediate_key ws taskID bucket) = Some (bucket_text kvs)"
    and "\<forall>kv \<in> set kvs. kv_valid kv"
  shows "wp (readBucketFile taskID bucket) (\<lambda>r s'. quiet s s' \<and> r = kvs)
    (\<lambda>e s'. quiet s s' \<and> (os_faults s = [] \<longrightarrow> intermediate_key ws taskID bucket \<in> os_dirs s)) s"
proof -
  have dec: "json_DecodeAll (bucket_text kvs) = Some kvs"
    unfolding bucket_text_def using assms(3) by (rule json_DecodeAll_Encode)
  have key: "os_key (os_cwd s) (taskIntermediateFileName taskID bucket) = intermediate_key ws taskID bucket"
    by (rule worker_key [OF assms(1)]) simp
  show ?thesis
    unfolding readBucketFile_def wp_bind wp_mapErr
    by (rule wp_conseq [OF ReadFile_spec]) (use assms(2) dec in \<open>simp_all add: key\<close>)
qed


lemma runMapTask_spec:
  assumes "worker_cwd ws s" and "0 \<le> Task_ID task" and "0 < MapData_Buckets data"
    and bs: "bs = map (bucket_of (MapData_Buckets data) (mapf (MapData_Key data) (MapData_Content data))) [0..MapData_Buckets data - 1]"
  shows "wp (runMapTask mapf task data)
    (\<lambda>u s'. same_store s s' \<and> os_files s' = os_files s ++ bucket_files ws (Task_ID task) 0 bs)
    (\<lambda>e s'. partly_written ws (bucket_files ws (Task_ID task) 0 bs) s s') s"
proof -
  have run: "runMapTask mapf task data = os_mapErr WorkerOS (writeBucketsLoop (Task_ID task) 0 bs)"
    by (simp add: runMapTask_def bucketContents_eq [OF assms(3)] writeBucketsToFiles_def bs)
  show ?thesis unfolding run wp_mapErr by (rule writeBucketsLoop_spec [OF assms(1,2)])
qed

lemma partly_written_bucket:
  assumes pw: "partly_written ws (bucket_files ws taskID 0 bs) s s'" and ws: "normal_comps ws" and pos: "0 \<le> taskID"
  shows "os_files s' (intermediate_key ws taskID b) = os_files s (intermediate_key ws taskID b) \<or>
    (0 \<le> b \<and> nat b < length bs \<and> os_files s' (intermediate_key ws taskID b) = Some (bucket_text (bs ! nat b)))"
proof (cases "os_files s' (intermediate_key ws taskID b) = os_files s (intermediate_key ws taskID b)")
  case False
  then obtain t where t: "bucket_files ws taskID 0 bs (intermediate_key ws taskID b) = Some t"
      "os_files s' (intermediate_key ws taskID b) = Some t"
    using pw intermediate_key_distinct(2) [OF ws, of taskID b] unfolding partly_written_def by (metis option.exhaust)
  from bucket_files_Some [OF t(1)] t(2) show ?thesis
    using intermediate_key_inj [OF ws pos pos] by auto
qed simp

lemma written_bucket_served:
  assumes "worker_cwd ws s" and "os_files s (intermediate_key ws taskID b) = Some (bucket_text kvs)"
    and "\<forall>kv \<in> set kvs. kv_valid kv" and "os_faults s = []" and "intermediate_key ws taskID b \<notin> os_dirs s"
  shows "FetchBucket \<lparr>Fetch_MapTaskID = taskID, Fetch_Bucket = b\<rparr> s = (Inr kvs, s)"
proof -
  have "wp (readBucketFile taskID b) (\<lambda>r s'. quiet s s' \<and> r = kvs) (\<lambda>e s'. False) s"
    by (intro wp_conseq [OF readBucketFile_ok [OF assms(1)]]) (use assms in auto)
  from wp_total [OF this] assms(4) show ?thesis by (auto simp: FetchBucket_def quiet_def)
qed


definition ex_worker_os :: os_state where
  "ex_worker_os = \<lparr>os_cwd = ''/w'', os_files = [''/w/mr-1-0'' \<mapsto> ''old''], os_dirs = {}, os_faults = [], os_draws = [5, 6, 7]\<rparr>"

definition ex_map_task :: Task where
  "ex_map_task = \<lparr>Task_ID = 1, Task_Type = TaskMap, Task_State = TaskStateRunning, Task_AssignedAt = 0\<rparr>"

definition ex_map_data :: MapTaskData where
  "ex_map_data = \<lparr>MapData_Key = ''in'', MapData_Content = ''a b'', MapData_Buckets = 1\<rparr>"

definition ex_mapf :: "string \<Rightarrow> string \<Rightarrow> KeyValue list" where
  "ex_mapf k c = [\<lparr>Key = c, Value = k\<rparr>, \<lparr>Key = ''x'', Value = ''1''\<rparr>]"

lemma ex_worker_cwd: "worker_cwd [''w''] ex_worker_os"
  by (simp add: worker_cwd_def ex_worker_os_def normal_comp_def)


text \<open>C24: what a map worker writes into an intermediate file is what the reader of that file gets: for keys and
  values that are valid UTF-8, quotes, backslashes, control characters and line separators included, the list of
  pairs comes back unchanged.\<close>

theorem bucket_file_round_trip:
  assumes "worker_cwd ws s" and "\<forall>kv \<in> set kvs. kv_valid kv" and "intermediate_key ws taskID bucket \<notin> os_dirs s"
    and "writeBucketToFile taskID bucket kvs s = (Inr (), s')" and "os_faults s' = []"
  shows "readBucketFile taskID bucket s' = (Inr kvs, s')"
proof -
  have w: "same_store s s'" "os_files s' = (os_files s)(intermediate_key ws taskID bucket \<mapsto> bucket_text kvs)"
    using wp_ok [OF writeBucketToFile_spec [OF assms(1)] assms(4)] by simp_all
  have "wp (readBucketFile taskID bucket) (\<lambda>r s''. quiet s' s'' \<and> r = kvs) (\<lambda>e s''. False) s'"
    by (rule wp_conseq [OF readBucketFile_ok [OF worker_cwd_same [OF assms(1) w(1)] _ assms(2)]])
      (use w assms(3,5) in \<open>simp_all add: same_store_def\<close>)
  from wp_total [OF this] assms(5) show ?thesis
    by (auto simp: quiet_def)
qed

definition ex_bucket :: "KeyValue list" where
  "ex_bucket = [\<lparr>Key = [quote, CHR ''a'', backslash, newline], Value = [CHR 0xE2, CHR 0x80, CHR 0xA8]\<rparr>,
     \<lparr>Key = ''<b>'', Value = [CHR 0xC3, CHR 0xA5]\<rparr>]"

theorem bucket_file_round_trip_witness:
  "fst (readBucketFile 1 0 (snd (writeBucketToFile 1 0 ex_bucket ex_worker_os))) = Inr ex_bucket"
proof -
  let ?s' = "snd (writeBucketToFile 1 0 ex_bucket ex_worker_os)"
  have ok: "fst (writeBucketToFile 1 0 ex_bucket ex_worker_os) = Inr ()" by code_simp
  then have run: "writeBucketToFile 1 0 ex_bucket ex_worker_os = (Inr (), ?s')" by (metis prod.collapse)
  have nf: "os_faults ?s' = []" by code_simp
  have valid: "\<forall>kv \<in> set ex_bucket. kv_valid kv" by code_simp
  have "intermediate_key [''w''] 1 0 \<notin> os_dirs ex_worker_os" by (simp add: ex_worker_os_def)
  from bucket_file_round_trip [OF ex_worker_cwd valid this run nf] show ?thesis by simp
qed

section \<open>Reducing\<close>

definition values_of :: "KeyValue list \<Rightarrow> string \<Rightarrow> string list" where
  "values_of kvs k = map Value (filter (\<lambda>kv. Key kv = k) kvs)"

lemma groupByKey_apply:
  "groupByKey kvs k = (if k \<in> Key ` set kvs then Some (values_of kvs k) else None)"
proof (induction kvs rule: rev_induct)
  case Nil
  show ?case by (simp add: groupByKey_def)
next
  case (snoc kv kvs)
  have "groupByKey (kvs @ [kv]) =
      (groupByKey kvs)(Key kv \<mapsto> (case groupByKey kvs (Key kv) of None \<Rightarrow> [] | Some vs \<Rightarrow> vs) @ [Value kv])"
    by (simp add: groupByKey_def)
  moreover have "values_of kvs (Key kv) = []" if "Key kv \<notin> Key ` set kvs"
    using that by (simp add: values_of_def filter_empty_conv) (metis imageI)
  ultimately show ?case using snoc by (auto simp: values_of_def)
qed

text \<open>The reduced pairs: one per distinct key, in the order of the keys.\<close>

definition reduced :: "(string \<Rightarrow> string list \<Rightarrow> string) \<Rightarrow> KeyValue list \<Rightarrow> KeyValue list" where
  "reduced reducef kvs = map (\<lambda>k. \<lparr>Key = k, Value = reducef k (values_of kvs k)\<rparr>) (sorted_list_of_set (Key ` set kvs))"

lemma reduceContents_eq:
  assumes "range_order (groupByKey kvs) ks"
  shows "reduceContents ks (groupByKey kvs) reducef = reduced reducef kvs"
proof -
  have ks: "distinct ks" "set ks = Key ` set kvs"
    using assms by (auto simp: range_order_def groupByKey_apply dom_def split: if_splits)
  have "sort ks = sorted_list_of_set (Key ` set kvs)"
    using sorted_list_of_set_sort_remdups [of ks] ks by (simp add: distinct_remdups_id)
  moreover have "(case groupByKey kvs k of None \<Rightarrow> [] | Some vs \<Rightarrow> vs) = values_of kvs k"
    if "k \<in> set (sort ks)" for k
    using that ks by (simp add: groupByKey_apply)
  ultimately show ?thesis
    by (simp add: reduceContents_def reduced_def)
qed

definition output_text :: "KeyValue list \<Rightarrow> string" where
  "output_text kvs = concat (map output_line kvs)"

lemma printAll_spec:
  "wp (printAll filename kvs)
     (\<lambda>u s'. only_changes {os_key (os_cwd s) filename} s s' \<and>
        (os_faults s = [] \<longrightarrow> os_files s' = (os_files s)(os_key (os_cwd s) filename :=
           map_option (\<lambda>d. d @ output_text kvs) (os_files s (os_key (os_cwd s) filename)))))
     (\<lambda>e s'. False) s"
proof (induction kvs arbitrary: s)
  case Nil
  show ?case by (simp add: output_text_def fun_upd_idem option.map_ident)
next
  case (Cons kv kvs)
  define s1 where "s1 = snd (os_Write filename (output_line kv) s)"
  have s1: "only_changes {os_key (os_cwd s) filename} s s1 \<and>
      (os_faults s = [] \<longrightarrow> os_files s1 = (os_files s)(os_key (os_cwd s) filename :=
           map_option (\<lambda>d. d @ output_line kv) (os_files s (os_key (os_cwd s) filename))))"
    using Write_spec [of filename "output_line kv" s]
    by (auto simp: s1_def wp_def only_changes_def same_store_def split: prod.splits sum.splits)
  have "wp (printAll filename (kv # kvs)) Q E s \<longleftrightarrow> wp (printAll filename kvs) Q E s1" for Q E
    by (simp add: wp_def s1_def)
  then show ?case
  proof (simp only:, intro wp_conseq [OF Cons.IH], goal_cases)
    case (1 u s2)
    have cwd: "os_cwd s1 = os_cwd s" "os_faults s = [] \<Longrightarrow> os_faults s1 = []"
      using s1 by (simp_all add: only_changes_def same_store_def)
    have "only_changes {os_key (os_cwd s) filename} s s2"
      using 1 s1 cwd only_changes_step by metis
    moreover have "os_faults s = [] \<longrightarrow> os_files s2 = (os_files s)(os_key (os_cwd s) filename :=
           map_option (\<lambda>d. d @ output_text (kv # kvs)) (os_files s (os_key (os_cwd s) filename)))"
    proof
      assume nf: "os_faults s = []"
      let ?k = "os_key (os_cwd s) filename"
      have "os_files s2 = (os_files s1)(?k := map_option (\<lambda>d. d @ output_text kvs) (os_files s1 ?k))"
        using 1 cwd(2) [OF nf] unfolding cwd(1) by blast
      moreover have "os_files s1 = (os_files s)(?k := map_option (\<lambda>d. d @ output_line kv) (os_files s ?k))"
        using s1 nf by blast
      ultimately show "os_files s2 = (os_files s)(?k := map_option (\<lambda>d. d @ output_text (kv # kvs)) (os_files s ?k))"
        by (simp only: fun_upd_upd fun_upd_same option.map_comp) (simp add: o_def output_text_def)
    qed
    ultimately show ?case by blast
  qed
qed

text \<open>What a reduce task finds when it gathers bucket \<open>b\<close>: for each map task of \<open>ms\<close>, in the
  worker's own file or from the worker it asks, the pairs \<open>content m\<close>.\<close>

definition bucket_available ::
  "(string \<Rightarrow> FetchBucketArgs \<Rightarrow> KeyValue list option) \<Rightarrow> string \<Rightarrow> string list \<Rightarrow> ReduceTaskData \<Rightarrow>
   (TaskID \<Rightarrow> KeyValue list) \<Rightarrow> os_state \<Rightarrow> TaskID \<Rightarrow> bool" where
  "bucket_available call addr ws data content s m \<longleftrightarrow>
     (\<exists>a. ReduceData_MapTaskOutputs data m = Some a \<and>
       (if a = addr
        then os_files s (intermediate_key ws m (ReduceData_Bucket data)) = Some (bucket_text (content m)) \<and>
             intermediate_key ws m (ReduceData_Bucket data) \<notin> os_dirs s \<and> (\<forall>kv \<in> set (content m). kv_valid kv)
        else call a \<lparr>Fetch_MapTaskID = m, Fetch_Bucket = ReduceData_Bucket data\<rparr> = Some (content m)))"

lemma gatherLoop_spec:
  assumes "worker_cwd ws s" and "\<forall>m \<in> set ms. bucket_available call addr ws data content s m"
  shows "wp (gatherLoop call addr data ms acc)
    (\<lambda>r s'. quiet s s' \<and> r = acc @ concat (map content ms)) (\<lambda>e s'. quiet s s' \<and> os_faults s \<noteq> []) s"
  using assms
proof (induction ms arbitrary: acc s)
  case (Cons m ms)
  obtain a where a: "ReduceData_MapTaskOutputs data m = Some a"
    using Cons.prems(2) by (auto simp: bucket_available_def)
  have get: "wp (if a = addr then readBucketFile m (ReduceData_Bucket data)
        else fetchBucketFromWorker call a m (ReduceData_Bucket data))
      (\<lambda>r s'. quiet s s' \<and> r = content m) (\<lambda>e s'. quiet s s' \<and> os_faults s \<noteq> []) s"
  proof (cases "a = addr")
    case True
    then have f: "os_files s (intermediate_key ws m (ReduceData_Bucket data)) = Some (bucket_text (content m))"
      "intermediate_key ws m (ReduceData_Bucket data) \<notin> os_dirs s" "\<forall>kv \<in> set (content m). kv_valid kv"
      using Cons.prems(2) a by (auto simp: bucket_available_def)
    show ?thesis
      using True f(2) by (auto intro!: wp_conseq [OF readBucketFile_ok [OF Cons.prems(1) f(1,3)]])
  next
    case False
    then show ?thesis
      using Cons.prems(2) a by (auto simp: bucket_available_def fetchBucketFromWorker_def)
  qed
  show ?case
    unfolding gatherLoop.simps a option.case
  proof (rule wp_bindI, unfold wp_mapErr, rule get, goal_cases)
    case (1 r s1)
    have s1: "same_store s s1" "os_files s1 = os_files s" "os_dirs s1 = os_dirs s" 
      using quiet_files [of s s1] 1 by (auto simp: same_store_def)
    have "bucket_available call addr ws data content s1 = bucket_available call addr ws data content s"
      unfolding bucket_available_def s1 ..
    then have "\<forall>m \<in> set ms. bucket_available call addr ws data content s1 m"
      using Cons.prems(2) by simp
    from Cons.IH [OF worker_cwd_same [OF Cons.prems(1) s1(1)] this] show ?case
    proof (rule wp_conseq, goal_cases)
      case (1 r' s2)
      then show ?case using \<open>quiet s s1 \<and> r = content m\<close> quiet_trans by auto
    next
      case (2 e s2)
      then show ?case using \<open>quiet s s1 \<and> r = content m\<close> quiet_trans quiet_faults by blast
    qed
  qed
qed simp

text \<open>C26: a reduce task writes the reduction of its bucket.  When every map task's bucket is available and no
  system call fails, \<^verbatim>\<open>runReduceTask\<close> succeeds, and the file \<^verbatim>\<open>mr-out-b\<close> then holds one line per
  distinct key of the gathered pairs, in ascending order of the keys, with Reduce's result on all values
  of the key in the order they were gathered; no other file changes, and the iteration order of Go's
  maps does not matter beyond the order of gathering.\<close>

theorem reduce_task_output:
  assumes "worker_cwd ws s" and "os_faults s = []"
    and "\<forall>m \<in> set ms. bucket_available call addr ws data content s m"
    and "range_order (groupByKey (concat (map content ms))) (keyOrder (groupByKey (concat (map content ms))))"
    and "local_key ws (reduceOutputFileName (ReduceData_Bucket data)) \<notin> os_dirs s"
  shows "\<exists>s'. runReduceTask call addr reducef ms keyOrder data s = (Inr (), s') \<and>
    os_files s' = (os_files s)(local_key ws (reduceOutputFileName (ReduceData_Bucket data)) \<mapsto>
      output_text (reduced reducef (concat (map content ms))))"
proof -
  let ?f = "reduceOutputFileName (ReduceData_Bucket data)"
  let ?k = "local_key ws ?f" and ?kvs = "concat (map content ms)"
  have key: "os_key (os_cwd s) ?f = ?k" by (rule worker_key [OF assms(1)]) simp
  have wr: "wp (writeReducedContentsToBucketFile (ReduceData_Bucket data) (reduced reducef ?kvs))
      (\<lambda>u s'. os_files s' = (os_files s)(?k \<mapsto> output_text (reduced reducef ?kvs))) (\<lambda>e s'. False) s"
    unfolding writeReducedContentsToBucketFile_def Let_def
  proof (rule wp_bindI [OF Create_spec], goal_cases)
    case (1 u s1)
    then have s1: "os_cwd s1 = os_cwd s" "os_faults s1 = []" "os_files s1 = (os_files s)(?k \<mapsto> [])"
      using assms(2) key by (simp_all add: same_store_def)
    show ?case
      unfolding wp_defer
    proof (rule wp_conseq [OF printAll_spec], goal_cases)
      case (1 u s2)
      then have "os_files s2 = (os_files s)(?k \<mapsto> output_text (reduced reducef ?kvs))"
        using s1 key by simp
      then show ?case using flush_snd [of s2] only_changes_none by metis
    qed simp
  next
    case (2 e s1)
    then show ?case using assms(2,5) key by simp
  qed
  have "wp (runReduceTask call addr reducef ms keyOrder data)
      (\<lambda>u s'. os_files s' = (os_files s)(?k \<mapsto> output_text (reduced reducef ?kvs))) (\<lambda>e s'. False) s"
    unfolding runReduceTask_def
  proof (rule wp_bindI, unfold wp_mapErr, rule gatherLoop_spec [OF assms(1,3)], goal_cases)
    case (1 r s1)
    then have "s1 = s" "r = ?kvs" using assms(2) by (simp_all add: quiet_def)
    then show ?case
      using wr by (simp add: Let_def reduceContents_eq [OF assms(4)])
  next
    case (2 e s1)
    then show ?case using assms(2) by simp
  qed
  from wp_total [OF this] show ?thesis by auto
qed

definition ex_reduce_data :: ReduceTaskData where
  "ex_reduce_data = \<lparr>ReduceData_Bucket = 0, ReduceData_MapTaskOutputs = [1 \<mapsto> ''me'', 2 \<mapsto> ''you'']\<rparr>"

definition ex_content :: "TaskID \<Rightarrow> KeyValue list" where
  "ex_content m = (if m = 1 then [\<lparr>Key = ''b'', Value = ''1''\<rparr>] else [\<lparr>Key = ''a'', Value = ''2''\<rparr>, \<lparr>Key = ''b'', Value = ''3''\<rparr>])"

theorem reduce_task_output_witness:
  "\<exists>s'. runReduceTask (\<lambda>a args. Some (ex_content 2)) ''me'' (\<lambda>k vs. concat vs) [1, 2] (\<lambda>g. [''b'', ''a'']) ex_reduce_data
       (ex_worker_os\<lparr>os_files := [''/w/mr-1-0'' \<mapsto> bucket_text (ex_content 1)]\<rparr>) = (Inr (), s') \<and>
     os_files s' ''/w/mr-out-0'' = Some (''a 2'' @ newline # ''b 13'' @ [newline])"
proof -
  let ?s = "ex_worker_os\<lparr>os_files := [''/w/mr-1-0'' \<mapsto> bucket_text (ex_content 1)]\<rparr>"
  have cwd: "worker_cwd [''w''] ?s" using ex_worker_cwd by (simp add: worker_cwd_def)
  have names: "local_key [''w''] (taskIntermediateFileName 1 0) = ''/w/mr-1-0''"
    "local_key [''w''] (reduceOutputFileName 0) = ''/w/mr-out-0''" by code_simp+
  have valid: "\<forall>kv \<in> set (ex_content 1). kv_valid kv" by code_simp
  have av: "\<forall>m \<in> set [1, 2]. bucket_available (\<lambda>a args. Some (ex_content 2)) ''me'' [''w''] ex_reduce_data ex_content ?s m"
    using names valid by (simp add: bucket_available_def ex_reduce_data_def ex_worker_os_def)
  have all: "concat (map ex_content [1, 2]) =
      [\<lparr>Key = ''b'', Value = ''1''\<rparr>, \<lparr>Key = ''a'', Value = ''2''\<rparr>, \<lparr>Key = ''b'', Value = ''3''\<rparr>]"
    by (simp add: ex_content_def)
  have ord: "range_order (groupByKey (concat (map ex_content [1, 2]))) [''b'', ''a'']"
    unfolding all by (auto simp: range_order_def groupByKey_apply dom_def split: if_splits)
  have dirs: "local_key [''w''] (reduceOutputFileName (ReduceData_Bucket ex_reduce_data)) \<notin> os_dirs ?s"
    by (simp add: ex_worker_os_def)
  have nf: "os_faults ?s = []" by (simp add: ex_worker_os_def)
  have out: "output_text (reduced (\<lambda>k vs. concat vs) (concat (map ex_content [1, 2]))) = ''a 2'' @ newline # ''b 13'' @ [newline]"
    unfolding all by code_simp
  from reduce_task_output [OF cwd nf av, of "\<lambda>g. [''b'', ''a'']", OF ord dirs, of "\<lambda>k vs. concat vs"]
  show ?thesis unfolding out using names by (auto simp: ex_reduce_data_def)
qed

lemma printAll_append: "snd (printAll f (xs @ ys) s) = snd (printAll f ys (snd (printAll f xs s)))"
  by (induction xs arbitrary: s) (simp_all add: os_return_def)

lemma printAll_success: "fst (printAll f xs s) = Inr ()"
  by (induction xs arbitrary: s) (simp_all add: os_return_def)

lemma printAll_prefix:
  "os_faults s = map (\<lambda>kv. None) xs @ fs \<or> os_faults s = [] \<and> fs = [] \<Longrightarrow>
   snd (printAll f xs s) = s\<lparr>os_faults := fs, os_files := (os_files s)(os_key (os_cwd s) f :=
     map_option (\<lambda>d. d @ output_text xs) (os_files s (os_key (os_cwd s) f)))\<rparr>"
proof (induction xs arbitrary: s)
  case Nil
  then show ?case by (auto simp: os_return_def output_text_def fun_upd_idem option.map_ident)
next
  case (Cons kv xs)
  let ?w = "snd (os_Write f (output_line kv) s)"
  have w: "os_cwd ?w = os_cwd s" "os_files ?w = (os_files s)(os_key (os_cwd s) f :=
      map_option (\<lambda>d. d @ output_line kv) (os_files s (os_key (os_cwd s) f)))"
    "os_faults ?w = map (\<lambda>kv. None) xs @ fs \<or> os_faults ?w = [] \<and> fs = []"
    "?w\<lparr>os_faults := fs, os_files := F\<rparr> = s\<lparr>os_faults := fs, os_files := F\<rparr>" for F
    using Cons.prems by (auto simp: os_Write_def os_call_def Let_def)
  have m: "map_option (\<lambda>d. d @ output_text xs) (map_option (\<lambda>d. d @ output_line kv) z) =
      map_option (\<lambda>d. d @ output_text (kv # xs)) z" for z
    by (cases z) (simp_all add: output_text_def)
  show ?case
    unfolding printAll.simps Cons.IH [OF w(3)] w(4) unfolding w(1,2) by (simp add: m fun_upd_def cong: if_cong)
qed

text \<open>C27: a line that cannot be printed is lost without an error.  When the write of one line of the output fails, as on
  a full disk, \<^verbatim>\<open>writeReducedContentsToBucketFile\<close> succeeds all the same, so the task will be reported
  as completed, and the file \<^verbatim>\<open>mr-out-b\<close> holds all lines but this one.\<close>

theorem print_error_ignored:
  assumes "worker_cwd ws s" and "local_key ws (reduceOutputFileName b) \<notin> os_dirs s"
    and "os_faults s = None # map (\<lambda>kv. None) xs @ [Some e]"
  shows "\<exists>s'. writeReducedContentsToBucketFile b (xs @ kv # ys) s = (Inr (), s') \<and>
    os_files s' = (os_files s)(local_key ws (reduceOutputFileName b) \<mapsto> output_text (xs @ ys))"
proof -
  let ?f = "reduceOutputFileName b" and ?k = "local_key ws (reduceOutputFileName b)"
  have key: "os_key (os_cwd s) ?f = ?k" by (rule worker_key [OF assms(1)]) simp
  let ?s1 = "s\<lparr>os_faults := map (\<lambda>kv. None) xs @ [Some e], os_files := (os_files s)(?k \<mapsto> [])\<rparr>"
  let ?s2 = "s\<lparr>os_faults := [Some e], os_files := (os_files s)(?k \<mapsto> output_text xs)\<rparr>"
  let ?s3 = "s\<lparr>os_faults := [], os_files := (os_files s)(?k \<mapsto> output_text xs)\<rparr>"
  let ?s4 = "s\<lparr>os_faults := [], os_files := (os_files s)(?k \<mapsto> output_text (xs @ ys))\<rparr>"
  have c: "os_Create ?f s = (Inr (), ?s1)" using assms(2,3) key by (simp add: os_Create_def os_call_def Let_def)
  have p1: "snd (printAll ?f xs ?s1) = ?s2" using printAll_prefix [of ?s1 xs "[Some e]" ?f] key by simp
  have p2: "snd (os_Write ?f (output_line kv) ?s2) = ?s3" by (simp add: os_Write_def os_call_def)
  have p3: "snd (printAll ?f ys ?s3) = ?s4"
    using printAll_prefix [of ?s3 ys "[]" ?f] key by (simp add: output_text_def)
  have p: "printAll ?f (xs @ kv # ys) ?s1 = (Inr (), ?s4)"
    using printAll_success [of ?f "xs @ kv # ys" ?s1] printAll_append [of ?f xs "kv # ys" ?s1] p1 p2 p3
    by (simp add: prod_eq_iff)
  have "os_flush ?s4 = (Inr (), ?s4)" by (simp add: os_flush_def os_call_def)
  then have "writeReducedContentsToBucketFile b (xs @ kv # ys) s = (Inr (), ?s4)"
    unfolding writeReducedContentsToBucketFile_def Let_def os_bind_def os_defer_def c by (simp add: p)
  then show ?thesis by auto
qed

theorem print_error_ignored_witness:
  "\<exists>s'. writeReducedContentsToBucketFile 0 [\<lparr>Key = ''a'', Value = ''1''\<rparr>, \<lparr>Key = ''b'', Value = ''2''\<rparr>]
      (ex_worker_os\<lparr>os_faults := [None, None, Some ErrOther]\<rparr>) = (Inr (), s') \<and>
    os_files s' ''/w/mr-out-0'' = Some (''a 1'' @ [newline])"
proof -
  let ?s = "ex_worker_os\<lparr>os_faults := [None, None, Some ErrOther]\<rparr>"
  have cwd: "worker_cwd [''w''] ?s" using ex_worker_cwd by (simp add: worker_cwd_def)
  have name: "local_key [''w''] (reduceOutputFileName 0) = ''/w/mr-out-0''" by code_simp
  have dirs: "local_key [''w''] (reduceOutputFileName 0) \<notin> os_dirs ?s" by (simp add: ex_worker_os_def)
  have fs: "os_faults ?s = None # map (\<lambda>kv. None) [\<lparr>Key = ''a'', Value = ''1''\<rparr>] @ [Some ErrOther]" by simp
  from print_error_ignored [OF cwd dirs fs, of "\<lparr>Key = ''b'', Value = ''2''\<rparr>" "[]"] show ?thesis
    unfolding name by (auto simp: output_text_def output_line_def)
qed

end
