(* ===== verification/MR_System.thy ===== *)
theory MR_System
  imports MR_Coordinator MR_Worker
begin

text \<open>
  The whole MapReduce system: one coordinator and any number of workers as a step relation.  A step is one RPC
  handled by the coordinator, one reply encoded, one file written, one bucket fetched, one line printed; the steps of
  different workers interleave in every way.  Workers crash at any point, requests, replies and reports get lost,
  tasks time out and run twice, system calls fail, and intermediate files disappear.

  Each worker runs in a site, a directory on a machine.  Workers of one site share its files, as in \<^verbatim>\<open>test-mr.sh\<close>, which
  runs all of them in \<^verbatim>\<open>mr-tmp\<close> and gives all of them the same address; workers of different sites fetch each other's
  files over the network.

  Three things can happen that make a finished job's output wrong, because the code does not guard against them.  The
  steps where they happen carry a label, an incident:
  \<^item> a report of missing map outputs reopens a map task while the reply of a reduce task waits to be encoded
    (\<^verbatim>\<open>coordinator.go:86,137\<close>: the reply holds the live map);
  \<^item> printing a line of an output file fails (\<^verbatim>\<open>bucket.go:43\<close>: the error of \<^verbatim>\<open>Fprintf\<close> is not looked at);
  \<^item> a worker opens an output file in a directory it shares while another worker there is writing or reporting it, or
    when its task is already done (\<^verbatim>\<open>bucket.go:36\<close>: the file is truncated and written in place).
\<close>

section \<open>State\<close>

record Job =
  job_globalID :: int
  job_files :: "string list"
  job_nReduce :: int
  job_mapf :: "string \<Rightarrow> string \<Rightarrow> KeyValue list"
  job_reducef :: "string \<Rightarrow> string list \<Rightarrow> string"
  job_input :: "string \<Rightarrow> string"
  job_site :: "nat \<Rightarrow> nat"
  job_dir :: "nat \<Rightarrow> string list"

text \<open>\<open>Replying\<close> is a worker that waits for the reply to its request, which the coordinator has yet to encode.\<close>

datatype phase =
    Idle
  | Exited
  | Replying LiveReply
  | Mapping Task "KeyValue list list" nat
  | Gathering Task ReduceTaskData "TaskID list" "KeyValue list"
  | MissingOutput TaskID
  | Printing Task int "KeyValue list"
  | Reporting Task

record worker =
  wk_addr :: string
  wk_phase :: phase

record system =
  sy_coord :: Coordinator
  sy_stores :: "nat \<Rightarrow> os_state"
  sy_workers :: "nat \<Rightarrow> worker"

definition phase_of :: "system \<Rightarrow> nat \<Rightarrow> phase" where
  "phase_of S w = wk_phase (sy_workers S w)"

definition store_of :: "Job \<Rightarrow> system \<Rightarrow> nat \<Rightarrow> os_state" where
  "store_of J S w = sy_stores S (job_site J w)"

definition setPhase :: "nat \<Rightarrow> phase \<Rightarrow> system \<Rightarrow> system" where
  "setPhase w p S = S\<lparr>sy_workers := (sy_workers S)(w := (sy_workers S w)\<lparr>wk_phase := p\<rparr>)\<rparr>"

definition setStore :: "nat \<Rightarrow> os_state \<Rightarrow> system \<Rightarrow> system" where
  "setStore x s S = S\<lparr>sy_stores := (sy_stores S)(x := s)\<rparr>"

definition setCoord :: "Coordinator \<Rightarrow> system \<Rightarrow> system" where
  "setCoord c S = S\<lparr>sy_coord := c\<rparr>"

lemma system_simps [simp]:
  "phase_of (setPhase w p S) v = (if v = w then p else phase_of S v)" "phase_of (setStore x s S) v = phase_of S v"
  "phase_of (setCoord c S) v = phase_of S v"
  "sy_stores (setPhase w p S) = sy_stores S" "sy_stores (setStore x s S) = (sy_stores S)(x := s)"
  "sy_stores (setCoord c S) = sy_stores S"
  "sy_coord (setPhase w p S) = sy_coord S" "sy_coord (setStore x s S) = sy_coord S" "sy_coord (setCoord c S) = c"
  by (simp_all add: phase_of_def setPhase_def setStore_def setCoord_def)

text \<open>The dispatch of \<^verbatim>\<open>executeTask\<close> on a reply; \<open>ms\<close> is the order in which the reduce task will visit
  the map outputs.  A reply without a task is an error whose message \<^verbatim>\<open>Worker\<close> builds from the type of the task
  (\<^verbatim>\<open>worker.go:26\<close>), which panics.\<close>

definition beginTask :: "Job \<Rightarrow> TaskReply \<Rightarrow> TaskID list \<Rightarrow> phase" where
  "beginTask J reply ms =
     (case Reply_Task reply of
        None \<Rightarrow> Exited
      | Some task \<Rightarrow>
          (case Task_Type task of
             TaskMap \<Rightarrow>
               (case Reply_MapData reply of
                  None \<Rightarrow> Idle
                | Some data \<Rightarrow>
                    (case bucketContents (job_mapf J (MapData_Key data) (MapData_Content data)) (MapData_Buckets data) of
                       Inl p \<Rightarrow> Exited
                     | Inr buckets \<Rightarrow> Mapping task buckets 0))
           | TaskReduce \<Rightarrow>
               (case Reply_ReduceData reply of
                  None \<Rightarrow> Idle
                | Some data \<Rightarrow> Gathering task data ms [])
           | _ \<Rightarrow> Idle))"

section \<open>Steps\<close>

definition request_env_ok :: "Job \<Rightarrow> Coordinator \<Rightarrow> request_env \<Rightarrow> bool" where
  "request_env_ok J c e \<longleftrightarrow> env_ok c e \<and> (\<forall>f x. env_ReadFile e f = Some x \<longrightarrow> x = job_input J f)"

definition intermediate_lost :: "string list \<Rightarrow> os_state \<Rightarrow> os_state \<Rightarrow> bool" where
  "intermediate_lost ws s s' \<longleftrightarrow> os_cwd s' = os_cwd s \<and> os_dirs s' = os_dirs s \<and>
     (\<forall>k. os_files s' k = os_files s k \<or> (os_files s' k = None \<and> (\<exists>m b. k = intermediate_key ws m b)))"

datatype incident = TornReply | PrintFailed | OutputReopened

definition mapIDs :: "Job \<Rightarrow> TaskID set" where
  "mapIDs J = {job_globalID J + 1 .. job_globalID J + int (length (job_files J))}"

definition reduceID :: "Job \<Rightarrow> int \<Rightarrow> TaskID" where
  "reduceID J b = job_globalID J + int (length (job_files J)) + 1 + b"

text \<open>The worker is printing the output of bucket \<open>b\<close>, or has printed it and is about to report it.\<close>

fun printing :: "phase \<Rightarrow> int \<Rightarrow> bool" where
  "printing (Printing task b' kvs) b \<longleftrightarrow> b' = b"
| "printing _ b \<longleftrightarrow> False"

fun writing :: "Job \<Rightarrow> phase \<Rightarrow> int \<Rightarrow> bool" where
  "writing J (Printing task b' kvs) b \<longleftrightarrow> b' = b"
| "writing J (Reporting task) b \<longleftrightarrow> Task_Type task = TaskReduce \<and> Task_ID task = reduceID J b"
| "writing J _ b \<longleftrightarrow> False"

definition torn_by :: "system \<Rightarrow> TaskID \<Rightarrow> incident option" where
  "torn_by S m = (if map_done (sy_coord S) m \<and> (\<exists>v reply. phase_of S v = Replying reply \<and> Live_ReduceData reply \<noteq> None)
     then Some TornReply else None)"

definition reopened_by :: "Job \<Rightarrow> system \<Rightarrow> nat \<Rightarrow> int \<Rightarrow> incident option" where
  "reopened_by J S w b = (if \<exists>v. v \<noteq> w \<and> job_site J v = job_site J w \<and>
       (writing J (phase_of S v) b \<or> reduce_done (sy_coord S) (reduceID J b))
     then Some OutputReopened else None)"

definition print_incident :: "os_error + unit \<Rightarrow> incident option" where
  "print_incident r = (case r of Inl e \<Rightarrow> Some PrintFailed | Inr u \<Rightarrow> None)"

text \<open>\<open>wk_addr\<close> is what \<^verbatim>\<open>getWorkerPublicAddress\<close> returns.  A bucket whose producer has the worker's own address is read
  from the worker's directory, any other one is fetched from a worker that listens at the address.  What two workers
  that print the same file at the same time leave in it is not modelled: an incident precedes it.\<close>

inductive sys_step :: "Job \<Rightarrow> incident option \<Rightarrow> system \<Rightarrow> system \<Rightarrow> bool" for J where
  request:
    "phase_of S w = Idle \<Longrightarrow> request_env_ok J (sy_coord S) e \<Longrightarrow> RequestTask e (sy_coord S) = (c', Inr reply) \<Longrightarrow>
     sys_step J None S (setPhase w (Replying reply) (setCoord c' S))"
| request_error:
    "phase_of S w = Idle \<Longrightarrow> request_env_ok J (sy_coord S) e \<Longrightarrow> RequestTask e (sy_coord S) = (c', Inl err) \<Longrightarrow>
     sys_step J None S (setPhase w Exited (setCoord c' S))"
| reply:
    "phase_of S w = Replying live \<Longrightarrow> reply = encodeReply (sy_coord S) live \<Longrightarrow>
     (\<forall>d. Reply_ReduceData reply = Some d \<longrightarrow> range_order (ReduceData_MapTaskOutputs d) ms) \<Longrightarrow>
     sys_step J None S (setPhase w (beginTask J reply ms) S)"
| writeBucket:
    "phase_of S w = Mapping task buckets i \<Longrightarrow> i < length buckets \<Longrightarrow>
     writeBucketToFile (Task_ID task) (int i) (buckets ! i) (store_of J S w) = (Inr u, s') \<Longrightarrow>
     sys_step J None S (setPhase w (Mapping task buckets (i + 1)) (setStore (job_site J w) s' S))"
| writeBucket_failed:
    "phase_of S w = Mapping task buckets i \<Longrightarrow> i < length buckets \<Longrightarrow>
     writeBucketToFile (Task_ID task) (int i) (buckets ! i) (store_of J S w) = (Inl e, s') \<Longrightarrow>
     sys_step J None S (setPhase w Idle (setStore (job_site J w) s' S))"
| mapped:
    "phase_of S w = Mapping task buckets (length buckets) \<Longrightarrow> sys_step J None S (setPhase w (Reporting task) S)"
| fetch_local:
    "phase_of S w = Gathering task data (m # ms) acc \<Longrightarrow>
     ReduceData_MapTaskOutputs data m = Some (wk_addr (sy_workers S w)) \<Longrightarrow>
     readBucketFile m (ReduceData_Bucket data) (store_of J S w) = (Inr kvs, s') \<Longrightarrow>
     sys_step J None S (setPhase w (Gathering task data ms (acc @ kvs)) (setStore (job_site J w) s' S))"
| fetch_remote:
    "phase_of S w = Gathering task data (m # ms) acc \<Longrightarrow> phase_of S v \<noteq> Exited \<Longrightarrow>
     ReduceData_MapTaskOutputs data m = Some (wk_addr (sy_workers S v)) \<Longrightarrow>
     wk_addr (sy_workers S v) \<noteq> wk_addr (sy_workers S w) \<Longrightarrow>
     FetchBucket \<lparr>Fetch_MapTaskID = m, Fetch_Bucket = ReduceData_Bucket data\<rparr> (store_of J S v) = (Inr kvs, s') \<Longrightarrow>
     sys_step J None S (setPhase w (Gathering task data ms (acc @ kvs)) (setStore (job_site J v) s' S))"
| fetch_failed:
    "phase_of S w = Gathering task data (m # ms) acc \<Longrightarrow> sys_step J None S (setPhase w (MissingOutput m) S)"
| report_missing:
    "phase_of S w = MissingOutput m \<Longrightarrow> range_order (reduceTasks (sy_coord S)) ro \<Longrightarrow>
     sys_step J (torn_by S m) S
       (setPhase w Idle (setCoord (ReportMissingMapOutputs ro \<lparr>Missing_MapTaskID = m\<rparr> (sy_coord S)) S))"
| report_missing_lost:
    "phase_of S w = MissingOutput m \<Longrightarrow> sys_step J None S (setPhase w Idle S)"
| create:
    "phase_of S w = Gathering task data [] acc \<Longrightarrow> range_order (groupByKey acc) ks \<Longrightarrow>
     os_Create (reduceOutputFileName (ReduceData_Bucket data)) (store_of J S w) = (Inr u, s') \<Longrightarrow>
     sys_step J (reopened_by J S w (ReduceData_Bucket data)) S
       (setPhase w (Printing task (ReduceData_Bucket data) (reduceContents ks (groupByKey acc) (job_reducef J)))
          (setStore (job_site J w) s' S))"
| create_failed:
    "phase_of S w = Gathering task data [] acc \<Longrightarrow>
     os_Create (reduceOutputFileName (ReduceData_Bucket data)) (store_of J S w) = (Inl e, s') \<Longrightarrow>
     sys_step J None S (setPhase w Idle (setStore (job_site J w) s' S))"
| print:
    "phase_of S w = Printing task b (kv # kvs) \<Longrightarrow>
     os_Write (reduceOutputFileName b) (output_line kv) (store_of J S w) = (r, s') \<Longrightarrow>
     sys_step J (print_incident r) S (setPhase w (Printing task b kvs) (setStore (job_site J w) s' S))"
| printed:
    "phase_of S w = Printing task b [] \<Longrightarrow> sys_step J None S (setPhase w (Reporting task) S)"
| report:
    "phase_of S w = Reporting task \<Longrightarrow> range_order (reduceTasks (sy_coord S)) ro \<Longrightarrow>
     ReportTaskCompletion ro \<lparr>Report_Task = Some task, Report_WorkerAddress = wk_addr (sy_workers S w)\<rparr> (sy_coord S) = Inr c' \<Longrightarrow>
     sys_step J None S (setPhase w Idle (setCoord c' S))"
| report_lost:
    "phase_of S w = Reporting task \<Longrightarrow> sys_step J None S (setPhase w Idle S)"
| crash:
    "sys_step J None S (setPhase w Exited S)"
| environment:
    "intermediate_lost (job_dir J x) (sy_stores S x) s' \<Longrightarrow> sys_step J None S (setStore x s' S)"

text \<open>A call of the coordinator that fails after the handler ran leaves the worker without a task, and it exits: this is
  the rule \<open>crash\<close>.  At the start the coordinator is new, no worker is at work, and no directory holds intermediate
  files.\<close>

definition sys_init :: "Job \<Rightarrow> system \<Rightarrow> bool" where
  "sys_init J S \<longleftrightarrow>
     sy_coord S = snd (MakeCoordinator (job_globalID J) (job_files J) (job_nReduce J)) \<and>
     (\<forall>w. phase_of S w = Idle) \<and>
     (\<forall>x. worker_cwd (job_dir J x) (sy_stores S x) \<and> (\<forall>m b. os_files (sy_stores S x) (intermediate_key (job_dir J x) m b) = None))"

text \<open>The states of runs in which only incidents of the set \<open>A\<close> happen.\<close>

inductive sys_reach :: "Job \<Rightarrow> incident set \<Rightarrow> system \<Rightarrow> bool" for J A where
  init: "sys_init J S \<Longrightarrow> sys_reach J A S"
| step: "sys_reach J A S \<Longrightarrow> sys_step J i S S' \<Longrightarrow> set_option i \<subseteq> A \<Longrightarrow> sys_reach J A S'"

section \<open>What the system computes\<close>

definition map_input :: "Job \<Rightarrow> TaskID \<Rightarrow> string" where
  "map_input J m = job_files J ! nat (m - job_globalID J - 1)"

definition map_output :: "Job \<Rightarrow> TaskID \<Rightarrow> KeyValue list" where
  "map_output J m = job_mapf J (map_input J m) (job_input J (map_input J m))"

definition expected :: "Job \<Rightarrow> int \<Rightarrow> TaskID \<Rightarrow> KeyValue list" where
  "expected J b m = bucket_of (job_nReduce J) (map_output J m) b"

definition is_bucket :: "Job \<Rightarrow> int \<Rightarrow> bool" where
  "is_bucket J b \<longleftrightarrow> 0 \<le> b \<and> b < job_nReduce J"

text \<open>A right output of bucket \<open>b\<close>: the reduction of the bucket's pairs of all map tasks, taken in some
  order of the tasks.\<close>

definition output_ok :: "Job \<Rightarrow> int \<Rightarrow> string \<Rightarrow> bool" where
  "output_ok J b text \<longleftrightarrow> (\<exists>ms. distinct ms \<and> set ms = mapIDs J \<and>
     text = output_text (reduced (job_reducef J) (concat (map (expected J b) ms))))"

text \<open>The file \<^verbatim>\<open>mr-out-b\<close> of site \<open>x\<close>.\<close>

definition output_file :: "Job \<Rightarrow> system \<Rightarrow> nat \<Rightarrow> int \<Rightarrow> string option" where
  "output_file J S x b = os_files (sy_stores S x) (local_key (job_dir J x) (reduceOutputFileName b))"

definition job_ok :: "Job \<Rightarrow> bool" where
  "job_ok J \<longleftrightarrow> 0 \<le> job_globalID J \<and> 0 < job_nReduce J \<and>
     (\<forall>m \<in> mapIDs J. \<forall>kv \<in> set (map_output J m). kv_valid kv)"

section \<open>The invariant\<close>

definition store_ok :: "Job \<Rightarrow> nat \<Rightarrow> os_state \<Rightarrow> bool" where
  "store_ok J x s \<longleftrightarrow> worker_cwd (job_dir J x) s \<and>
     (\<forall>m b t. m \<in> mapIDs J \<and> is_bucket J b \<and> os_files s (intermediate_key (job_dir J x) m b) = Some t \<longrightarrow>
        t = bucket_text (expected J b m))"

definition out_file :: "Job \<Rightarrow> nat \<Rightarrow> os_state \<Rightarrow> int \<Rightarrow> string option" where
  "out_file J x s b = os_files s (local_key (job_dir J x) (reduceOutputFileName b))"

definition all_maps_done :: "Coordinator \<Rightarrow> bool" where
  "all_maps_done c \<longleftrightarrow> dom (mapTasks c) = Collect (map_done c)"

text \<open>A reply that waits to be encoded.  While a reduce task's does, all map tasks are done.\<close>

definition reply_ok :: "Job \<Rightarrow> Coordinator \<Rightarrow> LiveReply \<Rightarrow> bool" where
  "reply_ok J c reply \<longleftrightarrow>
     (case Live_Task reply of
        Some (MapTaskRef k) \<Rightarrow> k \<in> mapIDs J \<and> Live_ReduceData reply = None \<and>
          Live_MapData reply = Some \<lparr>MapData_Key = map_input J k, MapData_Content = job_input J (map_input J k),
            MapData_Buckets = job_nReduce J\<rparr>
      | Some (ReduceTaskRef k) \<Rightarrow> Live_MapData reply = None \<and> all_maps_done c \<and>
          (\<exists>b. Live_ReduceData reply = Some (b, k) \<and> is_bucket J b \<and> k = reduceID J b)
      | Some (OwnTask t) \<Rightarrow> Task_Type t = TaskWait \<and> Live_MapData reply = None \<and> Live_ReduceData reply = None
      | None \<Rightarrow> False)"

fun phase_ok :: "Job \<Rightarrow> Coordinator \<Rightarrow> nat \<Rightarrow> os_state \<Rightarrow> phase \<Rightarrow> bool" where
  "phase_ok J c x s (Replying reply) \<longleftrightarrow> reply_ok J c reply"
| "phase_ok J c x s (Mapping task buckets i) \<longleftrightarrow>
     Task_Type task = TaskMap \<and> Task_ID task \<in> mapIDs J \<and>
     buckets = map (\<lambda>b. expected J b (Task_ID task)) [0..job_nReduce J - 1]"
| "phase_ok J c x s (Gathering task data ms acc) \<longleftrightarrow>
     Task_Type task = TaskReduce \<and> is_bucket J (ReduceData_Bucket data) \<and>
     Task_ID task = reduceID J (ReduceData_Bucket data) \<and>
     (\<exists>ps. distinct (ps @ ms) \<and> set (ps @ ms) = mapIDs J \<and>
        acc = concat (map (expected J (ReduceData_Bucket data)) ps))"
| "phase_ok J c x s (Printing task b kvs) \<longleftrightarrow>
     Task_Type task = TaskReduce \<and> is_bucket J b \<and> Task_ID task = reduceID J b \<and>
     (\<exists>t. out_file J x s b = Some t \<and> output_ok J b (t @ output_text kvs))"
| "phase_ok J c x s (Reporting task) \<longleftrightarrow>
     Task_Type task = TaskMap \<or>
     (\<exists>b t. Task_Type task = TaskReduce \<and> is_bucket J b \<and> Task_ID task = reduceID J b \<and>
        out_file J x s b = Some t \<and> output_ok J b t)"
| "phase_ok J c x s _ \<longleftrightarrow> True"

text \<open>The worker has been given bucket \<open>b\<close> and has not opened its output yet.\<close>

fun bound_for :: "phase \<Rightarrow> int \<Rightarrow> bool" where
  "bound_for (Replying reply) b \<longleftrightarrow> (\<exists>k. Live_ReduceData reply = Some (b, k))"
| "bound_for (Gathering task data ms acc) b \<longleftrightarrow> ReduceData_Bucket data = b"
| "bound_for _ b \<longleftrightarrow> False"

definition neighbour :: "Job \<Rightarrow> nat \<Rightarrow> nat \<Rightarrow> bool" where
  "neighbour J w v \<longleftrightarrow> v \<noteq> w \<and> job_site J v = job_site J w"

text \<open>Site \<open>x\<close> has the right output of bucket \<open>b\<close>, and no worker there can write it again without an incident.\<close>

definition provides :: "Job \<Rightarrow> system \<Rightarrow> nat \<Rightarrow> int \<Rightarrow> bool" where
  "provides J S x b \<longleftrightarrow> (\<exists>t. out_file J x (sy_stores S x) b = Some t \<and> output_ok J b t) \<and>
     (\<forall>v. job_site J v = x \<longrightarrow> \<not> printing (phase_of S v) b \<and> (bound_for (phase_of S v) b \<longrightarrow> (\<exists>u. neighbour J v u)))"

definition exclusive :: "Job \<Rightarrow> system \<Rightarrow> bool" where
  "exclusive J S \<longleftrightarrow> (\<forall>w v b. neighbour J w v \<and> writing J (phase_of S w) b \<longrightarrow> \<not> writing J (phase_of S v) b)"

definition sys_inv :: "Job \<Rightarrow> system \<Rightarrow> bool" where
  "sys_inv J S \<longleftrightarrow>
     coord_reach (job_globalID J) (job_files J) (job_nReduce J) (sy_coord S) \<and>
     (\<forall>x. store_ok J x (sy_stores S x)) \<and>
     (\<forall>w. phase_ok J (sy_coord S) (job_site J w) (store_of J S w) (phase_of S w)) \<and>
     exclusive J S \<and>
     (\<forall>b. is_bucket J b \<and> reduce_done (sy_coord S) (reduceID J b) \<longrightarrow> (\<exists>x. provides J S x b))"

lemma sys_invD:
  assumes "sys_inv J S"
  shows "coord_reach (job_globalID J) (job_files J) (job_nReduce J) (sy_coord S)" and "store_ok J x (sy_stores S x)"
    and "phase_ok J (sy_coord S) (job_site J w) (store_of J S w) (phase_of S w)"
    and "neighbour J w v \<Longrightarrow> writing J (phase_of S w) b \<Longrightarrow> \<not> writing J (phase_of S v) b"
    and "is_bucket J b \<Longrightarrow> reduce_done (sy_coord S) (reduceID J b) \<Longrightarrow> \<exists>x. provides J S x b"
  using assms by (simp_all add: sys_inv_def exclusive_def)

lemma neighbour_sym: "neighbour J w v \<Longrightarrow> neighbour J v w"
  by (simp add: neighbour_def)

lemma printing_writing: "printing p b \<Longrightarrow> writing J p b"
  by (cases p) simp_all

lemma phase_ok_files:
  assumes "phase_ok J c x s p" and "\<And>b. writing J p b \<Longrightarrow> out_file J x s' b = out_file J x s b"
  shows "phase_ok J c x s' p"
  using assms by (cases p) auto

text \<open>A step of worker \<open>w\<close> that touches its phase and its site's files: what it owes to the others.\<close>

lemma worker_step_inv:
  assumes inv: "sys_inv J S" and x: "x = job_site J w" and st: "store_ok J x s'" and ph: "phase_ok J (sy_coord S) x s' p"
    and out: "\<And>b. out_file J x s' b = out_file J x (sy_stores S x) b \<or>
      (\<forall>v. neighbour J w v \<longrightarrow> \<not> writing J (phase_of S v) b) \<and> (reduce_done (sy_coord S) (reduceID J b) \<longrightarrow> \<not> provides J S x b)"
    and wr: "\<And>b. writing J p b \<Longrightarrow> writing J (phase_of S w) b \<or> (\<forall>v. neighbour J w v \<longrightarrow> \<not> writing J (phase_of S v) b)"
    and pr: "\<And>b. is_bucket J b \<Longrightarrow> reduce_done (sy_coord S) (reduceID J b) \<Longrightarrow> provides J S x b \<Longrightarrow>
      \<not> printing p b \<and> (bound_for p b \<longrightarrow> (\<exists>u. neighbour J w u))"
  shows "sys_inv J (setPhase w p (setStore x s' S))"
proof -
  let ?S = "setPhase w p (setStore x s' S)"
  have "phase_ok J (sy_coord ?S) (job_site J v) (store_of J ?S v) (phase_of ?S v)" for v
  proof (cases "neighbour J w v")
    case True
    then have v: "v \<noteq> w" "job_site J v = x" by (simp_all add: neighbour_def x)
    have "phase_ok J (sy_coord S) x (sy_stores S x) (phase_of S v)"
      using sys_invD(3) [OF inv, of v] v by (simp add: store_of_def)
    then have "phase_ok J (sy_coord S) x s' (phase_of S v)"
      by (rule phase_ok_files) (use out True in blast)
    then show ?thesis using v by (simp add: store_of_def)
  next
    case False
    then show ?thesis
      using sys_invD(3) [OF inv, of v] ph by (cases "v = w") (simp_all add: neighbour_def store_of_def x)
  qed
  moreover have "exclusive J ?S"
    unfolding exclusive_def
  proof (intro allI impI)
    fix v u b
    assume n: "neighbour J v u \<and> writing J (phase_of ?S v) b"
    have vu: "v \<noteq> u" "neighbour J u v" using n neighbour_sym by (auto simp: neighbour_def)
    consider "v = w" | "u = w" | "v \<noteq> w" "u \<noteq> w" by blast
    then show "\<not> writing J (phase_of ?S u) b"
    proof cases
      case 1
      then show ?thesis using n vu wr [of b] sys_invD(4) [OF inv, of w u b] by auto
    next
      case 2
      then show ?thesis using n vu wr [of b] sys_invD(4) [OF inv, of w v b] by auto
    next
      case 3
      then show ?thesis using n sys_invD(4) [OF inv, of v u b] by simp
    qed
  qed
  moreover have "\<exists>y. provides J ?S y b" if b: "is_bucket J b" "reduce_done (sy_coord ?S) (reduceID J b)" for b
  proof -
    obtain y where y: "provides J S y b" using sys_invD(5) [OF inv b(1)] b(2) by auto
    have "provides J ?S y b"
    proof (cases "y = x")
      case True
      then show ?thesis
        using y out [of b] pr [OF b(1)] b(2) by (auto simp: provides_def x)
    next
      case False
      then show ?thesis using y by (auto simp: provides_def x)
    qed
    then show ?thesis ..
  qed
  moreover have "store_ok J y (sy_stores ?S y)" for y
    using sys_invD(2) [OF inv, of y] st by simp
  ultimately show ?thesis
    using sys_invD(1) [OF inv] unfolding sys_inv_def by simp
qed

lemma setStore_same: "setStore x (sy_stores S x) S = S"
  by (simp add: setStore_def)

text \<open>A step that touches the phase only and writes no output.\<close>

lemma phase_step_inv:
  assumes inv: "sys_inv J S" and ph: "phase_ok J (sy_coord S) (job_site J w) (store_of J S w) p"
    and wr: "\<And>b. writing J p b \<Longrightarrow> writing J (phase_of S w) b" and pr: "\<And>b. \<not> printing p b"
    and bn: "\<And>b. is_bucket J b \<Longrightarrow> reduce_done (sy_coord S) (reduceID J b) \<Longrightarrow> bound_for p b \<Longrightarrow> bound_for (phase_of S w) b"
  shows "sys_inv J (setPhase w p S)"
proof -
  have "sys_inv J (setPhase w p (setStore (job_site J w) (sy_stores S (job_site J w)) S))"
    by (rule worker_step_inv [OF inv refl sys_invD(2) [OF inv]])
      (use ph wr pr bn in \<open>auto simp: store_of_def provides_def\<close>)
  then show ?thesis by (simp only: setStore_same)
qed

text \<open>A step that changes files other than outputs.\<close>

lemma store_step_inv:
  assumes inv: "sys_inv J S" and st: "store_ok J x s'" and out: "\<And>b. out_file J x s' b = out_file J x (sy_stores S x) b"
  shows "sys_inv J (setStore x s' S)"
proof -
  have "phase_ok J (sy_coord S) (job_site J w) (store_of J (setStore x s' S) w) (phase_of S w)" for w
    by (rule phase_ok_files [OF sys_invD(3) [OF inv]]) (use out in \<open>simp add: store_of_def\<close>)
  moreover have "exclusive J (setStore x s' S)" using inv by (simp add: sys_inv_def exclusive_def)
  moreover have "provides J (setStore x s' S) y b = provides J S y b" for y b
    using out by (simp add: provides_def)
  ultimately show ?thesis
    using inv st by (simp add: sys_inv_def)
qed

section \<open>Steps of the coordinator\<close>

lemma RequestTask_reduce_done: "reduce_done (fst (RequestTask e c)) = reduce_done c"
proof (cases rule: RequestTask_cases [of e c])
  case (Reduce k r)
  then show ?thesis
    using reduceTable.pick_Some reduceTable.pick_not_done by (fastforce simp: reduce_done_def fun_eq_iff)
qed (simp_all add: reduce_done_def fun_eq_iff)

lemma ReportMissing_reduce_done: "reduce_done (ReportMissingMapOutputs ro args c) = reduce_done c"
  by (auto simp: ReportMissingMapOutputs_def reduce_done_def fun_eq_iff deleteMapOutput_apply split: option.split)

lemma all_maps_done_step:
  assumes "coord_step c c'" and "all_maps_done c" and "\<And>m. map_done c m \<Longrightarrow> map_done c' m"
  shows "all_maps_done c'"
  using same_job_dom(1) [OF coord_step_job [OF assms(1)]] assms(2,3) map_done_dom [of c']
  unfolding all_maps_done_def by blast

lemma phase_ok_coord:
  assumes "phase_ok J c x s p" and "\<And>reply. p = Replying reply \<Longrightarrow> Live_ReduceData reply \<noteq> None \<Longrightarrow> all_maps_done c \<Longrightarrow> all_maps_done c'"
  shows "phase_ok J c' x s p"
proof (cases p)
  case (Replying reply)
  then show ?thesis
    using assms by (auto simp: reply_ok_def split: option.splits task_ref.splits)
qed (use assms(1) in auto)

lemma provides_coord [simp]: "provides J (setCoord c S) x b = provides J S x b"
  by (simp add: provides_def)

lemma coord_step_sys_inv:
  assumes inv: "sys_inv J S" and step: "coord_step (sy_coord S) c'"
    and rd: "\<And>k. reduce_done c' k \<Longrightarrow> reduce_done (sy_coord S) k"
    and md: "\<And>w reply. phase_of S w = Replying reply \<Longrightarrow> Live_ReduceData reply \<noteq> None \<Longrightarrow> all_maps_done (sy_coord S) \<Longrightarrow> all_maps_done c'"
  shows "sys_inv J (setCoord c' S)"
proof -
  have "phase_ok J c' (job_site J w) (store_of J S w) (phase_of S w)" for w
    by (rule phase_ok_coord [OF sys_invD(3) [OF inv]]) (use md in blast)
  moreover have "exclusive J (setCoord c' S)"
    using inv by (simp add: sys_inv_def exclusive_def)
  moreover have "\<exists>x. provides J S x b" if "is_bucket J b" "reduce_done c' (reduceID J b)" for b
    using sys_invD(5) [OF inv that(1)] rd that(2) by blast
  ultimately show ?thesis
    using coord_reach.step [OF sys_invD(1) [OF inv] step] sys_invD(2) [OF inv]
    by (simp add: sys_inv_def store_of_def)
qed

lemma reach_file:
  assumes "coord_reach g files n c" and "mapTasks c m = Some t"
  shows "MapTask_File t = files ! nat (m - g - 1)"
proof -
  have "map_option MapTask_File (mapTasks (snd (MakeCoordinator g files n)) m) = Some (MapTask_File t)"
    using coord_reach_job [OF assms(1)] assms(2) by (simp add: same_job_def)
  then show ?thesis by (auto simp: MakeCoordinator_maps split: if_splits)
qed

lemma reach_bucket:
  assumes "coord_reach g files n c" and "reduceTasks c k = Some r"
  shows "ReduceTask_Bucket r = k - (g + int (length files)) - 1"
proof -
  have "map_option ReduceTask_Bucket (reduceTasks (snd (MakeCoordinator g files n)) k) = Some (ReduceTask_Bucket r)"
    using coord_reach_job [OF assms(1)] assms(2) by (simp add: same_job_def)
  then show ?thesis by (auto simp: MakeCoordinator_reduces split: if_splits)
qed

lemma request_reply_ok:
  assumes reach: "coord_reach (job_globalID J) (job_files J) (job_nReduce J) c" and env: "request_env_ok J c e"
    and req: "RequestTask e c = (c', Inr reply)"
  shows "reply_ok J c' reply"
proof -
  have env': "env_ok c e" using env by (simp add: request_env_ok_def)
  note step = request_coord_step [OF env' req] and inv = coord_reach_coord_inv [OF reach]
  show ?thesis
  proof (cases rule: RequestTask_cases [of e c])
    case (Map k t content)
    have t: "mapTasks c k = Some t" using mapTable.pick_Some [OF Map(1)] by simp
    have "MapTask_Buckets t = job_nReduce J" using coord_inv_mapD [OF inv t] by (simp add: map_entry_ok_def)
    moreover have "k \<in> mapIDs J" using coord_reach_dom(1) [OF reach] t by (auto simp: mapIDs_def)
    moreover have "MapTask_File t = map_input J k" using reach_file [OF reach t] by (simp add: map_input_def)
    moreover have "content = job_input J (MapTask_File t)" using env Map(2) by (simp add: request_env_ok_def)
    ultimately show ?thesis using Map(3) req by (auto simp: reply_ok_def)
  next
    case (Reduce k r)
    have d: "Live_ReduceData reply = Some (ReduceTask_Bucket r, k)" using Reduce(4) req by auto
    note h = reduce_handed_out [OF reach env' req d]
    have r: "reduceTasks c k = Some r" using reduceTable.pick_Some [OF Reduce(3)] by simp
    have "is_bucket J (ReduceTask_Bucket r)"
      using coord_inv_reduceD [OF inv r] by (simp add: reduce_entry_ok_def is_bucket_def)
    moreover have "k = reduceID J (ReduceTask_Bucket r)" using reach_bucket [OF reach r] by (simp add: reduceID_def)
    moreover have "all_maps_done c'"
      by (rule all_maps_done_step [OF step]) (use h(3) RequestTask_map_done [of e c] req in \<open>simp_all add: all_maps_done_def\<close>)
    ultimately show ?thesis using h(1,2) d by (simp add: reply_ok_def)
  qed (use req in \<open>auto simp: reply_ok_def waitTask_def\<close>)
qed

lemma request_coord_inv:
  assumes inv: "sys_inv J S" and env: "request_env_ok J (sy_coord S) e" and req: "RequestTask e (sy_coord S) = (c', r)"
  shows "sys_inv J (setCoord c' S)"
proof -
  have step: "coord_step (sy_coord S) c'"
    using request_coord_step [OF _ req] env by (simp add: request_env_ok_def)
  have md: "map_done c' = map_done (sy_coord S)" and rd: "reduce_done c' = reduce_done (sy_coord S)"
    using RequestTask_map_done [of e "sy_coord S"] RequestTask_reduce_done [of e "sy_coord S"] req by simp_all
  show ?thesis
    by (rule coord_step_sys_inv [OF inv step]) (use md rd all_maps_done_step [OF step] in simp_all)
qed

lemma request_inv:
  assumes inv: "sys_inv J S" and env: "request_env_ok J (sy_coord S) e" and req: "RequestTask e (sy_coord S) = (c', Inr reply)"
  shows "sys_inv J (setPhase w (Replying reply) (setCoord c' S))"
proof (rule phase_step_inv [OF request_coord_inv [OF inv env req]])
  show "phase_ok J (sy_coord (setCoord c' S)) (job_site J w) (store_of J (setCoord c' S) w) (Replying reply)"
    using request_reply_ok [OF sys_invD(1) [OF inv] env req] by simp
  fix b
  assume b: "bound_for (Replying reply) b" and done_b: "reduce_done (sy_coord (setCoord c' S)) (reduceID J b)" and "is_bucket J b"
  then obtain k where k: "Live_ReduceData reply = Some (b, k)" by auto
  have env': "env_ok (sy_coord S) e" using env by (simp add: request_env_ok_def)
  have "\<not> reduce_done (sy_coord S) k" by (rule reduce_handed_out(4) [OF sys_invD(1) [OF inv] env' req k])
  moreover have "reduce_done c' = reduce_done (sy_coord S)" using RequestTask_reduce_done [of e "sy_coord S"] req by simp
  moreover have "k = reduceID J b"
    using request_reply_ok [OF sys_invD(1) [OF inv] env req] k by (auto simp: reply_ok_def split: option.splits task_ref.splits)
  ultimately show "bound_for (phase_of (setCoord c' S) w) b" using done_b by simp
qed simp_all

lemma idle_inv:
  assumes "sys_inv J S" and "p = Idle \<or> p = Exited \<or> p = MissingOutput m"
  shows "sys_inv J (setPhase w p S)"
  by (rule phase_step_inv [OF assms(1)]) (use assms(2) in auto)

text \<open>The encoded reply of a waiting worker.\<close>

lemma reduce_outputs_all:
  assumes reach: "coord_reach (job_globalID J) (job_files J) (job_nReduce J) c" and "all_maps_done c" and "is_bucket J b"
  shows "\<exists>r. reduceTasks c (reduceID J b) = Some r \<and> Task_ID (ReduceTask_Task r) = reduceID J b \<and>
    Task_Type (ReduceTask_Task r) = TaskReduce \<and> dom (ReduceTask_MapTaskOutputs r) = mapIDs J"
proof -
  have "reduceID J b \<in> dom (reduceTasks c)"
    using coord_reach_dom(2) [OF reach] assms(3) by (simp add: reduceID_def is_bucket_def)
  then obtain r where r: "reduceTasks c (reduceID J b) = Some r" by blast
  have "Collect (map_done c) = mapIDs J"
    using coord_reach_dom(1) [OF reach] assms(2) by (simp add: all_maps_done_def mapIDs_def)
  then show ?thesis
    using coord_inv_reduceD [OF coord_reach_coord_inv [OF reach] r] r by (simp add: reduce_entry_ok_def)
qed

lemma beginTask_ok:
  assumes reach: "coord_reach (job_globalID J) (job_files J) (job_nReduce J) c" and ok: "job_ok J" and rp: "reply_ok J c live"
    and ms: "\<forall>d. Reply_ReduceData (encodeReply c live) = Some d \<longrightarrow> range_order (ReduceData_MapTaskOutputs d) ms"
    and p: "p = beginTask J (encodeReply c live) ms"
  shows "phase_ok J c x s p \<and> (\<forall>b. \<not> writing J p b) \<and> (\<forall>b. bound_for p b \<longrightarrow> bound_for (Replying live) b)"
proof -
  consider (Map) k where "Live_Task live = Some (MapTaskRef k)" | (Reduce) k where "Live_Task live = Some (ReduceTaskRef k)"
    | (Wait) t where "Live_Task live = Some (OwnTask t)"
    using rp by (auto simp: reply_ok_def split: option.splits task_ref.splits)
  then show ?thesis
  proof cases
    case Map
    have l: "k \<in> mapIDs J" "Live_MapData live = Some \<lparr>MapData_Key = map_input J k, MapData_Content = job_input J (map_input J k),
        MapData_Buckets = job_nReduce J\<rparr>"
      using rp Map by (simp_all add: reply_ok_def)
    have "k \<in> dom (mapTasks c)" using coord_reach_dom(1) [OF reach] l(1) by (simp add: mapIDs_def)
    then obtain t where t: "mapTasks c k = Some t" by blast
    have e: "Task_ID (MapTask_Task t) = k" "Task_Type (MapTask_Task t) = TaskMap"
      using coord_inv_mapD [OF coord_reach_coord_inv [OF reach] t] by (simp_all add: map_entry_ok_def)
    have "bucketContents (map_output J k) (job_nReduce J) = Inr (map (bucket_of (job_nReduce J) (map_output J k)) [0..job_nReduce J - 1])"
      by (rule bucketContents_eq) (use ok in \<open>simp add: job_ok_def\<close>)
    then have "p = Mapping (MapTask_Task t) (map (\<lambda>b. expected J b k) [0..job_nReduce J - 1]) 0"
      using Map l t e by (simp add: p beginTask_def encodeReply_def map_output_def expected_def)
    then show ?thesis using e l(1) by simp
  next
    case Reduce
    obtain b where b: "Live_ReduceData live = Some (b, k)" "is_bucket J b" "k = reduceID J b" "all_maps_done c"
      using rp Reduce by (auto simp: reply_ok_def)
    obtain r where r: "reduceTasks c k = Some r" "Task_ID (ReduceTask_Task r) = k" "Task_Type (ReduceTask_Task r) = TaskReduce"
      "dom (ReduceTask_MapTaskOutputs r) = mapIDs J"
      using reduce_outputs_all [OF reach b(4,2)] b(3) by blast
    have "range_order (ReduceTask_MapTaskOutputs r) ms"
      using ms b(1) r(1) by (simp add: encodeReply_def)
    then have m: "distinct ms" "set ms = mapIDs J" using r(4) by (simp_all add: range_order_def)
    have "p = Gathering (ReduceTask_Task r) \<lparr>ReduceData_Bucket = b, ReduceData_MapTaskOutputs = ReduceTask_MapTaskOutputs r\<rparr> ms []"
      using Reduce b(1) r by (simp add: p beginTask_def encodeReply_def)
    then show ?thesis using r b m by (auto intro!: exI [of _ "[]"])
  next
    case Wait
    then have "p = Idle" using rp by (simp add: p beginTask_def encodeReply_def reply_ok_def)
    then show ?thesis by simp
  qed
qed

lemma reply_inv:
  assumes inv: "sys_inv J S" and ok: "job_ok J" and ph: "phase_of S w = Replying live"
    and ms: "\<forall>d. Reply_ReduceData (encodeReply (sy_coord S) live) = Some d \<longrightarrow> range_order (ReduceData_MapTaskOutputs d) ms"
  shows "sys_inv J (setPhase w (beginTask J (encodeReply (sy_coord S) live) ms) S)"
proof -
  have "reply_ok J (sy_coord S) live" using sys_invD(3) [OF inv, of w] ph by simp
  note b = beginTask_ok [OF sys_invD(1) [OF inv] ok this ms refl]
  have "\<not> printing (beginTask J (encodeReply (sy_coord S) live) ms) b" for b
    using b printing_writing [of _ b J] by blast
  then show ?thesis
    by (intro phase_step_inv [OF inv]) (use b ph in \<open>auto simp del: bound_for.simps\<close>)
qed

lemma report_missing_inv:
  assumes inv: "sys_inv J S" and ro: "range_order (reduceTasks (sy_coord S)) ro" and calm: "torn_by S m = None"
  shows "sys_inv J (setCoord (ReportMissingMapOutputs ro \<lparr>Missing_MapTaskID = m\<rparr> (sy_coord S)) S)"
proof -
  let ?c = "sy_coord S" and ?c' = "ReportMissingMapOutputs ro \<lparr>Missing_MapTaskID = m\<rparr> (sy_coord S)"
  have step: "coord_step ?c ?c'" by (rule coord_step.missing [OF ro])
  have keep: "map_done ?c' m'" if "\<not> map_done ?c m" "map_done ?c m'" for m'
    using ReportMissing_map_done [OF coord_reach_coord_inv [OF sys_invD(1) [OF inv]], of ro "\<lparr>Missing_MapTaskID = m\<rparr>" m'] that
    by auto
  show ?thesis
  proof (rule coord_step_sys_inv [OF inv step])
    fix w reply
    assume w: "phase_of S w = Replying reply" "Live_ReduceData reply \<noteq> None" and all: "all_maps_done ?c"
    then have "\<not> map_done ?c m" using calm by (auto simp: torn_by_def split: if_splits)
    then show "all_maps_done ?c'" using all_maps_done_step [OF step all] keep by blast
  qed (simp add: ReportMissing_reduce_done)
qed

section \<open>Steps of the workers\<close>

lemma store_same:
  assumes "store_ok J x s" and "same_store s s'"
    and "\<And>m b. os_files s' (intermediate_key (job_dir J x) m b) = os_files s (intermediate_key (job_dir J x) m b)"
  shows "store_ok J x s'"
  using assms worker_cwd_same unfolding store_ok_def by metis

lemma store_quiet:
  assumes "store_ok J x s" and "quiet s s'"
  shows "store_ok J x s'" and "out_file J x s' b = out_file J x s b"
  using quiet_files [OF assms(2)] store_same [OF assms(1)] by (simp_all add: out_file_def)

lemma store_dir: "store_ok J x s \<Longrightarrow> worker_cwd (job_dir J x) s \<and> normal_comps (job_dir J x)"
  by (simp add: store_ok_def worker_cwd_def)

lemma mapIDs_nonneg: "job_ok J \<Longrightarrow> m \<in> mapIDs J \<Longrightarrow> 0 \<le> m"
  by (auto simp: job_ok_def mapIDs_def)

lemma writeBucket_store:
  assumes ok: "job_ok J" and st: "store_ok J x s" and ph: "phase_ok J c x s (Mapping task buckets i)" and i: "i < length buckets"
    and run: "writeBucketToFile (Task_ID task) (int i) (buckets ! i) s = (r, s')"
  shows "store_ok J x s' \<and> (\<forall>b. out_file J x s' b = out_file J x s b)"
proof -
  let ?ws = "job_dir J x" and ?id = "Task_ID task"
  have id: "?id \<in> mapIDs J" and bi: "buckets ! i = expected J (int i) ?id"
    using ph i by (auto simp: nth_upto)
  have ws: "normal_comps ?ws" and cwd: "worker_cwd ?ws s" using store_dir [OF st] by simp_all
  note spec = writeBucketToFile_spec [OF cwd, of ?id "int i" "buckets ! i"]
  show ?thesis
  proof (cases r)
    case (Inr u)
    then have f: "same_store s s'"
      "os_files s' = (os_files s)(intermediate_key ?ws ?id (int i) \<mapsto> bucket_text (expected J (int i) ?id))"
      using wp_ok [OF spec] run bi by simp_all
    have "t = bucket_text (expected J b m)"
      if "m \<in> mapIDs J" "is_bucket J b" "os_files s' (intermediate_key ?ws m b) = Some t" for m b t
      using that st intermediate_key_inj [OF ws mapIDs_nonneg [OF ok that(1)] mapIDs_nonneg [OF ok id], of b "int i"]
      by (auto simp: f(2) store_ok_def split: if_splits)
    then show ?thesis
      using worker_cwd_same [OF cwd f(1)] intermediate_key_distinct(1) [OF ws, THEN not_sym]
      by (simp add: store_ok_def out_file_def f(2))
  next
    case (Inl e)
    then obtain q where q: "only_changes {local_key ?ws (bucket_temp q)} s s'"
      using wp_error [OF spec] run by auto
    then have "os_files s' (intermediate_key ?ws m b) = os_files s (intermediate_key ?ws m b)" for m b
      using intermediate_key_distinct(2) [OF ws] by (simp add: only_changes_def)
    moreover have "os_files s' (local_key ?ws (reduceOutputFileName b)) = os_files s (local_key ?ws (reduceOutputFileName b))" for b
      using q intermediate_key_distinct(3) [OF ws] by (simp add: only_changes_def)
    ultimately show ?thesis
      using store_same [OF st] q by (simp add: only_changes_def out_file_def)
  qed
qed

lemma writeBucket_inv:
  assumes ok: "job_ok J" and inv: "sys_inv J S" and p: "phase_of S w = Mapping task buckets i" "i < length buckets"
    and run: "writeBucketToFile (Task_ID task) (int i) (buckets ! i) (store_of J S w) = (r, s')"
    and p': "p' = Idle \<or> p' = Mapping task buckets (i + 1)"
  shows "sys_inv J (setPhase w p' (setStore (job_site J w) s' S))"
proof -
  note ph = sys_invD(3) [OF inv, of w, unfolded p(1)]
  note st = writeBucket_store [OF ok sys_invD(2) [OF inv, of "job_site J w", folded store_of_def] ph p(2) run]
  have "sys_inv J (setStore (job_site J w) s' S)"
    by (rule store_step_inv [OF inv]) (use st in \<open>simp_all add: store_of_def\<close>)
  then show ?thesis
    by (rule phase_step_inv) (use p' ph in auto)
qed

lemma output_key_inj:
  "normal_comps ws \<Longrightarrow> local_key ws (reduceOutputFileName b) = local_key ws (reduceOutputFileName c) \<longleftrightarrow> b = c"
  using local_key_inj output_name_inj by simp

lemma store_output:
  assumes "store_ok J x s" and "same_store s s'"
    and "os_files s' = (os_files s)(local_key (job_dir J x) (reduceOutputFileName b) := y)"
  shows "store_ok J x s'" and "out_file J x s' b' = (if b' = b then y else out_file J x s b')"
proof -
  have ws: "normal_comps (job_dir J x)" using store_dir [OF assms(1)] by simp
  show "store_ok J x s'"
    by (rule store_same [OF assms(1,2)]) (simp add: assms(3) intermediate_key_distinct(1) [OF ws])
  show "out_file J x s' b' = (if b' = b then y else out_file J x s b')"
    using output_key_inj [OF ws] by (simp add: out_file_def assms(3))
qed

lemma create_inv:
  assumes inv: "sys_inv J S" and p: "phase_of S w = Gathering task data [] acc" and ks: "range_order (groupByKey acc) ks"
    and run: "os_Create (reduceOutputFileName (ReduceData_Bucket data)) (store_of J S w) = (Inr u, s')"
    and calm: "reopened_by J S w (ReduceData_Bucket data) = None"
  shows "sys_inv J (setPhase w (Printing task (ReduceData_Bucket data) (reduceContents ks (groupByKey acc) (job_reducef J)))
    (setStore (job_site J w) s' S))"
proof -
  let ?b = "ReduceData_Bucket data" and ?x = "job_site J w"
  have st: "store_ok J ?x (store_of J S w)" using sys_invD(2) [OF inv] by (simp add: store_of_def)
  note ph = sys_invD(3) [OF inv, of w, unfolded p phase_ok.simps]
  obtain ps where ps: "distinct ps" "set ps = mapIDs J" "acc = concat (map (expected J ?b) ps)" using ph by auto
  have key: "os_key (os_cwd (store_of J S w)) (reduceOutputFileName ?b) = local_key (job_dir J ?x) (reduceOutputFileName ?b)"
    by (rule worker_key) (use store_dir [OF st] in simp_all)
  have f: "same_store (store_of J S w) s'"
    "os_files s' = (os_files (store_of J S w))(local_key (job_dir J ?x) (reduceOutputFileName ?b) \<mapsto> [])"
    using wp_ok [OF Create_spec] run key by auto
  note so = store_output [OF st f]
  have o: "output_ok J ?b (output_text (reduceContents ks (groupByKey acc) (job_reducef J)))"
    using ps reduceContents_eq [OF ks] by (auto simp: output_ok_def)
  have alone: "\<not> writing J (phase_of S v) ?b \<and> \<not> reduce_done (sy_coord S) (reduceID J ?b)" if "neighbour J w v" for v
    using calm that by (auto simp: reopened_by_def neighbour_def split: if_splits)
  have np: "\<not> provides J S ?x ?b" if "reduce_done (sy_coord S) (reduceID J ?b)"
  proof
    assume "provides J S ?x ?b"
    then have "\<exists>u. neighbour J w u" using p by (auto simp: provides_def)
    then show False using alone that by blast
  qed
  show ?thesis
  proof (rule worker_step_inv [OF inv refl so(1)])
    show "phase_ok J (sy_coord S) ?x s' (Printing task ?b (reduceContents ks (groupByKey acc) (job_reducef J)))"
      using ph so o by simp
    show "out_file J ?x s' b = out_file J ?x (sy_stores S ?x) b \<or>
      (\<forall>v. neighbour J w v \<longrightarrow> \<not> writing J (phase_of S v) b) \<and> (reduce_done (sy_coord S) (reduceID J b) \<longrightarrow> \<not> provides J S ?x b)" for b
      using so(2) [of b] alone np by (auto simp: store_of_def)
  qed (use alone np in auto)
qed

lemma create_failed_inv:
  assumes inv: "sys_inv J S" and run: "os_Create f (store_of J S w) = (Inl e, s')"
  shows "sys_inv J (setPhase w Idle (setStore (job_site J w) s' S))"
proof -
  have "only_changes {} (store_of J S w) s'" using wp_error [OF Create_spec] run by blast
  then have f: "os_files s' = os_files (store_of J S w)" "same_store (store_of J S w) s'" using only_changes_none by blast+
  have "sys_inv J (setStore (job_site J w) s' S)"
    by (rule store_step_inv [OF inv store_same [OF sys_invD(2) [OF inv]]]) (use f in \<open>simp_all add: store_of_def out_file_def\<close>)
  then show ?thesis by (rule idle_inv) simp
qed

lemma print_inv:
  assumes inv: "sys_inv J S" and p: "phase_of S w = Printing task b (kv # kvs)"
    and run: "os_Write (reduceOutputFileName b) (output_line kv) (store_of J S w) = (Inr u, s')"
  shows "sys_inv J (setPhase w (Printing task b kvs) (setStore (job_site J w) s' S))"
proof -
  let ?x = "job_site J w"
  have st: "store_ok J ?x (store_of J S w)" using sys_invD(2) [OF inv] by (simp add: store_of_def)
  note ph = sys_invD(3) [OF inv, of w, unfolded p phase_ok.simps]
  obtain t where t: "out_file J ?x (store_of J S w) b = Some t" "output_ok J b (t @ output_text (kv # kvs))" using ph by auto
  have key: "os_key (os_cwd (store_of J S w)) (reduceOutputFileName b) = local_key (job_dir J ?x) (reduceOutputFileName b)"
    by (rule worker_key) (use store_dir [OF st] in simp_all)
  have f: "same_store (store_of J S w) s'"
    "os_files s' = (os_files (store_of J S w))(local_key (job_dir J ?x) (reduceOutputFileName b) := Some (t @ output_line kv))"
    using wp_ok [OF Write_spec run] key t(1) by (simp_all add: out_file_def)
  note so = store_output [OF st f]
  have o: "output_ok J b ((t @ output_line kv) @ output_text kvs)" using t(2) by (simp add: output_text_def)
  have np: "\<not> provides J S ?x b" using p by (auto simp: provides_def)
  have alone: "\<not> writing J (phase_of S v) b" if "neighbour J w v" for v
    using sys_invD(4) [OF inv, of w v b] that p by simp
  show ?thesis
  proof (rule worker_step_inv [OF inv refl so(1)])
    show "phase_ok J (sy_coord S) ?x s' (Printing task b kvs)" using ph so o by simp
    show "out_file J ?x s' b' = out_file J ?x (sy_stores S ?x) b' \<or>
      (\<forall>v. neighbour J w v \<longrightarrow> \<not> writing J (phase_of S v) b') \<and> (reduce_done (sy_coord S) (reduceID J b') \<longrightarrow> \<not> provides J S ?x b')" for b'
      using so(2) [of b'] alone np by (auto simp: store_of_def)
  qed (use p np in auto)
qed

lemma reporting_inv:
  assumes inv: "sys_inv J S"
    and p: "phase_of S w = Mapping task buckets (length buckets) \<or> phase_of S w = Printing task b []"
  shows "sys_inv J (setPhase w (Reporting task) S)"
proof -
  note ph = sys_invD(3) [OF inv, of w]
  show ?thesis
    by (rule phase_step_inv [OF inv]) (use p ph in \<open>auto simp: output_text_def reduceID_def\<close>)
qed

lemma fetch_result:
  assumes ok: "job_ok J" and st: "store_ok J x s" and m: "m \<in> mapIDs J" and b: "is_bucket J b"
    and run: "readBucketFile m b s = (Inr kvs, s')"
  shows "kvs = expected J b m" and "quiet s s'"
proof -
  let ?k = "intermediate_key (job_dir J x) m b"
  have cwd: "worker_cwd (job_dir J x) s" using store_dir [OF st] by simp
  have key: "os_key (os_cwd s) (taskIntermediateFileName m b) = ?k" by (rule worker_key [OF cwd]) simp
  have "wp (readBucketFile m b) (\<lambda>r s'. os_files s ?k \<noteq> None) (\<lambda>e s'. True) s"
    unfolding readBucketFile_def wp_bind wp_mapErr
    by (rule wp_conseq [OF ReadFile_spec]) (auto simp: key split: option.split)
  from wp_ok [OF this run] obtain t where t: "os_files s ?k = Some t" by blast
  then have t': "os_files s ?k = Some (bucket_text (expected J b m))" using st m b by (auto simp: store_ok_def)
  have "\<forall>kv \<in> set (expected J b m). kv_valid kv"
    using ok m by (auto simp: job_ok_def expected_def bucket_of_def)
  from wp_ok [OF readBucketFile_ok [OF cwd t' this] run] show "kvs = expected J b m" "quiet s s'" by simp_all
qed

lemma gather_step:
  assumes "phase_ok J c x s (Gathering task data (m # ms) acc)"
  shows "m \<in> mapIDs J \<and> is_bucket J (ReduceData_Bucket data) \<and>
    phase_ok J c x s' (Gathering task data ms (acc @ expected J (ReduceData_Bucket data) m))"
proof -
  obtain ps where "distinct (ps @ m # ms)" "set (ps @ m # ms) = mapIDs J"
    "acc = concat (map (expected J (ReduceData_Bucket data)) ps)"
    using assms by auto
  then have "distinct ((ps @ [m]) @ ms) \<and> set ((ps @ [m]) @ ms) = mapIDs J \<and>
      acc @ expected J (ReduceData_Bucket data) m = concat (map (expected J (ReduceData_Bucket data)) (ps @ [m]))"
    by simp
  then show ?thesis
    using assms unfolding phase_ok.simps by (metis in_set_conv_decomp append_assoc)
qed

lemma fetch_inv:
  assumes ok: "job_ok J" and inv: "sys_inv J S" and p: "phase_of S w = Gathering task data (m # ms) acc"
    and run: "readBucketFile m (ReduceData_Bucket data) (store_of J S v) = (Inr kvs, s')"
  shows "sys_inv J (setPhase w (Gathering task data ms (acc @ kvs)) (setStore (job_site J v) s' S))"
proof -
  let ?y = "job_site J v"
  have st: "store_ok J ?y (store_of J S v)" using sys_invD(2) [OF inv] by (simp add: store_of_def)
  note g = gather_step [OF sys_invD(3) [OF inv, of w, unfolded p]]
  have r: "kvs = expected J (ReduceData_Bucket data) m" "quiet (store_of J S v) s'"
    using fetch_result [OF ok st _ _ run] g by blast+
  have "sys_inv J (setStore ?y s' S)"
    by (rule store_step_inv [OF inv]) (use store_quiet [OF st r(2)] in \<open>simp_all add: store_of_def\<close>)
  then show ?thesis
    by (rule phase_step_inv) (use g r(1) p in simp_all)
qed

lemma report_inv:
  assumes inv: "sys_inv J S" and p: "phase_of S w = Reporting task" and ro: "range_order (reduceTasks (sy_coord S)) ro"
    and rep: "ReportTaskCompletion ro \<lparr>Report_Task = Some task, Report_WorkerAddress = a\<rparr> (sy_coord S) = Inr c'"
  shows "sys_inv J (setPhase w Idle (setCoord c' S))"
proof -
  let ?S = "setPhase w Idle S"
  have inv1: "sys_inv J ?S" by (rule idle_inv [OF inv]) simp
  have step: "coord_step (sy_coord S) c'" by (rule coord_step.report [OF ro rep])
  have md: "map_done c' m" if "map_done (sy_coord S) m" for m
    using Report_map_done [OF rep] that by auto
  have ph: "phase_ok J c' (job_site J v) (store_of J ?S v) (phase_of ?S v)" for v
    by (rule phase_ok_coord [OF sys_invD(3) [OF inv1, of v]])
      (use all_maps_done_step [OF step] md in simp)
  have "\<exists>x. provides J ?S x b" if b: "is_bucket J b" "reduce_done c' (reduceID J b)" for b
  proof (cases "reduce_done (sy_coord S) (reduceID J b)")
    case True
    then show ?thesis using sys_invD(5) [OF inv1 b(1)] by simp
  next
    case False
    then have task: "Task_Type task = TaskReduce" "Task_ID task = reduceID J b"
      using Report_reduce_done [OF rep] b(2) by (auto simp: reports_reduce_def)
    then obtain t where t: "out_file J (job_site J w) (store_of J S w) b = Some t" "output_ok J b t"
      using sys_invD(3) [OF inv, of w] p by (auto simp: reduceID_def)
    have "\<not> printing (phase_of ?S v) b" if "job_site J v = job_site J w" for v
      using sys_invD(4) [OF inv, of w v b] p task that printing_writing [of "phase_of S v" b J] by (auto simp: neighbour_def)
    moreover have "\<exists>u. neighbour J v u" if "job_site J v = job_site J w" "bound_for (phase_of ?S v) b" for v
      using that by (intro exI [of _ w]) (auto simp: neighbour_def split: if_splits)
    ultimately show ?thesis
      using t by (intro exI [of _ "job_site J w"]) (simp add: provides_def store_of_def)
  qed
  moreover have "setPhase w Idle (setCoord c' S) = setCoord c' ?S" by (simp add: setPhase_def setCoord_def)
  moreover have "exclusive J (setCoord c' ?S)" using inv1 by (simp add: sys_inv_def exclusive_def)
  ultimately show ?thesis
    using coord_reach.step [OF sys_invD(1) [OF inv] step] ph sys_invD(2) [OF inv]
    by (simp add: sys_inv_def store_of_def del: system_simps(1))
qed

lemma environment_inv:
  assumes inv: "sys_inv J S" and lost: "intermediate_lost (job_dir J x) (sy_stores S x) s'"
  shows "sys_inv J (setStore x s' S)"
proof -
  let ?ws = "job_dir J x"
  have st: "store_ok J x (sy_stores S x)" by (rule sys_invD(2) [OF inv])
  have ws: "normal_comps ?ws" "worker_cwd ?ws (sy_stores S x)" using store_dir [OF st] by simp_all
  have files: "os_files s' k = os_files (sy_stores S x) k \<or> os_files s' k = None" for k
    using lost by (auto simp: intermediate_lost_def)
  have "worker_cwd ?ws s'" using ws(2) lost by (simp add: worker_cwd_def intermediate_lost_def)
  then have st': "store_ok J x s'" using st files unfolding store_ok_def by (metis option.distinct(1))
  have "out_file J x s' b = out_file J x (sy_stores S x) b" for b
    using lost intermediate_key_distinct(1) [OF ws(1)] unfolding intermediate_lost_def out_file_def by metis
  then show ?thesis by (rule store_step_inv [OF inv st'])
qed

lemma sys_step_inv:
  assumes "sys_step J None S S'" and ok: "job_ok J" and inv: "sys_inv J S"
  shows "sys_inv J S'"
  using assms(1)
proof cases
  case (report_missing w m ro)
  from idle_inv [OF report_missing_inv [OF inv report_missing(4)]] report_missing(1) show ?thesis
    unfolding report_missing(2) by simp
next
  case (create w task data acc ks u s')
  from create_inv [OF inv create(3-5)] create(1) show ?thesis unfolding create(2) by simp
next
  case (print w task b kv kvs r s')
  from print(1) obtain u where "r = Inr u" by (auto simp: print_incident_def split: sum.splits)
  from print_inv [OF inv print(3) print(4) [unfolded this]] show ?thesis unfolding print(2) .
next
  case (request_error w e c' err)
  from idle_inv [OF request_coord_inv [OF inv request_error(3,4)]] show ?thesis unfolding request_error(1) by simp
next
  case (reply w live reply ms)
  from reply_inv [OF inv ok reply(2) reply(4) [unfolded reply(3)]] show ?thesis unfolding reply(1,3) .
next
  case (fetch_remote w task data m ms acc v kvs s')
  from fetch_inv [OF ok inv fetch_remote(2) fetch_remote(6) [unfolded FetchBucket_def, simplified]]
  show ?thesis unfolding fetch_remote(1) .
qed (use idle_inv [OF inv] request_inv [OF inv] writeBucket_inv [OF ok inv] reporting_inv [OF inv] fetch_inv [OF ok inv]
    create_failed_inv [OF inv] report_inv [OF inv] environment_inv [OF inv] in \<open>auto\<close>)

section \<open>The outputs are right\<close>

lemma sys_init_inv: "sys_init J S \<Longrightarrow> sys_inv J S"
  by (auto simp: sys_init_def sys_inv_def store_ok_def coord_reach.start reduce_done_def exclusive_def
      MakeCoordinator_reduces newTask_def split: if_splits)

lemma sys_reach_inv: "sys_reach J {} S \<Longrightarrow> job_ok J \<Longrightarrow> sys_inv J S"
  by (induction rule: sys_reach.induct) (auto intro: sys_init_inv sys_step_inv)

lemma done_output:
  assumes "job_ok J" and "sys_reach J {} S"
    and "range_order (mapTasks (sy_coord S)) mo" and "range_order (reduceTasks (sy_coord S)) ro"
    and "Done mo ro (sy_coord S)" and "is_bucket J b"
  shows "\<exists>x t ms. output_file J S x b = Some t \<and> distinct ms \<and> set ms = mapIDs J \<and>
    t = output_text (reduced (job_reducef J) (concat (map (expected J b) ms)))"
proof -
  have inv: "sys_inv J S" using sys_reach_inv assms by blast
  note reach = sys_invD(1) [OF inv]
  have "reduceID J b \<in> dom (reduceTasks (sy_coord S))"
    using coord_reach_dom(2) [OF reach] assms(6) by (simp add: reduceID_def is_bucket_def)
  then have "reduce_done (sy_coord S) (reduceID J b)"
    using assms(4,5) by (auto simp: Done_def reduceTable.all_done_order reduce_done_def)
  then obtain x where "provides J S x b" using sys_invD(5) [OF inv assms(6)] by blast
  then show ?thesis by (auto simp: provides_def out_file_def output_file_def output_ok_def)
qed

end
