(* ===== verification/MR_Runs.thy ===== *)
theory MR_Runs
  imports MR_System
begin

text \<open>
  The main theorem on the MapReduce system, and runs of it that show that its hypotheses can hold and that they are
  needed: a run of any job with one input file and one bucket to its end, and a run in which one reply is overtaken
  by a report of missing outputs, so that the job finishes with an empty output.
\<close>

section \<open>The outputs are right\<close>

text \<open>C1: when the coordinator says the job is done, the outputs are right.  Let the job have at least one bucket and map
  functions that emit valid UTF-8, as the intermediate JSON files keep nothing else.  Take any run without an incident:
  no report of missing outputs reopens a map task while the reply of a reduce task waits to be encoded, no line fails
  to print, and no worker opens an output file that another worker of its directory writes or has completed.  Workers
  may crash at any point, requests, replies and reports may get lost, tasks may time out and run several times,
  intermediate files may fail to be written, fail to be read, or disappear.  If \<^verbatim>\<open>Done\<close> returns true in the state
  reached, then for every bucket \<open>b\<close> some site's file \<^verbatim>\<open>mr-out-b\<close> is the complete reduction of that bucket's pairs
  of all map tasks, each task counted once, gathered in some order of the map tasks.\<close>

theorem job_output_correct:
  assumes "job_ok J" and "sys_reach J {} S"
    and "range_order (mapTasks (sy_coord S)) mo" and "range_order (reduceTasks (sy_coord S)) ro"
    and "Done mo ro (sy_coord S)" and "is_bucket J b"
  shows "\<exists>x t ms. output_file J S x b = Some t \<and> distinct ms \<and> set ms = mapIDs J \<and>
    t = output_text (reduced (job_reducef J) (concat (map (expected J b) ms)))"
  by (rule done_output [OF assms])

section \<open>Runs of a small job\<close>

text \<open>A job with one input file and one bucket, any Map and any Reduce.  Worker 0 and worker 1 run in directories of
  their own.\<close>

definition one_job :: "string \<Rightarrow> string \<Rightarrow> (string \<Rightarrow> string \<Rightarrow> KeyValue list) \<Rightarrow> (string \<Rightarrow> string list \<Rightarrow> string) \<Rightarrow> Job" where
  "one_job f content mapf reducef = \<lparr>job_globalID = 0, job_files = [f], job_nReduce = 1, job_mapf = mapf, job_reducef = reducef,
     job_input = (\<lambda>g. content), job_site = (\<lambda>w. w), job_dir = (\<lambda>x. [''w''])\<rparr>"

definition one_store :: os_state where
  "one_store = \<lparr>os_cwd = ''/w'', os_files = Map.empty, os_dirs = {}, os_faults = [], os_draws = [5]\<rparr>"

definition one_addr :: "nat \<Rightarrow> string" where
  "one_addr w = (if w = 0 then ''w:1'' else ''v:1'')"

text \<open>One worker is in phase \<open>p\<close> and has store \<open>s\<close>, the other one \<open>p'\<close> and \<open>s'\<close>.\<close>

definition duo :: "nat \<Rightarrow> Coordinator \<Rightarrow> os_state \<Rightarrow> phase \<Rightarrow> os_state \<Rightarrow> phase \<Rightarrow> system" where
  "duo w c s p s' p' = \<lparr>sy_coord = c, sy_stores = (\<lambda>x. one_store)(w := s, 1 - w := s'),
     sy_workers = (\<lambda>v. \<lparr>wk_addr = one_addr v, wk_phase = if v = w then p else if v = 1 - w then p' else Idle\<rparr>)\<rparr>"

definition one_coord :: "string \<Rightarrow> string \<Rightarrow> TaskState \<Rightarrow> int \<Rightarrow> TaskState \<Rightarrow> int \<Rightarrow> Coordinator" where
  "one_coord a f ms mt rs rt = \<lparr>
     mapTasks = [1 \<mapsto> \<lparr>MapTask_Task = \<lparr>Task_ID = 1, Task_Type = TaskMap, Task_State = ms, Task_AssignedAt = mt\<rparr>,
                       MapTask_File = f, MapTask_Buckets = 1\<rparr>],
     reduceTasks = [2 \<mapsto> \<lparr>ReduceTask_Task = \<lparr>Task_ID = 2, Task_Type = TaskReduce, Task_State = rs, Task_AssignedAt = rt\<rparr>,
                          ReduceTask_Bucket = 0,
                          ReduceTask_MapTaskOutputs = (if ms = TaskStateDone then [1 \<mapsto> a] else Map.empty)\<rparr>]\<rparr>"

definition one_env :: "int \<Rightarrow> string \<Rightarrow> request_env" where
  "one_env now content = \<lparr>env_now = now, env_ReadFile = (\<lambda>f. Some content), env_pickMap = [1], env_allMap = [1], env_pickReduce = [2]\<rparr>"

abbreviation one_map :: "int \<Rightarrow> Task" where
  "one_map now \<equiv> \<lparr>Task_ID = 1, Task_Type = TaskMap, Task_State = TaskStateRunning, Task_AssignedAt = now\<rparr>"

abbreviation one_reduce :: "int \<Rightarrow> Task" where
  "one_reduce now \<equiv> \<lparr>Task_ID = 2, Task_Type = TaskReduce, Task_State = TaskStateRunning, Task_AssignedAt = now\<rparr>"

abbreviation one_data :: "(TaskID \<rightharpoonup> string) \<Rightarrow> ReduceTaskData" where
  "one_data outs \<equiv> \<lparr>ReduceData_Bucket = 0, ReduceData_MapTaskOutputs = outs\<rparr>"

abbreviation one_reply :: LiveReply where
  "one_reply \<equiv> \<lparr>Live_Task = Some (ReduceTaskRef 2), Live_MapData = None, Live_ReduceData = Some (0, 2)\<rparr>"

abbreviation one_out :: string where
  "one_out \<equiv> local_key [''w''] (reduceOutputFileName 0)"

text \<open>A store the worker can work in: no system call is going to fail.\<close>

definition one_calm :: "os_state \<Rightarrow> bool" where
  "one_calm s \<longleftrightarrow> worker_cwd [''w''] s \<and> os_faults s = [] \<and> os_dirs s = {}"

lemma duo_simps:
  "sy_coord (duo w c s p s' p') = c" "phase_of (duo w c s p s' p') w = p" "wk_addr (sy_workers (duo w c s p s' p') v) = one_addr v"
  "w \<le> 1 \<Longrightarrow> store_of (one_job f content mapf reducef) (duo w c s p s' p') w = s" "job_site (one_job f content mapf reducef) v = v"
  "setCoord c' (duo w c s p s' p') = duo w c' s p s' p'" "setPhase w q (duo w c s p s' p') = duo w c s q s' p'"
  "w \<le> 1 \<Longrightarrow> setStore w s2 (duo w c s p s' p') = duo w c s2 p s' p'"
  by (auto simp: duo_def phase_of_def store_of_def setCoord_def setPhase_def setStore_def one_job_def fun_eq_iff) presburger+

lemma duo_swap: "w \<le> 1 \<Longrightarrow> duo (1 - w) c s' p' s p = duo w c s p s' p'"
  by (cases "w = 0") (auto simp: duo_def fun_eq_iff)

lemma duo_other: "w \<le> 1 \<Longrightarrow> phase_of (duo w c s p s' p') (1 - w) = p'"
  by (cases "w = 0") (auto simp: duo_def phase_of_def)

lemma one_coord_simps:
  "mapTasks (one_coord a f ms mt rs rt) 1 = Some \<lparr>MapTask_Task = \<lparr>Task_ID = 1, Task_Type = TaskMap, Task_State = ms, Task_AssignedAt = mt\<rparr>,
     MapTask_File = f, MapTask_Buckets = 1\<rparr>"
  "reduceTasks (one_coord a f ms mt rs rt) 2 = Some \<lparr>ReduceTask_Task = \<lparr>Task_ID = 2, Task_Type = TaskReduce, Task_State = rs, Task_AssignedAt = rt\<rparr>,
     ReduceTask_Bucket = 0, ReduceTask_MapTaskOutputs = (if ms = TaskStateDone then [1 \<mapsto> a] else Map.empty)\<rparr>"
  "range_order (mapTasks (one_coord a f ms mt rs rt)) [1]" "range_order (reduceTasks (one_coord a f ms mt rs rt)) [2]"
  by (simp_all add: one_coord_def range_order_def)

lemma one_mapIDs: "mapIDs (one_job f content mapf reducef) = {1}"
  by (auto simp: mapIDs_def one_job_def)

lemma one_map_output: "map_output (one_job f content mapf reducef) 1 = mapf f content"
  by (simp add: map_output_def map_input_def one_job_def)

lemma one_job_ok: "\<forall>kv \<in> set (mapf f content). kv_valid kv \<Longrightarrow> job_ok (one_job f content mapf reducef)"
  by (simp add: job_ok_def one_mapIDs one_map_output) (simp add: one_job_def)

lemma one_expected: "expected (one_job f content mapf reducef) 0 1 = mapf f content"
  unfolding expected_def one_map_output by (simp add: bucket_of_def one_job_def)

lemma one_calm_same: "one_calm s \<Longrightarrow> same_store s s' \<Longrightarrow> one_calm s'"
  by (simp add: one_calm_def same_store_def worker_cwd_def)

lemma one_calm_store: "one_calm one_store" "temp_available ''./mr-bucket-'' one_store"
  by (simp_all add: one_calm_def worker_cwd_def one_store_def normal_comp_def temp_available_def Let_def)

lemma one_init: "sys_reach (one_job f content mapf reducef) A (duo 0 (one_coord a f TaskStateUnassigned 0 TaskStateUnassigned 0) one_store Idle one_store Idle)"
proof (rule sys_reach.init)
  have "worker_cwd [''w''] one_store" by (simp add: worker_cwd_def one_store_def normal_comp_def)
  moreover have "one_coord a f TaskStateUnassigned 0 TaskStateUnassigned 0 = snd (MakeCoordinator 0 [f] 1)"
    by (simp add: one_coord_def MakeCoordinator_def getGlobalID_def upto.simps newTask_def zeroTime_def)
  ultimately show "sys_init (one_job f content mapf reducef) (duo 0 (one_coord a f TaskStateUnassigned 0 TaskStateUnassigned 0) one_store Idle one_store Idle)"
    by (simp add: sys_init_def one_job_def duo_def one_store_def phase_of_def)
qed

lemma one_env_ok: "request_env_ok (one_job f content mapf reducef) (one_coord a f ms mt rs rt) (one_env now content)"
  by (simp add: request_env_ok_def env_ok_def one_env_def one_coord_def range_order_def one_job_def)

lemma one_map_request:
  assumes reach: "sys_reach (one_job f content mapf reducef) A (duo w (one_coord a f TaskStateUnassigned mt rs rt) s Idle s' p')"
    and w: "w \<le> 1"
  shows "sys_reach (one_job f content mapf reducef) A
    (duo w (one_coord a f TaskStateRunning now rs rt) s (Mapping (one_map now) [mapf f content] 0) s' p')"
proof -
  let ?J = "one_job f content mapf reducef" and ?c = "one_coord a f TaskStateRunning now rs rt"
  let ?live = "\<lparr>Live_Task = Some (MapTaskRef 1), Live_MapData = Some \<lparr>MapData_Key = f, MapData_Content = content,
      MapData_Buckets = 1\<rparr>, Live_ReduceData = None\<rparr>"
  have req: "RequestTask (one_env now content) (one_coord a f TaskStateUnassigned mt rs rt) = (?c, Inr ?live)"
    by (simp add: RequestTask_def one_coord_def one_env_def shouldAssignTask_def MarkRunning_def Let_def)
  have r1: "sys_reach ?J A (duo w ?c s (Replying ?live) s' p')"
    using sys_reach.step [OF reach sys_step.request, of w "one_env now content" ?c ?live] one_env_ok req w by (simp add: duo_simps)
  have "bucketContents (mapf f content) 1 = Inr [mapf f content]"
    using bucketContents_eq [of 1 "mapf f content"] by (simp add: bucket_of_def)
  then have "beginTask ?J (encodeReply ?c ?live) [] = Mapping (one_map now) [mapf f content] 0"
    by (simp add: beginTask_def encodeReply_def one_coord_simps) (simp add: one_job_def)
  moreover have "Reply_ReduceData (encodeReply ?c ?live) = None" by (simp add: encodeReply_def)
  ultimately show ?thesis
    using sys_reach.step [OF r1 sys_step.reply [OF _ refl], of w ?live "[]"] w by (simp add: duo_simps)
qed

lemma one_reduce_request:
  assumes reach: "sys_reach (one_job f content mapf reducef) A (duo w (one_coord a f TaskStateDone mt rs rt) s Idle s' p')"
    and w: "w \<le> 1" and free: "shouldAssignTask now \<lparr>Task_ID = 2, Task_Type = TaskReduce, Task_State = rs, Task_AssignedAt = rt\<rparr>"
  shows "sys_reach (one_job f content mapf reducef) A (duo w (one_coord a f TaskStateDone mt TaskStateRunning now) s (Replying one_reply) s' p')"
proof -
  let ?c = "one_coord a f TaskStateDone mt TaskStateRunning now"
  have "RequestTask (one_env now content) (one_coord a f TaskStateDone mt rs rt) = (?c, Inr one_reply)"
    using free by (simp add: RequestTask_def one_coord_def one_env_def shouldAssignTask_def MarkRunning_def Let_def)
  then show ?thesis
    using sys_reach.step [OF reach sys_step.request, of w "one_env now content" ?c one_reply] one_env_ok w by (simp add: duo_simps)
qed

lemma one_reduce_reply:
  assumes reach: "sys_reach (one_job f content mapf reducef) A (duo w (one_coord a f ms mt TaskStateRunning now) s (Replying one_reply) s' p')"
    and w: "w \<le> 1" and outs: "outs = (if ms = TaskStateDone then [1 \<mapsto> a] else Map.empty)" and o: "range_order outs order"
  shows "sys_reach (one_job f content mapf reducef) A
    (duo w (one_coord a f ms mt TaskStateRunning now) s (Gathering (one_reduce now) (one_data outs) order []) s' p')"
proof -
  let ?J = "one_job f content mapf reducef" and ?c = "one_coord a f ms mt TaskStateRunning now"
  have e: "encodeReply ?c one_reply = \<lparr>Reply_Task = Some (one_reduce now), Reply_MapData = None, Reply_ReduceData = Some (one_data outs)\<rparr>"
    by (simp add: encodeReply_def one_coord_simps outs)
  have "beginTask ?J (encodeReply ?c one_reply) order = Gathering (one_reduce now) (one_data outs) order []"
    unfolding e by (simp add: beginTask_def)
  then show ?thesis
    using sys_reach.step [OF reach sys_step.reply [OF _ refl], of w one_reply order] e o w by (simp add: duo_simps)
qed

lemma one_report:
  assumes "sys_reach (one_job f content mapf reducef) A (duo w (one_coord a f ms mt rs rt) s (Reporting task) s' p')" and "w \<le> 1"
    and "ReportTaskCompletion [2] \<lparr>Report_Task = Some task, Report_WorkerAddress = one_addr w\<rparr> (one_coord a f ms mt rs rt) = Inr c'"
  shows "sys_reach (one_job f content mapf reducef) A (duo w c' s Idle s' p')"
  using sys_reach.step [OF assms(1) sys_step.report, of w task "[2]" c'] assms(2,3) by (simp add: duo_simps one_coord_simps)

lemma one_reports:
  "ReportTaskCompletion [2] \<lparr>Report_Task = Some (one_map now), Report_WorkerAddress = a'\<rparr> (one_coord a f TaskStateRunning mt rs rt) =
     Inr (one_coord a' f TaskStateDone mt rs rt)"
  "ReportTaskCompletion [2] \<lparr>Report_Task = Some (one_reduce now), Report_WorkerAddress = a'\<rparr> (one_coord a f ms mt rs rt) =
     Inr (one_coord a f ms mt TaskStateDone rt)"
  by (simp_all add: ReportTaskCompletion_def one_coord_def)

lemma one_map_phase:
  assumes reach: "sys_reach (one_job f content mapf reducef) A (duo w c s (Mapping (one_map now) [kvs] 0) s' p')" and w: "w \<le> 1"
    and s: "one_calm s" "temp_available ''./mr-bucket-'' s"
  shows "\<exists>s1. one_calm s1 \<and> os_files s1 = (os_files s)(intermediate_key [''w''] 1 0 \<mapsto> bucket_text kvs) \<and>
    sys_reach (one_job f content mapf reducef) A (duo w c s1 (Reporting (one_map now)) s' p')"
proof -
  let ?J = "one_job f content mapf reducef"
  have "wp (writeBucketToFile 1 0 kvs)
      (\<lambda>u s'. same_store s s' \<and> os_files s' = (os_files s)(intermediate_key [''w''] 1 0 \<mapsto> bucket_text kvs)) (\<lambda>e s'. False) s"
    by (rule wp_conseq [OF writeBucketToFile_spec]) (use s in \<open>simp_all add: one_calm_def\<close>)
  from wp_total [OF this] obtain s1 where wr: "writeBucketToFile 1 0 kvs s = (Inr (), s1)" and s1: "same_store s s1"
    "os_files s1 = (os_files s)(intermediate_key [''w''] 1 0 \<mapsto> bucket_text kvs)"
    by auto
  have "sys_reach ?J A (duo w c s1 (Mapping (one_map now) [kvs] 1) s' p')"
    using sys_reach.step [OF reach sys_step.writeBucket, of w "one_map now" "[kvs]" 0 "()" s1] wr w by (simp add: duo_simps)
  from sys_reach.step [OF this sys_step.mapped, of w "one_map now" "[kvs]"]
  have "sys_reach ?J A (duo w c s1 (Reporting (one_map now)) s' p')" by (simp add: duo_simps)
  then show ?thesis using one_calm_same [OF s(1) s1(1)] s1(2) by auto
qed

lemma one_gather_phase:
  assumes reach: "sys_reach (one_job f content mapf reducef) A (duo w c s (Gathering task (one_data [1 \<mapsto> one_addr w]) [1] []) s' p')"
    and w: "w \<le> 1" and s: "one_calm s" "os_files s (intermediate_key [''w''] 1 0) = Some (bucket_text kvs)" and v: "\<forall>kv \<in> set kvs. kv_valid kv"
  shows "sys_reach (one_job f content mapf reducef) A (duo w c s (Gathering task (one_data [1 \<mapsto> one_addr w]) [] kvs) s' p')"
proof -
  have "wp (readBucketFile 1 0) (\<lambda>r s'. quiet s s' \<and> r = kvs) (\<lambda>e s'. False) s"
    by (rule wp_conseq [OF readBucketFile_ok [OF _ s(2) v]]) (use s(1) in \<open>simp_all add: one_calm_def\<close>)
  from wp_total [OF this] have "readBucketFile 1 0 s = (Inr kvs, s)"
    using s(1) by (auto simp: quiet_def one_calm_def)
  then show ?thesis
    using sys_reach.step [OF reach sys_step.fetch_local, of w task "one_data [1 \<mapsto> one_addr w]" 1 "[]" "[]" kvs s] w by (simp add: duo_simps)
qed

lemma one_print_phase:
  assumes "sys_reach (one_job f content mapf reducef) A (duo w c s (Printing task 0 lns) s' p')" and "w \<le> 1" and "one_calm s"
    and "os_files s one_out = Some t"
  shows "\<exists>s2. sys_reach (one_job f content mapf reducef) A (duo w c s2 (Reporting task) s' p') \<and>
    os_files s2 one_out = Some (t @ output_text lns)"
  using assms
proof (induction lns arbitrary: s t)
  case Nil
  from sys_reach.step [OF Nil(1) sys_step.printed, of w task 0] Nil(4) show ?case by (auto simp: duo_simps output_text_def)
next
  case (Cons kv lns)
  have key: "os_key (os_cwd s) (reduceOutputFileName 0) = one_out"
    by (rule worker_key) (use Cons.prems(3) in \<open>simp_all add: one_calm_def\<close>)
  have "wp (os_Write (reduceOutputFileName 0) (output_line kv))
      (\<lambda>u s'. same_store s s' \<and> os_files s' one_out = Some (t @ output_line kv)) (\<lambda>e s'. False) s"
    by (rule wp_conseq [OF Write_spec]) (use Cons.prems(3,4) key in \<open>simp_all add: one_calm_def\<close>)
  from wp_total [OF this] obtain s1 where s1: "os_Write (reduceOutputFileName 0) (output_line kv) s = (Inr (), s1)"
    "same_store s s1" "os_files s1 one_out = Some (t @ output_line kv)" by auto
  have "sys_reach (one_job f content mapf reducef) A (duo w c s1 (Printing task 0 lns) s' p')"
    using sys_reach.step [OF Cons.prems(1) sys_step.print, of w task 0 kv lns "Inr ()" s1] s1(1) Cons.prems(2)
    by (simp add: duo_simps print_incident_def)
  from Cons.IH [OF this Cons.prems(2) one_calm_same [OF Cons.prems(3) s1(2)] s1(3)] show ?case
    by (simp add: output_text_def)
qed

lemma one_create_phase:
  assumes reach: "sys_reach (one_job f content mapf reducef) A (duo w c s (Gathering task (one_data outs) [] kvs) s' p')"
    and w: "w \<le> 1" and s: "one_calm s"
  shows "\<exists>s2. sys_reach (one_job f content mapf reducef) A (duo w c s2 (Reporting task) s' p') \<and>
    os_files s2 one_out = Some (output_text (reduced reducef kvs))"
proof -
  let ?J = "one_job f content mapf reducef"
  have "finite (dom (groupByKey kvs))"
    by (rule finite_subset [of _ "Key ` set kvs"]) (auto simp: groupByKey_apply dom_def split: if_splits)
  then obtain ks where ks: "range_order (groupByKey kvs) ks" using range_order_exists by blast
  have key: "os_key (os_cwd s) (reduceOutputFileName 0) = one_out"
    by (rule worker_key) (use s in \<open>simp_all add: one_calm_def\<close>)
  have "wp (os_Create (reduceOutputFileName 0)) (\<lambda>u s'. same_store s s' \<and> os_files s' one_out = Some []) (\<lambda>e s'. False) s"
    by (rule wp_conseq [OF Create_spec]) (use s key in \<open>simp_all add: one_calm_def\<close>)
  from wp_total [OF this] obtain s1 where s1: "os_Create (reduceOutputFileName 0) s = (Inr (), s1)" "same_store s s1"
    "os_files s1 one_out = Some []" by auto
  have "reopened_by ?J (duo w c s (Gathering task (one_data outs) [] kvs) s' p') w 0 = None"
    by (simp add: reopened_by_def duo_simps)
  moreover have "job_reducef ?J = reducef" by (simp add: one_job_def)
  ultimately have "sys_reach ?J A (duo w c s1 (Printing task 0 (reduced reducef kvs)) s' p')"
    using sys_reach.step [OF reach sys_step.create, of w task "one_data outs" kvs ks "()" s1] s1(1) ks w reduceContents_eq [OF ks]
    by (simp add: duo_simps)
  from one_print_phase [OF this w one_calm_same [OF s s1(2)] s1(3)] show ?thesis by simp
qed

lemma one_mapped:
  assumes "sys_reach (one_job f content mapf reducef) A (duo w (one_coord a f TaskStateUnassigned mt rs rt) s Idle s' p')"
    and "w \<le> 1" and "one_calm s" "temp_available ''./mr-bucket-'' s"
  shows "\<exists>s1. one_calm s1 \<and> os_files s1 = (os_files s)(intermediate_key [''w''] 1 0 \<mapsto> bucket_text (mapf f content)) \<and>
    sys_reach (one_job f content mapf reducef) A (duo w (one_coord (one_addr w) f TaskStateDone now rs rt) s1 Idle s' p')"
  using one_map_phase [OF one_map_request [OF assms(1,2), of now] assms(2-4)] one_report [OF _ assms(2) one_reports(1)] by blast

lemma one_finished:
  assumes v: "\<forall>kv \<in> set (mapf f content). kv_valid kv"
  shows "\<exists>S. sys_reach (one_job f content mapf reducef) A S \<and> range_order (mapTasks (sy_coord S)) [1] \<and>
    range_order (reduceTasks (sy_coord S)) [2] \<and> Done [1] [2] (sy_coord S)"
proof -
  let ?J = "one_job f content mapf reducef"
  have w: "0 \<le> (1 :: nat)" by simp
  obtain s1 where s1: "one_calm s1" "os_files s1 (intermediate_key [''w''] 1 0) = Some (bucket_text (mapf f content))"
    and r1: "sys_reach ?J A (duo 0 (one_coord (one_addr 0) f TaskStateDone 7 TaskStateUnassigned 0) s1 Idle one_store Idle)"
  proof -
    from one_mapped [OF one_init w one_calm_store] obtain s1 where
      "one_calm s1" "os_files s1 = (os_files one_store)(intermediate_key [''w''] 1 0 \<mapsto> bucket_text (mapf f content))"
      "sys_reach ?J A (duo 0 (one_coord (one_addr 0) f TaskStateDone 7 TaskStateUnassigned 0) s1 Idle one_store Idle)" by blast
    then show ?thesis by (intro that) simp_all
  qed
  have "sys_reach ?J A (duo 0 (one_coord (one_addr 0) f TaskStateDone 7 TaskStateRunning 7) s1 (Replying one_reply) one_store Idle)"
    by (rule one_reduce_request [OF r1 w]) (simp add: shouldAssignTask_def)
  from one_reduce_reply [OF this w, of "[1 \<mapsto> one_addr 0]" "[1]"]
  have "sys_reach ?J A (duo 0 (one_coord (one_addr 0) f TaskStateDone 7 TaskStateRunning 7) s1
      (Gathering (one_reduce 7) (one_data [1 \<mapsto> one_addr 0]) [1] []) one_store Idle)" by (simp add: range_order_def)
  from one_create_phase [OF one_gather_phase [OF this w s1 v] w s1(1)] obtain s2 where
    "sys_reach ?J A (duo 0 (one_coord (one_addr 0) f TaskStateDone 7 TaskStateRunning 7) s2 (Reporting (one_reduce 7)) one_store Idle)" by blast
  from one_report [OF this w one_reports(2)] show ?thesis
    by (intro exI conjI, assumption) (simp_all add: duo_simps one_coord_simps Done_def)
qed

lemma one_output:
  assumes "distinct ms" and "set ms = mapIDs (one_job f content mapf reducef)"
  shows "concat (map (expected (one_job f content mapf reducef) 0) ms) = mapf f content"
proof -
  have "ms = [1]" using assms unfolding one_mapIDs by (cases ms; cases "tl ms") auto
  then show ?thesis by (simp add: one_expected)
qed

definition swap_mapf :: "string \<Rightarrow> string \<Rightarrow> KeyValue list" where
  "swap_mapf k c = [\<lparr>Key = c, Value = k\<rparr>]"

definition join_reducef :: "string \<Rightarrow> string list \<Rightarrow> string" where
  "join_reducef k vs = concat (sort vs)"

abbreviation ex_job :: Job where
  "ex_job \<equiv> one_job ''in'' ''text'' swap_mapf join_reducef"

lemma ex_job_pairs: "\<forall>kv \<in> set (swap_mapf ''in'' ''text''). kv_valid kv"
  by code_simp

lemma ex_job_ok: "job_ok ex_job"
  using one_job_ok [of swap_mapf "''in''" "''text''"] ex_job_pairs by blast

theorem job_output_correct_witness:
  "\<exists>S x. sys_reach ex_job {} S \<and> Done [1] [2] (sy_coord S) \<and> output_file ex_job S x 0 = Some (''text in'' @ [newline])"
proof -
  obtain S where S: "sys_reach ex_job {} S" "range_order (mapTasks (sy_coord S)) [1]"
    "range_order (reduceTasks (sy_coord S)) [2]" "Done [1] [2] (sy_coord S)"
    using one_finished [of swap_mapf "''in''" "''text''"] ex_job_pairs by blast
  have b: "is_bucket ex_job 0" "job_reducef ex_job = join_reducef" by (simp_all add: is_bucket_def one_job_def)
  from job_output_correct [OF ex_job_ok S b(1)] obtain x t ms where x: "output_file ex_job S x 0 = Some t"
    and ms: "distinct ms" "set ms = mapIDs ex_job"
    and t: "t = output_text (reduced (job_reducef ex_job) (concat (map (expected ex_job 0) ms)))" by blast
  have "t = ''text in'' @ [newline]"
    unfolding t one_output [OF ms] b(2)
    by (simp add: reduced_def output_text_def output_line_def values_of_def swap_mapf_def join_reducef_def)
  then show ?thesis using S x by blast
qed

section \<open>A job that finishes with a wrong output\<close>

lemma one_missing:
  "ReportMissingMapOutputs [2] \<lparr>Missing_MapTaskID = 1\<rparr> (one_coord a f TaskStateDone mt rs rt) =
     one_coord a f TaskStateUnassigned zeroTime rs rt"
  by (simp add: ReportMissingMapOutputs_def one_coord_def)

text \<open>Worker 1 is given the reduce task and cannot fetch the output of worker 0.  Its task times out, worker 0 is
  given it, and before that reply is encoded worker 1 reports the output as missing.\<close>

lemma torn_reply_run:
  "\<exists>s. one_calm s \<and> sys_reach (one_job f content mapf reducef) {TornReply} (duo 0
     (one_coord (one_addr 0) f TaskStateUnassigned zeroTime TaskStateRunning 20000000000) s (Replying one_reply) one_store Idle)"
proof -
  let ?J = "one_job f content mapf reducef" and ?A = "{TornReply}"
  have w: "0 \<le> (1 :: nat)" "1 \<le> (1 :: nat)" by simp_all
  obtain s1 where s1: "one_calm s1"
    and "sys_reach ?J ?A (duo 0 (one_coord (one_addr 0) f TaskStateDone 7 TaskStateUnassigned 0) s1 Idle one_store Idle)"
    using one_mapped [OF one_init w(1) one_calm_store] by blast
  then have r1: "sys_reach ?J ?A (duo 1 (one_coord (one_addr 0) f TaskStateDone 7 TaskStateUnassigned 0) one_store Idle s1 Idle)"
    using duo_swap [OF w(1)] by simp
  have "sys_reach ?J ?A (duo 1 (one_coord (one_addr 0) f TaskStateDone 7 TaskStateRunning 7) one_store (Replying one_reply) s1 Idle)"
    by (rule one_reduce_request [OF r1 w(2)]) (simp add: shouldAssignTask_def)
  from one_reduce_reply [OF this w(2), of "[1 \<mapsto> one_addr 0]" "[1]"]
  have "sys_reach ?J ?A (duo 1 (one_coord (one_addr 0) f TaskStateDone 7 TaskStateRunning 7) one_store
      (Gathering (one_reduce 7) (one_data [1 \<mapsto> one_addr 0]) [1] []) s1 Idle)" by (simp add: range_order_def)
  from sys_reach.step [OF this sys_step.fetch_failed, of 1 "one_reduce 7" "one_data [1 \<mapsto> one_addr 0]" 1 "[]" "[]"]
  have "sys_reach ?J ?A (duo 1 (one_coord (one_addr 0) f TaskStateDone 7 TaskStateRunning 7) one_store (MissingOutput 1) s1 Idle)"
    by (simp add: duo_simps)
  then have "sys_reach ?J ?A (duo 0 (one_coord (one_addr 0) f TaskStateDone 7 TaskStateRunning 7) s1 Idle one_store (MissingOutput 1))"
    using duo_swap [OF w(2)] by simp
  from one_reduce_request [OF this w(1), of 20000000000]
  have r2: "sys_reach ?J ?A (duo 0 (one_coord (one_addr 0) f TaskStateDone 7 TaskStateRunning 20000000000) s1 (Replying one_reply) one_store (MissingOutput 1))"
    by (simp add: shouldAssignTask_def IsTimedOut_iff)
  then have r3: "sys_reach ?J ?A (duo 1 (one_coord (one_addr 0) f TaskStateDone 7 TaskStateRunning 20000000000) one_store (MissingOutput 1) s1 (Replying one_reply))"
    using duo_swap [OF w(1)] by simp
  have "set_option (torn_by S 1) \<subseteq> {TornReply}" for S by (simp add: torn_by_def)
  from sys_reach.step [OF r3 sys_step.report_missing, of 1 1 "[2]", OF _ _ this]
  have "sys_reach ?J ?A (duo 1 (one_coord (one_addr 0) f TaskStateUnassigned zeroTime TaskStateRunning 20000000000) one_store Idle s1 (Replying one_reply))"
    by (simp add: duo_simps one_coord_simps one_missing)
  then show ?thesis using duo_swap [OF w(2)] s1 by fastforce
qed

text \<open>C28: one torn reply is enough for a wrong output.  There is a run of a job whose one map task emits the pair
  \<^verbatim>\<open>(text, in)\<close>, with two workers in directories of their own, in which the only incident is that a report of
  missing outputs overtakes the reply of a reduce task, and at whose end \<^verbatim>\<open>Done\<close> returns true although
  worker 0's \<^verbatim>\<open>mr-out-0\<close> is empty and no site has the line \<^verbatim>\<open>text in\<close>.  The worker that
  gets the torn reply gathers from the map tasks of the reply, which are none, and reports its task as completed.\<close>

theorem torn_reply_wrong_output:
  "\<exists>S. sys_reach ex_job {TornReply} S \<and> range_order (mapTasks (sy_coord S)) [1] \<and> range_order (reduceTasks (sy_coord S)) [2] \<and>
    Done [1] [2] (sy_coord S) \<and> output_file ex_job S 0 0 = Some [] \<and>
    (\<forall>x. output_file ex_job S x 0 \<noteq> Some (''text in'' @ [newline]))"
proof -
  let ?A = "{TornReply}" and ?now = "20000000000"
  have w: "0 \<le> (1 :: nat)" "1 \<le> (1 :: nat)" by simp_all
  obtain s1 where s1: "one_calm s1" and r: "sys_reach ex_job ?A
      (duo 0 (one_coord (one_addr 0) ''in'' TaskStateUnassigned zeroTime TaskStateRunning ?now) s1 (Replying one_reply) one_store Idle)"
    using torn_reply_run by blast
  from one_reduce_reply [OF r w(1), of Map.empty "[]"]
  have "sys_reach ex_job ?A (duo 0 (one_coord (one_addr 0) ''in'' TaskStateUnassigned zeroTime TaskStateRunning ?now) s1
      (Gathering (one_reduce ?now) (one_data Map.empty) [] []) one_store Idle)" by (simp add: range_order_def)
  from one_create_phase [OF this w(1) s1] obtain s2 where s2: "os_files s2 one_out = Some []" and
    "sys_reach ex_job ?A (duo 0 (one_coord (one_addr 0) ''in'' TaskStateUnassigned zeroTime TaskStateRunning ?now) s2 (Reporting (one_reduce ?now)) one_store Idle)"
    by (auto simp: reduced_def output_text_def)
  from one_report [OF this(2) w(1) one_reports(2)]
  have "sys_reach ex_job ?A (duo 1 (one_coord (one_addr 0) ''in'' TaskStateUnassigned zeroTime TaskStateDone ?now) one_store Idle s2 Idle)"
    using duo_swap [OF w(1)] by simp
  from one_mapped [OF this w(2) one_calm_store] obtain s3 where
    s3: "os_files s3 = (os_files one_store)(intermediate_key [''w''] 1 0 \<mapsto> bucket_text (swap_mapf ''in'' ''text''))" and
    r3: "sys_reach ex_job ?A (duo 1 (one_coord (one_addr 1) ''in'' TaskStateDone ?now TaskStateDone ?now) s3 Idle s2 Idle)" by blast
  let ?S = "duo 1 (one_coord (one_addr 1) ''in'' TaskStateDone ?now TaskStateDone ?now) s3 Idle s2 Idle"
  have "normal_comps [''w'']" using one_calm_store(1) by (simp add: one_calm_def worker_cwd_def)
  then have "os_files s3 one_out = None"
    using intermediate_key_distinct(1) [of "[''w'']" 1 0 0] by (simp add: s3 one_store_def)
  then have o: "output_file ex_job ?S x 0 = (if x = 0 then Some [] else None)" for x
    using s2 by (simp add: output_file_def duo_def one_job_def one_store_def)
  have "\<forall>x. output_file ex_job ?S x 0 \<noteq> Some (''text in'' @ [newline])" unfolding o by simp
  moreover have "range_order (mapTasks (sy_coord ?S)) [1]" "range_order (reduceTasks (sy_coord ?S)) [2]" "Done [1] [2] (sy_coord ?S)"
    by (simp_all add: duo_simps one_coord_simps Done_def)
  ultimately show ?thesis using r3 o [of 0] by auto
qed

end
