(* ===== verification/MR_Sequential.thy ===== *)
theory MR_Sequential
  imports MR_Runs
begin

text \<open>
  \<^verbatim>\<open>main/mrsequential.go\<close>, the sequential MapReduce that the distributed one is tested against.
  \<open>srt\<close> is the choice \<^verbatim>\<open>sort.Sort\<close> makes, which is not stable.  The theory shows what the program
  writes, and that a finished distributed job has written the same lines, spread over its buckets, when
  Reduce does not depend on the order of the values.
\<close>

section \<open>The program\<close>

text \<open>A plugin: the symbols it defines, with what the type assertions see of them.\<close>

datatype plugin_symbol =
    MapSymbol "string \<Rightarrow> string \<Rightarrow> KeyValue list"
  | ReduceSymbol "string \<Rightarrow> string list \<Rightarrow> string"
  | OtherSymbol

definition loadPlugin ::
  "(string \<rightharpoonup> (string \<rightharpoonup> plugin_symbol)) \<Rightarrow> string \<Rightarrow>
   go_panic + ((string \<Rightarrow> string \<Rightarrow> KeyValue list) \<times> (string \<Rightarrow> string list \<Rightarrow> string))" where
  "loadPlugin plugins filename =
     (case plugins filename of
        None \<Rightarrow> Inl (Fatal (''cannot load plugin '' @ filename))
      | Some p \<Rightarrow>
          (case p ''Map'' of
             None \<Rightarrow> Inl (Fatal (''cannot find Map in '' @ filename))
           | Some xmapf \<Rightarrow>
               (case xmapf of
                  MapSymbol mapf \<Rightarrow>
                    (case p ''Reduce'' of
                       None \<Rightarrow> Inl (Fatal (''cannot find Reduce in '' @ filename))
                     | Some xreducef \<Rightarrow>
                         (case xreducef of
                            ReduceSymbol reducef \<Rightarrow> Inr (mapf, reducef)
                          | _ \<Rightarrow> Inl (Fatal ''interface conversion'')))
                | _ \<Rightarrow> Inl (Fatal ''interface conversion''))))"

definition ByKey_Len :: "KeyValue list \<Rightarrow> nat" where
  "ByKey_Len a = length a"

definition ByKey_Swap :: "KeyValue list \<Rightarrow> nat \<Rightarrow> nat \<Rightarrow> KeyValue list" where
  "ByKey_Swap a i j = a[i := a ! j, j := a ! i]"

definition ByKey_Less :: "KeyValue list \<Rightarrow> nat \<Rightarrow> nat \<Rightarrow> bool" where
  "ByKey_Less a i j = (Key (a ! i) < Key (a ! j))"

text \<open>\<^verbatim>\<open>os.Open\<close> and \<^verbatim>\<open>ioutil.ReadAll\<close> of the opened file.  A directory opens, and cannot be read.\<close>

definition os_Open :: "string \<Rightarrow> (os_error, unit) os" where
  "os_Open name = os_call (\<lambda>s.
     let k = os_key (os_cwd s) name
     in if k \<in> os_dirs s \<or> os_files s k \<noteq> None then (Inr (), s) else (Inl ErrNotExist, s))"

fun readInputs ::
  "(string \<Rightarrow> string \<Rightarrow> KeyValue list) \<Rightarrow> string list \<Rightarrow> KeyValue list \<Rightarrow> (go_panic, KeyValue list) os" where
  "readInputs mapf [] intermediate = os_return intermediate"
| "readInputs mapf (filename # files) intermediate =
     os_bind (os_mapErr (\<lambda>_. Fatal (''cannot open '' @ filename)) (os_Open filename)) (\<lambda>_.
     os_bind (os_mapErr (\<lambda>_. Fatal (''cannot read '' @ filename)) (os_ReadFile filename)) (\<lambda>content.
     \<lambda>s. readInputs mapf files (intermediate @ mapf filename content) (snd (os_flush s))))"

function scanGroup :: "KeyValue list \<Rightarrow> nat \<Rightarrow> nat \<Rightarrow> nat" where
  "scanGroup intermediate i j =
     (if j < length intermediate \<and> Key (intermediate ! j) = Key (intermediate ! i)
      then scanGroup intermediate i (j + 1) else j)"
  by pat_completeness auto
termination
  by (relation "measure (\<lambda>(xs, i, j). length xs - j)") auto

declare scanGroup.simps [simp del]

lemma scanGroup_ge: "j \<le> scanGroup xs i j"
proof (induction xs i j rule: scanGroup.induct)
  case (1 xs i j)
  show ?case
  proof (cases "j < length xs \<and> Key (xs ! j) = Key (xs ! i)")
    case True
    then have "j + 1 \<le> scanGroup xs i (j + 1)" by (rule 1)
    moreover have "scanGroup xs i j = scanGroup xs i (j + 1)" by (subst scanGroup.simps) (simp add: True)
    ultimately show ?thesis by simp
  next
    case False
    then show ?thesis by (subst scanGroup.simps) auto
  qed
qed

text \<open>The line of a group is printed to \<^verbatim>\<open>ofile\<close>, which is nil if \<^verbatim>\<open>os.Create\<close> failed; neither error is
  looked at.\<close>

definition printLine :: "string option \<Rightarrow> KeyValue \<Rightarrow> os_state \<Rightarrow> os_state" where
  "printLine ofile kv s = (case ofile of None \<Rightarrow> s | Some name \<Rightarrow> snd (os_Write name (output_line kv) s))"

function reduceLoop ::
  "(string \<Rightarrow> string list \<Rightarrow> string) \<Rightarrow> string option \<Rightarrow> KeyValue list \<Rightarrow> nat \<Rightarrow> os_state \<Rightarrow> os_state" where
  "reduceLoop reducef ofile intermediate i s =
     (if i < length intermediate then
        let j = scanGroup intermediate i (i + 1);
            values = map (\<lambda>k. Value (intermediate ! k)) [i..<j];
            output = reducef (Key (intermediate ! i)) values
        in reduceLoop reducef ofile intermediate j
             (printLine ofile \<lparr>Key = Key (intermediate ! i), Value = output\<rparr> s)
      else s)"
  by pat_completeness auto
termination
proof (relation "measure (\<lambda>(r, f, xs, i, s). length xs - i)", goal_cases)
  case (2 reducef ofile xs i s j)
  then show ?case using scanGroup_ge [of "i + 1" xs i] by simp
qed simp

declare reduceLoop.simps [simp del]

definition mrsequential ::
  "(string \<rightharpoonup> (string \<rightharpoonup> plugin_symbol)) \<Rightarrow> (KeyValue list \<Rightarrow> KeyValue list) \<Rightarrow> string list \<Rightarrow> (go_panic, unit) os" where
  "mrsequential plugins srt args =
     (if length args < 3 then os_fail (Fatal ''Usage: mrsequential xxx.so inputfiles...'')
      else case loadPlugin plugins (args ! 1) of
        Inl e \<Rightarrow> os_fail e
      | Inr (mapf, reducef) \<Rightarrow>
          os_bind (readInputs mapf (drop 2 args) []) (\<lambda>intermediate s.
            case os_Create ''mr-out-0'' s of
              (r, s1) \<Rightarrow>
                let ofile = (case r of Inl _ \<Rightarrow> None | Inr _ \<Rightarrow> Some ''mr-out-0'');
                    s2 = reduceLoop reducef ofile (srt intermediate) 0 s1
                in (Inr (), case ofile of None \<Rightarrow> s2 | Some _ \<Rightarrow> snd (os_flush s2))))"

section \<open>What it writes\<close>

definition sorts_keys :: "(KeyValue list \<Rightarrow> KeyValue list) \<Rightarrow> bool" where
  "sorts_keys srt \<longleftrightarrow> (\<forall>xs. mset (srt xs) = mset xs \<and> (\<forall>i j. i < j \<and> j < ByKey_Len (srt xs) \<longrightarrow> \<not> ByKey_Less (srt xs) j i))"

lemma sorts_keys_sorted: "sorts_keys srt \<Longrightarrow> sorted (map Key (srt xs))"
  by (auto simp: sorts_keys_def ByKey_Less_def ByKey_Len_def sorted_iff_nth_mono_less not_less)

text \<open>The lines of the groups of a list, from the left.\<close>

function groups :: "(string \<Rightarrow> string list \<Rightarrow> string) \<Rightarrow> KeyValue list \<Rightarrow> KeyValue list" where
  "groups reducef [] = []"
| "groups reducef (kv # kvs) =
     \<lparr>Key = Key kv, Value = reducef (Key kv) (map Value (kv # takeWhile (\<lambda>x. Key x = Key kv) kvs))\<rparr> #
     groups reducef (dropWhile (\<lambda>x. Key x = Key kv) kvs)"
  by pat_completeness auto
termination
  by (relation "measure (\<lambda>(r, xs). length xs)") (simp_all add: length_dropWhile_le less_Suc_eq_le)

lemma scanGroup_eq:
  assumes "i < length xs" and "i < j" and "j \<le> length xs"
  shows "scanGroup xs i j = j + length (takeWhile (\<lambda>x. Key x = Key (xs ! i)) (drop j xs))"
  using assms(2,3)
proof (induction "length xs - j" arbitrary: j)
  case 0
  then show ?case by (simp add: scanGroup.simps)
next
  case (Suc n)
  then have j: "drop j xs = xs ! j # drop (Suc j) xs" "j < length xs" by (simp_all add: Cons_nth_drop_Suc)
  show ?case
  proof (cases "Key (xs ! j) = Key (xs ! i)")
    case True
    then have "scanGroup xs i j = scanGroup xs i (Suc j)" using j(2) by (subst scanGroup.simps) simp
    also have "\<dots> = Suc j + length (takeWhile (\<lambda>x. Key x = Key (xs ! i)) (drop (Suc j) xs))"
      using Suc by (intro Suc(1)) simp_all
    finally show ?thesis using True j by simp
  next
    case False
    then show ?thesis using j by (subst scanGroup.simps) simp
  qed
qed


lemma reduceLoop_groups:
  "i \<le> length xs \<Longrightarrow> reduceLoop reducef ofile xs i s = foldl (\<lambda>s kv. printLine ofile kv s) s (groups reducef (drop i xs))"
proof (induction "length xs - i" arbitrary: i s rule: less_induct)
  case less
  show ?case
  proof (cases "i < length xs")
    case True
    let ?p = "\<lambda>x. Key x = Key (xs ! i)" and ?t = "drop (Suc i) xs"
    let ?j = "scanGroup xs i (i + 1)"
    have j: "?j = Suc i + length (takeWhile ?p ?t)" using True scanGroup_eq [of i xs "i + 1"] by simp
    have c: "drop i xs = xs ! i # ?t" by (simp add: Cons_nth_drop_Suc [OF True])
    have len: "length (takeWhile ?p ?t) \<le> length ?t" by (rule length_takeWhile_le)
    then have jle: "?j \<le> length xs" using True unfolding j by simp
    have d: "drop ?j xs = dropWhile ?p ?t" unfolding j by (simp add: dropWhile_eq_drop add.commute)
    have "map (\<lambda>k. Value (xs ! k)) [i..<?j] = map Value (take (?j - i) (drop i xs))"
      using jle True by (intro nth_equalityI) simp_all
    also have "take (?j - i) (drop i xs) = xs ! i # takeWhile ?p ?t"
      unfolding c j by (simp add: takeWhile_eq_take [symmetric])
    finally have v: "map (\<lambda>k. Value (xs ! k)) [i..<?j] = map Value (xs ! i # takeWhile ?p ?t)" .
    have "length xs - ?j < length xs - i" using True unfolding j by simp
    note IH = less.hyps [OF this jle]
    have "reduceLoop reducef ofile xs i s = reduceLoop reducef ofile xs ?j
        (printLine ofile \<lparr>Key = Key (xs ! i), Value = reducef (Key (xs ! i)) (map Value (xs ! i # takeWhile ?p ?t))\<rparr> s)"
      by (subst reduceLoop.simps) (simp only: True if_True Let_def v)
    then show ?thesis unfolding IH d c by simp
  next
    case False
    then show ?thesis by (simp add: reduceLoop.simps)
  qed
qed

lemma printAll_lines: "printAll name kvs s = (Inr (), foldl (\<lambda>s kv. printLine (Some name) kv s) s kvs)"
  by (induction kvs arbitrary: s) (simp_all add: os_return_def printLine_def)

lemma sorted_list_of_set_eq: "sorted xs \<Longrightarrow> distinct xs \<Longrightarrow> set xs = A \<Longrightarrow> sorted_list_of_set A = xs"
  using sorted_list_of_set.idem_if_sorted_distinct by blast

lemma groups_reduced: "sorted (map Key xs) \<Longrightarrow> groups reducef xs = reduced reducef xs"
proof (induction reducef xs rule: groups.induct)
  case (1 reducef)
  show ?case by (simp add: reduced_def)
next
  case (2 reducef kv kvs)
  let ?k = "Key kv"
  let ?p = "\<lambda>x. Key x = ?k"
  let ?d = "dropWhile ?p kvs"
  have s: "sorted (map Key ?d)" "\<forall>x \<in> set kvs. ?k \<le> Key x"
    using 2(2) by (auto simp: sorted_wrt_map sorted_wrt_dropWhile)
  have gt: "?k < Key x" if x: "x \<in> set ?d" for x
  proof (cases ?d)
    case Nil
    then show ?thesis using x by (simp only: list.set empty_iff)
  next
    case (Cons y ys)
    then have "Key y \<noteq> ?k" by (metis (mono_tags, lifting) hd_dropWhile list.discI list.sel(1))
    moreover have "y \<in> set kvs" using Cons set_dropWhileD [of y ?p kvs] by simp
    ultimately have "?k < Key y" using s(2) by force
    moreover have "Key y \<le> Key x" using s(1) x Cons by auto
    ultimately show ?thesis by simp
  qed
  obtain ts ds where td: "takeWhile ?p kvs = ts" "?d = ds" by blast
  have kvs: "kvs = ts @ ds" using takeWhile_dropWhile_id [of ?p kvs] unfolding td by (rule sym)
  have t: "\<forall>x \<in> set ts. Key x = ?k" unfolding td(1) [symmetric] using set_takeWhileD by metis
  have g: "\<forall>x \<in> set ds. ?k < Key x" using gt unfolding td(2) by blast
  then have ne: "\<forall>x \<in> set ds. Key x \<noteq> ?k" by (metis less_irrefl)
  have "filter (\<lambda>x. Key x = ?k) ts = ts" by (rule filter_True) (use t in blast)
  moreover have "filter (\<lambda>x. Key x = ?k) ds = []" by (rule filter_False) (rule ne)
  ultimately have "values_of (kv # kvs) ?k = map Value (kv # ts)" unfolding values_of_def kvs by simp
  moreover have "values_of (kv # kvs) k = values_of ds k" if k: "k \<in> Key ` set ds" for k
  proof -
    obtain x where "x \<in> set ds" "k = Key x" using k by (rule imageE)
    then have "?k \<noteq> k" using ne by metis
    moreover have "filter (\<lambda>x. Key x = k) ts = []" by (rule filter_False) (use t \<open>?k \<noteq> k\<close> in metis)
    ultimately show ?thesis unfolding values_of_def kvs by simp
  qed
  moreover have "sorted_list_of_set (Key ` set (kv # kvs)) = ?k # sorted_list_of_set (Key ` set ds)"
    by (rule sorted_list_of_set_eq) (use t g in \<open>auto simp: kvs\<close>)
  ultimately have "reduced reducef (kv # kvs) = \<lparr>Key = ?k, Value = reducef ?k (map Value (kv # ts))\<rparr> # reduced reducef ds"
    unfolding reduced_def by simp
  then show ?case unfolding groups.simps td using 2(1) [OF s(1)] unfolding td by simp
qed

lemma reduced_mset:
  assumes "\<And>k vs vs'. mset vs = mset vs' \<Longrightarrow> reducef k vs = reducef k vs'" and "mset kvs = mset kvs'"
  shows "reduced reducef kvs = reduced reducef kvs'"
proof -
  have "mset (values_of kvs k) = mset (values_of kvs' k)" for k by (simp add: values_of_def assms(2))
  then have "reducef k (values_of kvs k) = reducef k (values_of kvs' k)" for k by (rule assms(1))
  then show ?thesis using mset_eq_setD [OF assms(2)] by (simp add: reduced_def)
qed

lemma reduced_bucket: "reduced reducef (bucket_of n kvs b) = bucket_of n (reduced reducef kvs) b"
proof -
  have keys: "Key ` set (bucket_of n kvs b) = {k \<in> Key ` set kvs. ihash k mod n = b}" by (auto simp: bucket_of_def)
  have l: "sorted_list_of_set (Key ` set (bucket_of n kvs b)) = filter (\<lambda>k. ihash k mod n = b) (sorted_list_of_set (Key ` set kvs))"
    unfolding keys by (rule sorted_list_of_set_eq) (auto simp: sorted_wrt_filter)
  have "values_of (bucket_of n kvs b) k = values_of kvs k" if "ihash k mod n = b" for k
    using that by (auto simp: values_of_def bucket_of_def intro!: arg_cong [of _ _ "map Value"] filter_cong)
  then show ?thesis
    unfolding reduced_def l bucket_of_def [of n "map _ _"] by (simp add: filter_map comp_def)
qed

lemma buckets_mset:
  assumes "0 < n"
  shows "(\<Sum>b \<in> {0..<n}. mset (bucket_of n kvs b)) = mset kvs"
proof (induction kvs)
  case (Cons kv kvs)
  have "(\<Sum>b \<in> {0..<n}. mset (bucket_of n (kv # kvs) b)) =
      (\<Sum>b \<in> {0..<n}. (if ihash (Key kv) mod n = b then {#kv#} else {#}) + mset (bucket_of n kvs b))"
    by (rule sum.cong) (simp_all add: bucket_of_def)
  also have "\<dots> = {#kv#} + mset kvs"
    using ihash_bucket [OF assms, of "Key kv"] Cons by (simp add: sum.distrib)
  finally show ?case by simp
qed (simp add: bucket_of_def)


definition inputs_ok :: "string list \<Rightarrow> (string \<Rightarrow> string) \<Rightarrow> os_state \<Rightarrow> bool" where
  "inputs_ok files input s \<longleftrightarrow> os_faults s = [] \<and>
     (\<forall>f \<in> set files. os_key (os_cwd s) f \<notin> os_dirs s \<and> os_files s (os_key (os_cwd s) f) = Some (input f))"

lemma readInputs_ok:
  "inputs_ok files input s \<Longrightarrow> readInputs mapf files acc s = (Inr (acc @ concat (map (\<lambda>f. mapf f (input f)) files)), s)"
proof (induction files arbitrary: acc)
  case (Cons f files)
  then have "inputs_ok files input s" by (simp add: inputs_ok_def)
  moreover have "os_Open f s = (Inr (), s)" "os_ReadFile f s = (Inr (input f), s)" "snd (os_flush s) = s"
    using Cons.prems by (simp_all add: inputs_ok_def os_Open_def os_ReadFile_def os_flush_def os_call_def Let_def)
  ultimately show ?case using Cons.IH by (simp add: os_bind_def os_mapErr_def)
qed (simp add: os_return_def)

lemma mrsequential_output:
  assumes "sorts_keys srt" and "worker_cwd ws s" and "inputs_ok files input s" and "files \<noteq> []"
    and "local_key ws ''mr-out-0'' \<notin> os_dirs s"
    and "loadPlugin plugins app = Inr (mapf, reducef)"
  shows "\<exists>s'. mrsequential plugins srt (prog # app # files) s = (Inr (), s') \<and>
    os_files s' = (os_files s)(local_key ws ''mr-out-0'' \<mapsto>
      output_text (reduced reducef (srt (concat (map (\<lambda>f. mapf f (input f)) files)))))"
proof -
  let ?k = "local_key ws ''mr-out-0''" and ?all = "srt (concat (map (\<lambda>f. mapf f (input f)) files))"
  let ?s1 = "s\<lparr>os_files := (os_files s)(?k \<mapsto> [])\<rparr>"
  have k: "os_key (os_cwd s) ''mr-out-0'' = ?k" by (rule worker_key [OF assms(2)]) (simp add: normal_comp_def)
  have nf: "os_faults s = []" using assms(3) by (simp add: inputs_ok_def)
  have c: "os_Create ''mr-out-0'' s = (Inr (), ?s1)" using assms(5) k nf by (simp add: os_Create_def os_call_def Let_def)
  let ?s2 = "reduceLoop reducef (Some ''mr-out-0'') ?all 0 ?s1"
  have "printAll ''mr-out-0'' (reduced reducef ?all) ?s1 = (Inr (), ?s2)"
    unfolding printAll_lines reduceLoop_groups [OF le0] drop_0 groups_reduced [OF sorts_keys_sorted [OF assms(1)]] ..
  from wp_ok [OF printAll_spec this] have f: "os_files ?s2 = (os_files s)(?k \<mapsto> output_text (reduced reducef ?all))"
    using k nf by simp
  have "os_files (snd (os_flush ?s2)) = os_files ?s2" using only_changes_none [OF flush_snd] by (rule conjunct1)
  moreover have "length (prog # app # files) \<ge> 3" using assms(4) by (cases files) simp_all
  ultimately show ?thesis using f c assms(4,6) readInputs_ok [OF assms(3), of mapf "[]"]
    by (simp add: mrsequential_def os_bind_def Let_def)
qed

section \<open>Against the distributed job\<close>

definition order_free :: "(string \<Rightarrow> string list \<Rightarrow> string) \<Rightarrow> bool" where
  "order_free reducef \<longleftrightarrow> (\<forall>k vs vs'. mset vs = mset vs' \<longrightarrow> reducef k vs = reducef k vs')"

lemma sort_cong: "mset vs = mset vs' \<Longrightarrow> sort vs = sort vs'" for vs :: "string list"
  by (rule properties_for_sort) simp_all

definition job_pairs :: "Job \<Rightarrow> KeyValue list" where
  "job_pairs J = concat (map (\<lambda>f. job_mapf J f (job_input J f)) (job_files J))"

lemma bucket_of_concat: "bucket_of n (concat kvss) b = concat (map (\<lambda>kvs. bucket_of n kvs b) kvss)"
  by (simp add: bucket_of_def filter_concat)

lemma mset_concat_map:
  assumes "mset xs = mset ys"
  shows "mset (concat (map f xs)) = mset (concat (map f ys))"
proof -
  have m: "mset (concat (map f zs)) = sum_mset (image_mset (\<lambda>z. mset (f z)) (mset zs))" for zs by (induction zs) simp_all
  show ?thesis unfolding m assms ..
qed

lemma mapIDs_pairs:
  assumes "distinct ms" and "set ms = mapIDs J"
  shows "mset (concat (map (map_output J) ms)) = mset (job_pairs J)"
proof -
  let ?g = "job_globalID J" and ?n = "length (job_files J)"
  let ?is = "map (\<lambda>i. ?g + 1 + int i) [0..<?n]"
  have "set ?is = mapIDs J"
  proof -
    have "x \<in> (\<lambda>i. ?g + 1 + int i) ` {0..<?n}" if "?g + 1 \<le> x" "x \<le> ?g + int ?n" for x
      using that by (intro image_eqI [of _ _ "nat (x - ?g - 1)"]) auto
    then show ?thesis by (auto simp: mapIDs_def)
  qed
  then have "mset ms = mset ?is"
    using assms by (intro set_eq_iff_mset_eq_distinct [THEN iffD1]) (simp_all add: distinct_map inj_on_def)
  then have "mset (concat (map (map_output J) ms)) = mset (concat (map (map_output J) ?is))" by (rule mset_concat_map)
  also have "map (map_output J) ?is = map (\<lambda>f. job_mapf J f (job_input J f)) (job_files J)"
    by (rule nth_equalityI) (simp_all add: map_output_def map_input_def)
  finally show ?thesis unfolding job_pairs_def .
qed

lemma job_bucket_output:
  assumes "order_free (job_reducef J)" and "distinct ms" and "set ms = mapIDs J" and "mset kvs = mset (job_pairs J)"
  shows "reduced (job_reducef J) (concat (map (expected J b) ms)) = bucket_of (job_nReduce J) (reduced (job_reducef J) kvs) b"
proof -
  have "concat (map (expected J b) ms) = bucket_of (job_nReduce J) (concat (map (map_output J) ms)) b"
    by (simp add: bucket_of_concat expected_def [abs_def] comp_def)
  moreover have "mset (bucket_of (job_nReduce J) (concat (map (map_output J) ms)) b) = mset (bucket_of (job_nReduce J) kvs b)"
    unfolding bucket_of_def mset_filter mapIDs_pairs [OF assms(2,3)] assms(4) ..
  then have "reduced (job_reducef J) (bucket_of (job_nReduce J) (concat (map (map_output J) ms)) b) =
      reduced (job_reducef J) (bucket_of (job_nReduce J) kvs b)"
    by (rule reduced_mset [rotated]) (use assms(1) order_free_def in blast)
  ultimately show ?thesis by (simp add: reduced_bucket)
qed


lemma sequential_distributed:
  assumes "sorts_keys srt" and "worker_cwd ws s" and "inputs_ok (job_files J) (job_input J) s" and "job_files J \<noteq> []"
    and "local_key ws ''mr-out-0'' \<notin> os_dirs s" and "loadPlugin plugins app = Inr (job_mapf J, job_reducef J)"
    and "order_free (job_reducef J)" and "job_ok J" and lns: "lns = reduced (job_reducef J) (job_pairs J)"
  shows "(\<exists>s'. mrsequential plugins srt (prog # app # job_files J) s = (Inr (), s') \<and>
      os_files s' (local_key ws ''mr-out-0'') = Some (output_text lns)) \<and>
    (\<forall>S mo ro b. sys_reach J {} S \<and> range_order (mapTasks (sy_coord S)) mo \<and> range_order (reduceTasks (sy_coord S)) ro \<and>
       Done mo ro (sy_coord S) \<and> is_bucket J b \<longrightarrow>
       (\<exists>x. output_file J S x b = Some (output_text (filter (\<lambda>kv. ihash (Key kv) mod job_nReduce J = b) lns))))"
proof (intro conjI allI impI)
  have "mset (srt (job_pairs J)) = mset (job_pairs J)" using assms(1) by (simp add: sorts_keys_def)
  then have l: "reduced (job_reducef J) (srt (job_pairs J)) = lns"
    unfolding lns by (rule reduced_mset [rotated]) (use assms(7) order_free_def in blast)
  then show "\<exists>s'. mrsequential plugins srt (prog # app # job_files J) s = (Inr (), s') \<and>
      os_files s' (local_key ws ''mr-out-0'') = Some (output_text lns)"
    using mrsequential_output [OF assms(1-6), of prog] unfolding job_pairs_def by auto
next
  fix S mo ro b
  assume S: "sys_reach J {} S \<and> range_order (mapTasks (sy_coord S)) mo \<and> range_order (reduceTasks (sy_coord S)) ro \<and>
    Done mo ro (sy_coord S) \<and> is_bucket J b"
  then obtain x t ms where w: "output_file J S x b = Some t" "distinct ms" "set ms = mapIDs J"
    "t = output_text (reduced (job_reducef J) (concat (map (expected J b) ms)))"
    using done_output [OF assms(8), of S mo ro b] by blast
  then show "\<exists>x. output_file J S x b = Some (output_text (filter (\<lambda>kv. ihash (Key kv) mod job_nReduce J = b) lns))"
    unfolding lns job_bucket_output [OF assms(7) w(2,3) refl] bucket_of_def by blast
qed

text \<open>C5: the sequential program and the distributed job agree.  Let both run the same Map and Reduce on the same
  inputs, with a Reduce that does not depend on the order of its values and a Map that emits valid UTF-8.  The
  sequential program, in a directory where every input can be read and no system call fails, succeeds and leaves in
  \<^verbatim>\<open>mr-out-0\<close> the lines of some list of pairs.  In every state of the distributed system that is reached
  without an incident (no reopened map task overtakes the reply of a reduce task, no line fails to print, no output
  file of a shared directory is opened twice) and in which \<^verbatim>\<open>Done\<close> returns true, each bucket \<open>b\<close> has a site
  whose \<^verbatim>\<open>mr-out-b\<close> holds exactly those of these lines, in their order, whose key hashes to \<open>b\<close>.\<close>

theorem sequential_equals_distributed:
  assumes "sorts_keys srt" and "worker_cwd ws s" and "inputs_ok (job_files J) (job_input J) s" and "job_files J \<noteq> []"
    and "local_key ws ''mr-out-0'' \<notin> os_dirs s" and "loadPlugin plugins app = Inr (job_mapf J, job_reducef J)"
    and "order_free (job_reducef J)" and "job_ok J"
  shows "\<exists>s' lns. mrsequential plugins srt (prog # app # job_files J) s = (Inr (), s') \<and>
    os_files s' (local_key ws ''mr-out-0'') = Some (output_text lns) \<and>
    (\<forall>S mo ro b. sys_reach J {} S \<and> range_order (mapTasks (sy_coord S)) mo \<and> range_order (reduceTasks (sy_coord S)) ro \<and>
       Done mo ro (sy_coord S) \<and> is_bucket J b \<longrightarrow>
       (\<exists>x. output_file J S x b = Some (output_text (filter (\<lambda>kv. ihash (Key kv) mod job_nReduce J = b) lns))))"
  using sequential_distributed [OF assms refl, of prog] by blast

definition ex_plugins :: "string \<rightharpoonup> (string \<rightharpoonup> plugin_symbol)" where
  "ex_plugins = [''app.so'' \<mapsto> [''Map'' \<mapsto> MapSymbol swap_mapf, ''Reduce'' \<mapsto> ReduceSymbol join_reducef]]"

definition ex_sequential_os :: os_state where
  "ex_sequential_os = \<lparr>os_cwd = ''/w'', os_files = [''/w/in'' \<mapsto> ''text''], os_dirs = {}, os_faults = [], os_draws = []\<rparr>"

lemma ex_sorts_keys: "sorts_keys (sort_key Key)"
proof -
  have "\<not> Key (sort_key Key xs ! j) < Key (sort_key Key xs ! i)" if "i < j" "j < length xs" for xs :: "KeyValue list" and i j
    using that sorted_nth_mono [of "map Key (sort_key Key xs)" i j] by (simp add: not_less)
  then show ?thesis unfolding sorts_keys_def ByKey_Less_def ByKey_Len_def by simp
qed

theorem sequential_equals_distributed_witness:
  "\<exists>s' S x t. mrsequential ex_plugins (sort_key Key) [''mrsequential'', ''app.so'', ''in''] ex_sequential_os = (Inr (), s') \<and>
    sys_reach ex_job {} S \<and> Done [1] [2] (sy_coord S) \<and> os_files s' ''/w/mr-out-0'' = Some t \<and> output_file ex_job S x 0 = Some t"
proof -
  obtain S where S: "sys_reach ex_job {} S" "range_order (mapTasks (sy_coord S)) [1]"
    "range_order (reduceTasks (sy_coord S)) [2]" "Done [1] [2] (sy_coord S)"
    using one_finished [of swap_mapf "''in''" "''text''"] ex_job_pairs by blast
  have J: "job_files ex_job = [''in'']" "job_input ex_job = (\<lambda>f. ''text'')" "job_mapf ex_job = swap_mapf" "job_reducef ex_job = join_reducef"
    "job_nReduce ex_job = 1" "is_bucket ex_job 0"
    by (simp_all add: one_job_def is_bucket_def)
  have cwd: "worker_cwd [''w''] ex_sequential_os" by (simp add: worker_cwd_def ex_sequential_os_def normal_comp_def)
  have names: "local_key [''w''] ''mr-out-0'' = ''/w/mr-out-0''" "os_key ''/w'' ''in'' = ''/w/in''" by code_simp+
  have io: "inputs_ok (job_files ex_job) (job_input ex_job) ex_sequential_os" "job_files ex_job \<noteq> []"
    "local_key [''w''] ''mr-out-0'' \<notin> os_dirs ex_sequential_os"
    using names(2) by (simp_all add: inputs_ok_def J ex_sequential_os_def)
  have pl: "loadPlugin ex_plugins ''app.so'' = Inr (job_mapf ex_job, job_reducef ex_job)" by (simp add: loadPlugin_def ex_plugins_def J)
  have fr: "order_free (job_reducef ex_job)"
    unfolding order_free_def J join_reducef_def by (intro allI impI arg_cong [of _ _ concat] sort_cong)
  obtain s' lns where r: "mrsequential ex_plugins (sort_key Key) (''mrsequential'' # ''app.so'' # job_files ex_job) ex_sequential_os = (Inr (), s')"
    "os_files s' ''/w/mr-out-0'' = Some (output_text lns)"
    and all: "\<forall>S mo ro b. sys_reach ex_job {} S \<and> range_order (mapTasks (sy_coord S)) mo \<and> range_order (reduceTasks (sy_coord S)) ro \<and>
       Done mo ro (sy_coord S) \<and> is_bucket ex_job b \<longrightarrow>
       (\<exists>x. output_file ex_job S x b = Some (output_text (filter (\<lambda>kv. ihash (Key kv) mod job_nReduce ex_job = b) lns)))"
    using sequential_equals_distributed [OF ex_sorts_keys cwd io pl fr ex_job_ok, of "''mrsequential''"] unfolding names by blast
  have "\<exists>x. output_file ex_job S x 0 = Some (output_text (filter (\<lambda>kv. ihash (Key kv) mod job_nReduce ex_job = 0) lns))"
    using all S J(6) by blast
  moreover have "filter (\<lambda>kv. ihash (Key kv) mod job_nReduce ex_job = 0) lns = lns" by (simp add: J)
  ultimately obtain x where "output_file ex_job S x 0 = Some (output_text lns)" by metis
  then show ?thesis using r S unfolding J(1) by blast
qed

end
