(* ===== verification/MR_Apps.thy ===== *)
theory MR_Apps
  imports MR_Sequential
begin

text \<open>
  The MapReduce applications under \<^verbatim>\<open>mrapps\<close>.  \<^verbatim>\<open>unicode.IsLetter\<close> is the argument \<open>isLetter\<close> over code
  points; what the operating system answers (random numbers, process ids, a directory's names, which
  processes live, the clock as \<^verbatim>\<open>%.1f\<close> prints it) are arguments; a sleep is the time it takes.  The theory
  shows that the word counter counts words and the indexer lists documents, run by the sequential
  program or by the distributed one, and what the testing applications do.
\<close>

section \<open>Runes\<close>

definition rune_of :: "string \<Rightarrow> nat" where
  "rune_of s = (case map byte s of
      [a] \<Rightarrow> a
    | [a, b] \<Rightarrow> (a - 192) * 64 + (b - 128)
    | [a, b, c] \<Rightarrow> ((a - 224) * 64 + (b - 128)) * 64 + (c - 128)
    | [a, b, c, d] \<Rightarrow> (((a - 240) * 64 + (b - 128)) * 64 + (c - 128)) * 64 + (d - 128)
    | _ \<Rightarrow> 0xFFFD)"

text \<open>\<^verbatim>\<open>range\<close> over a string: the code points with their bytes; an invalid byte is U+FFFD.\<close>

function runes :: "string \<Rightarrow> (nat \<times> string) list" where
  "runes [] = []"
| "runes (c # s) =
     (if utf8_len (c # s) = 0 then (0xFFFD, [c]) # runes s
      else (rune_of (take (utf8_len (c # s)) (c # s)), take (utf8_len (c # s)) (c # s)) # runes (drop (utf8_len (c # s)) (c # s)))"
  by pat_completeness auto
termination
  by (relation "measure length") auto

text \<open>\<^verbatim>\<open>strings.FieldsFunc\<close>: the maximal runs of code points that are not separators.\<close>

fun fieldsLoop :: "(nat \<Rightarrow> bool) \<Rightarrow> string \<Rightarrow> (nat \<times> string) list \<Rightarrow> string list" where
  "fieldsLoop f cur [] = (if cur = [] then [] else [cur])"
| "fieldsLoop f cur ((r, bs) # rs) =
     (if f r then (if cur = [] then fieldsLoop f [] rs else cur # fieldsLoop f [] rs)
      else fieldsLoop f (cur @ bs) rs)"

definition FieldsFunc :: "string \<Rightarrow> (nat \<Rightarrow> bool) \<Rightarrow> string list" where
  "FieldsFunc s f = fieldsLoop f [] (runes s)"

section \<open>Word count and index\<close>

definition wc_Map :: "(nat \<Rightarrow> bool) \<Rightarrow> string \<Rightarrow> string \<Rightarrow> KeyValue list" where
  "wc_Map isLetter filename contents =
     (let ff = (\<lambda>r. \<not> isLetter r); ws = FieldsFunc contents ff
      in map (\<lambda>w. \<lparr>Key = w, Value = ''1''\<rparr>) ws)"

definition wc_Reduce :: "string \<Rightarrow> string list \<Rightarrow> string" where
  "wc_Reduce key vs = itoa (int (length vs))"

text \<open>The set of words is a map to true; \<open>order\<close> is the order of its \<^verbatim>\<open>range\<close>.\<close>

definition indexer_Map :: "((string \<rightharpoonup> bool) \<Rightarrow> string list) \<Rightarrow> (nat \<Rightarrow> bool) \<Rightarrow> string \<Rightarrow> string \<Rightarrow> KeyValue list" where
  "indexer_Map order isLetter document val =
     (let ws = FieldsFunc val (\<lambda>x. \<not> isLetter x); m = foldl (\<lambda>m w. m(w \<mapsto> True)) Map.empty ws
      in map (\<lambda>w. \<lparr>Key = w, Value = document\<rparr>) (order m))"

definition indexer_Reduce :: "string \<Rightarrow> string list \<Rightarrow> string" where
  "indexer_Reduce key vs =
     (let vs = sort vs in itoa (int (length vs)) @ '' '' @ strings_Join vs '','')"

section \<open>The testing applications\<close>

subsection \<open>\<^verbatim>\<open>crash.go\<close> and \<^verbatim>\<open>nocrash.go\<close>\<close>

text \<open>A call ends the process, or goes on after some milliseconds.  \<open>rr\<close> and \<open>ms\<close> are the numbers drawn
  below 1000 and 10000.\<close>

datatype crash_outcome = Exits nat | Sleeps nat

definition crash_maybeCrash :: "nat \<Rightarrow> nat \<Rightarrow> crash_outcome" where
  "crash_maybeCrash rr ms = (if rr < 330 then Exits 1 else if rr < 660 then Sleeps ms else Sleeps 0)"

definition nocrash_maybeCrash :: "nat \<Rightarrow> crash_outcome" where
  "nocrash_maybeCrash rr = (if False \<and> rr < 500 then Exits 1 else Sleeps 0)"

definition after_crash :: "crash_outcome \<Rightarrow> 'a \<Rightarrow> nat + nat \<times> 'a" where
  "after_crash c a = (case c of Exits code \<Rightarrow> Inl code | Sleeps ms \<Rightarrow> Inr (ms, a))"

definition crash_Map :: "nat \<Rightarrow> nat \<Rightarrow> string \<Rightarrow> string \<Rightarrow> nat + nat \<times> KeyValue list" where
  "crash_Map rr ms filename contents =
     after_crash (crash_maybeCrash rr ms)
       [\<lparr>Key = ''a'', Value = filename\<rparr>, \<lparr>Key = ''b'', Value = itoa (int (length filename))\<rparr>,
        \<lparr>Key = ''c'', Value = itoa (int (length contents))\<rparr>, \<lparr>Key = ''d'', Value = ''xyzzy''\<rparr>]"

definition crash_Reduce :: "nat \<Rightarrow> nat \<Rightarrow> string \<Rightarrow> string list \<Rightarrow> nat + nat \<times> string" where
  "crash_Reduce rr ms key vs = after_crash (crash_maybeCrash rr ms) (let vv = sort vs in strings_Join vv '' '')"

definition nocrash_Map :: "nat \<Rightarrow> string \<Rightarrow> string \<Rightarrow> nat + nat \<times> KeyValue list" where
  "nocrash_Map rr filename contents =
     after_crash (nocrash_maybeCrash rr)
       [\<lparr>Key = ''a'', Value = filename\<rparr>, \<lparr>Key = ''b'', Value = itoa (int (length filename))\<rparr>,
        \<lparr>Key = ''c'', Value = itoa (int (length contents))\<rparr>, \<lparr>Key = ''d'', Value = ''xyzzy''\<rparr>]"

definition nocrash_Reduce :: "nat \<Rightarrow> string \<Rightarrow> string list \<Rightarrow> nat + nat \<times> string" where
  "nocrash_Reduce rr key vs = after_crash (nocrash_maybeCrash rr) (let vv = sort vs in strings_Join vv '' '')"

subsection \<open>\<^verbatim>\<open>early_exit.go\<close>\<close>

definition early_exit_Map :: "string \<Rightarrow> string \<Rightarrow> KeyValue list" where
  "early_exit_Map filename contents = [\<lparr>Key = filename, Value = ''1''\<rparr>]"

text \<open>The result, with the milliseconds slept.\<close>

definition early_exit_Reduce :: "string \<Rightarrow> string list \<Rightarrow> nat \<times> string" where
  "early_exit_Reduce key vs =
     ((if strings_Contains key ''sherlock'' \<or> strings_Contains key ''tom'' then 3000 else 0), itoa (int (length vs)))"

subsection \<open>\<^verbatim>\<open>jobcount.go\<close>\<close>

text \<open>\<^verbatim>\<open>ioutil.WriteFile\<close>: create, write, close.\<close>

definition WriteFile :: "string \<Rightarrow> string \<Rightarrow> (os_error, unit) os" where
  "WriteFile name d = os_bind (os_Create name) (\<lambda>_. os_defer (os_Write name d) os_flush)"

text \<open>\<open>cnt\<close> is the global \<^verbatim>\<open>count\<close>, returned updated; a panic has counted too.\<close>

definition jobcount_Map :: "int \<Rightarrow> int \<Rightarrow> string \<Rightarrow> string \<Rightarrow> os_state \<Rightarrow> (go_panic + KeyValue list) \<times> int \<times> os_state" where
  "jobcount_Map me cnt filename contents s =
     (let f = ''mr-worker-jobcount-'' @ itoa me @ ''-'' @ itoa cnt in
      case WriteFile f ''x'' s of
        (Inl e, s') \<Rightarrow> (Inl (Fatal ''panic''), cnt + 1, s')
      | (Inr _, s') \<Rightarrow> (Inr [\<lparr>Key = ''a'', Value = ''x''\<rparr>], cnt + 1, s'))"

definition jobcount_Reduce :: "os_error + string list \<Rightarrow> string \<Rightarrow> string list \<Rightarrow> go_panic + string" where
  "jobcount_Reduce readDir key vs =
     (case readDir of
        Inl e \<Rightarrow> Inl (Fatal ''panic'')
      | Inr files \<Rightarrow> Inr (itoa (int (length (filter (\<lambda>name. HasPrefix name ''mr-worker-jobcount'') files)))))"

subsection \<open>\<^verbatim>\<open>mtiming.go\<close> and \<^verbatim>\<open>rtiming.go\<close>\<close>

text \<open>\<^verbatim>\<open>fmt.Sscanf\<close> with a literal prefix and \<^verbatim>\<open>%d\<close>: blanks are skipped, then an optional sign and digits, of
  a number that fits in an \<^verbatim>\<open>int\<close>; text after the digits stays unread.\<close>

definition is_blank :: "char \<Rightarrow> bool" where
  "is_blank c \<longleftrightarrow> c \<in> {CHR '' '', CHR 0x09, CHR 0x0B, CHR 0x0C, CHR 0x0D}"

definition scan_int :: "string \<Rightarrow> int option" where
  "scan_int s =
     (let s = dropWhile is_blank s;
          neg = (s \<noteq> [] \<and> hd s = CHR ''-'');
          s = (if s \<noteq> [] \<and> (hd s = CHR ''-'' \<or> hd s = CHR ''+'') then tl s else s);
          ds = takeWhile is_digit s;
          v = (if neg then - int (atoi_nat ds) else int (atoi_nat ds))
      in if ds = [] \<or> v < - (2 ^ 63) \<or> 2 ^ 63 \<le> v then None else Some v)"

text \<open>\<^verbatim>\<open>fmt.Sscanf(name, pat, &xpid)\<close> for a pattern that is a literal and then \<^verbatim>\<open>%d\<close>.  The literal is one without
  blanks and percent signs, which \<^verbatim>\<open>Sscanf\<close> compares byte by byte: \<^verbatim>\<open>nparallel\<close> is called with the phases
  \<^verbatim>\<open>map\<close> and \<^verbatim>\<open>reduce\<close> only.\<close>

definition Sscanf_d :: "string \<Rightarrow> string \<Rightarrow> int option" where
  "Sscanf_d name lit = (if HasPrefix name lit then scan_int (drop (length lit) name) else None)"

definition os_panic :: "(os_error, 'a) os \<Rightarrow> (go_panic, 'a) os" where
  "os_panic m = os_mapErr (\<lambda>_. Fatal ''panic'') m"

text \<open>\<open>names\<close> is what \<^verbatim>\<open>Readdirnames\<close> returns (an error where the directory does not open), \<open>alive\<close> whether
  \<^verbatim>\<open>syscall.Kill(xpid, 0)\<close> succeeds.\<close>

definition phase_prefix :: "string \<Rightarrow> string" where
  "phase_prefix phase = ''mr-worker-'' @ phase @ ''-''"

definition nparallel ::
  "int \<Rightarrow> (os_state \<Rightarrow> os_error + string list) \<Rightarrow> (int \<Rightarrow> bool) \<Rightarrow> string \<Rightarrow> (go_panic, int) os" where
  "nparallel pid readdir alive phase =
     (let myfilename = phase_prefix phase @ itoa pid in
      os_bind (os_panic (WriteFile myfilename ''x'')) (\<lambda>_ s.
        case readdir s of
          Inl e \<Rightarrow> (Inl (Fatal ''panic''), s)
        | Inr names \<Rightarrow>
            let ret = length (filter (\<lambda>name.
                        case Sscanf_d name (phase_prefix phase) of None \<Rightarrow> False | Some xpid \<Rightarrow> alive xpid) names)
            in os_bind (os_panic (os_Remove myfilename)) (\<lambda>_. os_return (int ret)) s))"

text \<open>\<open>ts\<close> is the time as \<^verbatim>\<open>%.1f\<close> prints it.\<close>

definition mtiming_Map ::
  "string \<Rightarrow> int \<Rightarrow> (os_state \<Rightarrow> os_error + string list) \<Rightarrow> (int \<Rightarrow> bool) \<Rightarrow> string \<Rightarrow> string \<Rightarrow> (go_panic, KeyValue list) os" where
  "mtiming_Map ts pid readdir alive filename contents =
     os_bind (nparallel pid readdir alive ''map'') (\<lambda>n.
       os_return [\<lparr>Key = ''times-'' @ itoa pid, Value = ts\<rparr>, \<lparr>Key = ''parallel-'' @ itoa pid, Value = itoa n\<rparr>])"

definition mtiming_Reduce :: "string \<Rightarrow> string list \<Rightarrow> string" where
  "mtiming_Reduce key vs = (let vv = sort vs in strings_Join vv '' '')"

definition rtiming_Map :: "string \<Rightarrow> string \<Rightarrow> KeyValue list" where
  "rtiming_Map filename contents =
     [\<lparr>Key = ''a'', Value = ''1''\<rparr>, \<lparr>Key = ''b'', Value = ''1''\<rparr>, \<lparr>Key = ''c'', Value = ''1''\<rparr>, \<lparr>Key = ''d'', Value = ''1''\<rparr>,
      \<lparr>Key = ''e'', Value = ''1''\<rparr>, \<lparr>Key = ''f'', Value = ''1''\<rparr>, \<lparr>Key = ''g'', Value = ''1''\<rparr>, \<lparr>Key = ''h'', Value = ''1''\<rparr>,
      \<lparr>Key = ''i'', Value = ''1''\<rparr>, \<lparr>Key = ''j'', Value = ''1''\<rparr>]"

definition rtiming_Reduce ::
  "int \<Rightarrow> (os_state \<Rightarrow> os_error + string list) \<Rightarrow> (int \<Rightarrow> bool) \<Rightarrow> string \<Rightarrow> string list \<Rightarrow> (go_panic, string) os" where
  "rtiming_Reduce pid readdir alive key vs =
     os_bind (nparallel pid readdir alive ''reduce'') (\<lambda>n. os_return (itoa n))"


section \<open>Words\<close>

lemma rune_bytes: "(r, bs) \<in> set (runes s) \<Longrightarrow> r = 0xFFFD \<or> (bs \<noteq> [] \<and> utf8_len bs = length bs)"
proof (induction s rule: runes.induct)
  case (2 c s)
  let ?n = "utf8_len (c # s)"
  show ?case
  proof (cases "?n = 0")
    case True
    then show ?thesis using 2 by (auto simp: Let_def)
  next
    case False
    have "utf8_len (take ?n (c # s)) = ?n" using utf8_len_take [OF False, of "[]"] by simp
    moreover have "length (take ?n (c # s)) = ?n" using utf8_len_le [of "c # s"] by (simp only: length_take min.absorb2)
    moreover have "take ?n (c # s) \<noteq> []" using False by simp
    ultimately show ?thesis using 2(2) 2(3) False
      by (simp only: runes.simps Let_def if_False list.set insert_iff prod.inject) metis
  qed
qed simp

lemma utf8_valid_append:
  assumes "bs \<noteq> []" and "utf8_len bs = length bs"
  shows "utf8_valid a \<Longrightarrow> utf8_valid (a @ bs)"
proof (induction a rule: utf8_valid.induct)
  case (1 a)
  show ?case
  proof (cases "a = []")
    case True
    then show ?thesis using assms by (simp add: utf8_valid.simps [of bs] utf8_valid.simps [of "[]"])
  next
    case False
    have v: "utf8_len a \<noteq> 0" "utf8_valid (drop (utf8_len a) a)"
      using 1(2) False by (simp_all add: utf8_valid.simps [of a] split: if_splits)
    have l: "utf8_len (a @ bs) = utf8_len a"
      using utf8_len_take [OF v(1), of "drop (utf8_len a) a @ bs"] by (simp add: append_assoc [symmetric] del: append_assoc)
    have "utf8_valid (drop (utf8_len a) a @ bs)" using 1(1) [OF False v(1) v(2)] .
    then show ?thesis using False v(1) l utf8_len_le [of a] by (simp add: utf8_valid.simps [of "a @ bs"])
  qed
qed

lemma fieldsLoop_valid:
  assumes "f 0xFFFD" and "\<forall>(r, bs) \<in> set rs. r = 0xFFFD \<or> (bs \<noteq> [] \<and> utf8_len bs = length bs)" and "utf8_valid cur"
    and "w \<in> set (fieldsLoop f cur rs)"
  shows "w \<noteq> [] \<and> utf8_valid w"
  using assms
proof (induction f cur rs rule: fieldsLoop.induct)
  case (1 f cur)
  then show ?case by (simp split: if_splits)
next
  case (2 f cur r bs rs)
  have e: "utf8_valid []" by (simp add: utf8_valid.simps)
  show ?case
  proof (cases "f r")
    case True
    then show ?thesis using 2 e by (auto split: if_splits)
  next
    case False
    then have "utf8_valid (cur @ bs)" using 2(4-6) utf8_valid_append by auto
    then show ?thesis using 2 False by auto
  qed
qed

text \<open>Words are not empty and valid UTF-8, whatever the text, and together they are the text's letters.\<close>

lemma words_valid:
  assumes "\<not> isLetter 0xFFFD" and "w \<in> set (FieldsFunc s (\<lambda>r. \<not> isLetter r))"
  shows "w \<noteq> [] \<and> utf8_valid w"
proof (rule fieldsLoop_valid [where f = "\<lambda>r. \<not> isLetter r"])
  show "\<forall>(r, bs) \<in> set (runes s). r = 0xFFFD \<or> (bs \<noteq> [] \<and> utf8_len bs = length bs)" using rune_bytes by blast
  show "utf8_valid []" by (simp add: utf8_valid.simps)
  show "w \<in> set (fieldsLoop (\<lambda>r. \<not> isLetter r) [] (runes s))" using assms(2) by (simp only: FieldsFunc_def)
  show "\<not> isLetter 0xFFFD" by (fact assms(1))
qed

lemma fieldsLoop_concat: "concat (fieldsLoop f cur rs) = cur @ concat (map snd (filter (\<lambda>p. \<not> f (fst p)) rs))"
  by (induction f cur rs rule: fieldsLoop.induct) simp_all


section \<open>What the applications compute\<close>

definition word_counts :: "string list \<Rightarrow> KeyValue list" where
  "word_counts ws = map (\<lambda>w. \<lparr>Key = w, Value = itoa (int (count_list ws w))\<rparr>) (sorted_list_of_set (set ws))"

definition text_words :: "(nat \<Rightarrow> bool) \<Rightarrow> string \<Rightarrow> string list" where
  "text_words isLetter s = FieldsFunc s (\<lambda>r. \<not> isLetter r)"

lemma wc_reduced: "reduced wc_Reduce (map (\<lambda>w. \<lparr>Key = w, Value = ''1''\<rparr>) ws) = word_counts ws"
proof -
  have "length (values_of (map (\<lambda>w. \<lparr>Key = w, Value = ''1''\<rparr>) ws) k) = count_list ws k" for k
    by (induction ws) (simp_all add: values_of_def)
  then show ?thesis by (simp add: reduced_def word_counts_def wc_Reduce_def image_image)
qed

lemma wc_order_free: "order_free wc_Reduce"
  by (simp add: order_free_def wc_Reduce_def) (metis size_mset)

lemma wc_pairs:
  "job_mapf J = wc_Map isLetter \<Longrightarrow>
   job_pairs J = map (\<lambda>w. \<lparr>Key = w, Value = ''1''\<rparr>) (concat (map (\<lambda>f. text_words isLetter (job_input J f)) (job_files J)))"
  by (simp add: job_pairs_def wc_Map_def text_words_def map_concat comp_def)

lemma job_ok_pairs:
  assumes "0 \<le> job_globalID J" and "0 < job_nReduce J" and "\<forall>kv \<in> set (job_pairs J). kv_valid kv"
  shows "job_ok J"
proof -
  have "kv_valid kv" if m: "m \<in> mapIDs J" and kv: "kv \<in> set (map_output J m)" for m kv
  proof -
    have "nat (m - job_globalID J - 1) < length (job_files J)" using m by (auto simp: mapIDs_def)
    then have "map_input J m \<in> set (job_files J)" unfolding map_input_def by (rule nth_mem)
    then show ?thesis using kv assms(3) by (auto simp: job_pairs_def map_output_def)
  qed
  then show ?thesis using assms(1,2) by (simp add: job_ok_def)
qed

text \<open>The order of an indexer's words does not matter for what Reduce gets.\<close>

definition index_lines :: "(nat \<Rightarrow> bool) \<Rightarrow> (string \<Rightarrow> string) \<Rightarrow> string list \<Rightarrow> KeyValue list" where
  "index_lines isLetter input files = map (\<lambda>w.
       let docs = sort (filter (\<lambda>f. w \<in> set (text_words isLetter (input f))) files)
       in \<lparr>Key = w, Value = itoa (int (length docs)) @ '' '' @ strings_Join docs '',''\<rparr>)
     (sorted_list_of_set (set (concat (map (\<lambda>f. text_words isLetter (input f)) files))))"

lemma word_set_map: "foldl (\<lambda>m w. m(w \<mapsto> True)) m ws = (\<lambda>w. if w \<in> set ws then Some True else m w)"
  by (induction ws arbitrary: m) (auto simp: fun_eq_iff)

lemma indexer_order:
  assumes "\<And>m. finite (dom m) \<Longrightarrow> range_order m (order m)"
  shows "\<exists>ws. distinct ws \<and> set ws = set (text_words isLetter s) \<and>
    indexer_Map order isLetter f s = map (\<lambda>w. \<lparr>Key = w, Value = f\<rparr>) ws"
proof -
  let ?m = "\<lambda>w. if w \<in> set (text_words isLetter s) then Some True else None"
  have d: "dom ?m = set (text_words isLetter s)" by (auto simp: dom_def)
  have "range_order ?m (order ?m)" by (rule assms) (simp add: d)
  moreover have "indexer_Map order isLetter f s = map (\<lambda>w. \<lparr>Key = w, Value = f\<rparr>) (order ?m)"
    by (simp add: indexer_Map_def word_set_map text_words_def cong: if_cong)
  ultimately show ?thesis using d unfolding range_order_def by blast
qed

lemma distinct_single: "distinct ws \<Longrightarrow> filter (\<lambda>w. w = k) ws = (if k \<in> set ws then [k] else [])"
  by (induction ws) auto

lemma indexer_values:
  assumes "\<And>m. finite (dom m) \<Longrightarrow> range_order m (order m)"
  shows "values_of (concat (map (\<lambda>f. indexer_Map order isLetter f (input f)) files)) k =
    filter (\<lambda>f. k \<in> set (text_words isLetter (input f))) files"
proof (induction files)
  case (Cons f files)
  obtain ws where ws: "distinct ws" "set ws = set (text_words isLetter (input f))"
    "indexer_Map order isLetter f (input f) = map (\<lambda>w. \<lparr>Key = w, Value = f\<rparr>) ws" using indexer_order [OF assms] by blast
  have "values_of (indexer_Map order isLetter f (input f)) k = (if k \<in> set (text_words isLetter (input f)) then [f] else [])"
    using ws by (simp add: values_of_def filter_map comp_def distinct_single)
  then show ?case using Cons by (simp add: values_of_def)
qed (simp add: values_of_def)

lemma indexer_reduced:
  assumes "\<And>m. finite (dom m) \<Longrightarrow> range_order m (order m)"
  shows "reduced indexer_Reduce (concat (map (\<lambda>f. indexer_Map order isLetter f (input f)) files)) = index_lines isLetter input files"
proof -
  have k: "Key ` set (indexer_Map order isLetter f (input f)) = set (text_words isLetter (input f))" for f
  proof -
    obtain ws where "set ws = set (text_words isLetter (input f))" "indexer_Map order isLetter f (input f) = map (\<lambda>w. \<lparr>Key = w, Value = f\<rparr>) ws"
      using indexer_order [OF assms, of isLetter "input f" f] by blast
    then show ?thesis by (simp add: image_image)
  qed
  have "Key ` set (concat (map (\<lambda>f. indexer_Map order isLetter f (input f)) files)) =
      set (concat (map (\<lambda>f. text_words isLetter (input f)) files))" by (simp add: image_UN k)
  moreover have "values_of (concat (map (\<lambda>f. indexer_Map order isLetter f (input f)) files)) k =
      filter (\<lambda>f. k \<in> set (text_words isLetter (input f))) files" for k by (rule indexer_values) (rule assms)
  ultimately show ?thesis unfolding reduced_def index_lines_def indexer_Reduce_def Let_def by (simp only: )
qed

lemma indexer_order_free: "order_free indexer_Reduce"
  unfolding order_free_def indexer_Reduce_def Let_def using sort_cong by metis


definition app_run :: "(KeyValue list \<Rightarrow> KeyValue list) \<Rightarrow> string list \<Rightarrow> os_state \<Rightarrow> (string \<rightharpoonup> (string \<rightharpoonup> plugin_symbol)) \<Rightarrow> string \<Rightarrow> Job \<Rightarrow> bool" where
  "app_run srt ws s plugins app J \<longleftrightarrow> sorts_keys srt \<and> worker_cwd ws s \<and> inputs_ok (job_files J) (job_input J) s \<and> job_files J \<noteq> [] \<and>
     local_key ws ''mr-out-0'' \<notin> os_dirs s \<and> loadPlugin plugins app = Inr (job_mapf J, job_reducef J) \<and>
     0 \<le> job_globalID J \<and> 0 < job_nReduce J"

text \<open>C33: the word counter counts words.  Run on some readable files by the sequential program, where no system call
  fails, it writes one line for every word of the files, in ascending order, with the number of its occurrences in
  all files together.  Every distributed job that finishes without an incident (no reopened map task overtakes the
  reply of a reduce task, no line fails to print, no output file of a shared directory is opened twice) has, for each
  bucket, a site whose output file holds exactly the lines of the words that hash to the bucket.  The files may hold
  any bytes, since the words of broken UTF-8 are valid UTF-8 when the replacement character is not a letter.\<close>

theorem word_count_correct:
  assumes "app_run srt ws s plugins app J" and "\<not> isLetter 0xFFFD"
    and "job_mapf J = wc_Map isLetter" and "job_reducef J = wc_Reduce"
  shows "(\<exists>s'. mrsequential plugins srt (prog # app # job_files J) s = (Inr (), s') \<and>
      os_files s' (local_key ws ''mr-out-0'') =
        Some (output_text (word_counts (concat (map (\<lambda>f. text_words isLetter (job_input J f)) (job_files J)))))) \<and>
    (\<forall>S mo ro b. sys_reach J {} S \<and> range_order (mapTasks (sy_coord S)) mo \<and> range_order (reduceTasks (sy_coord S)) ro \<and>
       Done mo ro (sy_coord S) \<and> is_bucket J b \<longrightarrow>
       (\<exists>x. output_file J S x b = Some (output_text (filter (\<lambda>kv. ihash (Key kv) mod job_nReduce J = b)
          (word_counts (concat (map (\<lambda>f. text_words isLetter (job_input J f)) (job_files J))))))))"
proof -
  note a = assms(1) [unfolded app_run_def]
  have "kv_valid kv" if kv: "kv \<in> set (job_pairs J)" for kv
  proof -
    obtain f w where "f \<in> set (job_files J)" "w \<in> set (text_words isLetter (job_input J f))" "kv = \<lparr>Key = w, Value = ''1''\<rparr>"
      using kv unfolding wc_pairs [OF assms(3)] by auto
    moreover have "utf8_valid ''1''" by code_simp
    ultimately show ?thesis using words_valid [of isLetter, OF assms(2)] by (simp add: kv_valid_def text_words_def)
  qed
  then have ok: "job_ok J" using a by (intro job_ok_pairs) simp_all
  have l: "word_counts (concat (map (\<lambda>f. text_words isLetter (job_input J f)) (job_files J))) = reduced (job_reducef J) (job_pairs J)"
    unfolding assms(4) wc_pairs [OF assms(3)] wc_reduced ..
  have fr: "order_free (job_reducef J)" unfolding assms(4) by (rule wc_order_free)
  show ?thesis by (rule sequential_distributed [OF _ _ _ _ _ _ fr ok l]) (use a in simp_all)
qed

text \<open>C34: the indexer lists documents.  For every word of the files, in ascending order, the output has one line with
  the number of files that have the word and their names, sorted: in one file from the sequential program, run on
  readable files without a failing system call, and spread over the buckets in every distributed job that finishes
  without an incident (no reopened map task overtakes the reply of a reduce task, no line fails to print, no output
  file of a shared directory is opened twice).  The file names are valid UTF-8, as they travel through JSON.  The
  order in which Go visits the map of words does not matter.\<close>

theorem index_correct:
  assumes "app_run srt ws s plugins app J" and "\<not> isLetter 0xFFFD" and "\<forall>f \<in> set (job_files J). utf8_valid f"
    and "\<And>m. finite (dom m) \<Longrightarrow> range_order m (order m)"
    and "job_mapf J = indexer_Map order isLetter" and "job_reducef J = indexer_Reduce"
  shows "(\<exists>s'. mrsequential plugins srt (prog # app # job_files J) s = (Inr (), s') \<and>
      os_files s' (local_key ws ''mr-out-0'') = Some (output_text (index_lines isLetter (job_input J) (job_files J)))) \<and>
    (\<forall>S mo ro b. sys_reach J {} S \<and> range_order (mapTasks (sy_coord S)) mo \<and> range_order (reduceTasks (sy_coord S)) ro \<and>
       Done mo ro (sy_coord S) \<and> is_bucket J b \<longrightarrow>
       (\<exists>x. output_file J S x b = Some (output_text (filter (\<lambda>kv. ihash (Key kv) mod job_nReduce J = b)
          (index_lines isLetter (job_input J) (job_files J))))))"
proof -
  note a = assms(1) [unfolded app_run_def]
  have p: "job_pairs J = concat (map (\<lambda>f. indexer_Map order isLetter f (job_input J f)) (job_files J))"
    by (simp add: job_pairs_def assms(5))
  have "kv_valid kv" if kv: "kv \<in> set (job_pairs J)" for kv
  proof -
    obtain f where f: "f \<in> set (job_files J)" "kv \<in> set (indexer_Map order isLetter f (job_input J f))" using kv unfolding p by auto
    obtain ws where "set ws = set (text_words isLetter (job_input J f))"
      "indexer_Map order isLetter f (job_input J f) = map (\<lambda>w. \<lparr>Key = w, Value = f\<rparr>) ws" using indexer_order [OF assms(4)] by blast
    then obtain w where "w \<in> set (text_words isLetter (job_input J f))" "kv = \<lparr>Key = w, Value = f\<rparr>" using f(2) by auto
    then show ?thesis using words_valid [of isLetter, OF assms(2)] assms(3) f(1) by (simp add: kv_valid_def text_words_def)
  qed
  then have ok: "job_ok J" using a by (intro job_ok_pairs) simp_all
  have l: "index_lines isLetter (job_input J) (job_files J) = reduced (job_reducef J) (job_pairs J)"
    unfolding assms(6) p by (rule indexer_reduced [symmetric]) (rule assms(4))
  have fr: "order_free (job_reducef J)" unfolding assms(6) by (rule indexer_order_free)
  show ?thesis by (rule sequential_distributed [OF _ _ _ _ _ _ fr ok l]) (use a in simp_all)
qed


definition ex_isLetter :: "nat \<Rightarrow> bool" where
  "ex_isLetter r \<longleftrightarrow> (65 \<le> r \<and> r \<le> 90) \<or> (97 \<le> r \<and> r \<le> 122)"

definition ex_app_input :: "string \<Rightarrow> string" where
  "ex_app_input f = (if f = ''p'' then ''to be, to'' else ''to go'')"

definition ex_app_job :: "(string \<Rightarrow> string \<Rightarrow> KeyValue list) \<Rightarrow> (string \<Rightarrow> string list \<Rightarrow> string) \<Rightarrow> Job" where
  "ex_app_job mapf reducef = \<lparr>job_globalID = 0, job_files = [''p'', ''q''], job_nReduce = 2, job_mapf = mapf, job_reducef = reducef,
     job_input = ex_app_input, job_site = (\<lambda>w. w), job_dir = (\<lambda>x. [''w''])\<rparr>"

definition ex_app_os :: os_state where
  "ex_app_os = \<lparr>os_cwd = ''/w'', os_files = [''/w/p'' \<mapsto> ''to be, to'', ''/w/q'' \<mapsto> ''to go''], os_dirs = {}, os_faults = [], os_draws = []\<rparr>"

definition ex_app_plugins :: "(string \<Rightarrow> string \<Rightarrow> KeyValue list) \<Rightarrow> (string \<Rightarrow> string list \<Rightarrow> string) \<Rightarrow> (string \<rightharpoonup> (string \<rightharpoonup> plugin_symbol))" where
  "ex_app_plugins mapf reducef = [''app.so'' \<mapsto> [''Map'' \<mapsto> MapSymbol mapf, ''Reduce'' \<mapsto> ReduceSymbol reducef]]"

lemma ex_app_run: "app_run (sort_key Key) [''w''] ex_app_os (ex_app_plugins mapf reducef) ''app.so'' (ex_app_job mapf reducef)"
proof -
  have names: "os_key ''/w'' ''p'' = ''/w/p''" "os_key ''/w'' ''q'' = ''/w/q''" by code_simp+
  have "worker_cwd [''w''] ex_app_os" by (simp add: worker_cwd_def ex_app_os_def normal_comp_def)
  moreover have "inputs_ok (job_files (ex_app_job mapf reducef)) (job_input (ex_app_job mapf reducef)) ex_app_os"
    using names by (simp add: inputs_ok_def ex_app_job_def ex_app_os_def ex_app_input_def)
  ultimately show ?thesis using ex_sorts_keys
    by (simp add: app_run_def) (simp add: ex_app_job_def ex_app_os_def loadPlugin_def ex_app_plugins_def)
qed

lemma ex_out_key: "local_key [''w''] ''mr-out-0'' = ''/w/mr-out-0''"
  by code_simp

lemma ex_words: "text_words ex_isLetter (ex_app_input ''p'') = [''to'', ''be'', ''to'']" "text_words ex_isLetter (ex_app_input ''q'') = [''to'', ''go'']"
  by (simp_all add: ex_app_input_def text_words_def FieldsFunc_def rune_of_def ex_isLetter_def)

text \<open>The distributed half: the file \<open>p\<close> alone, in one bucket.\<close>

abbreviation ex_one_job :: "(string \<Rightarrow> string \<Rightarrow> KeyValue list) \<Rightarrow> (string \<Rightarrow> string list \<Rightarrow> string) \<Rightarrow> Job" where
  "ex_one_job \<equiv> one_job ''p'' ''to be, to''"

lemma ex_one_run: "app_run (sort_key Key) [''w''] ex_app_os (ex_app_plugins mapf reducef) ''app.so'' (ex_one_job mapf reducef)"
proof -
  have "os_key ''/w'' ''p'' = ''/w/p''" by code_simp
  moreover have "worker_cwd [''w''] ex_app_os" by (simp add: worker_cwd_def ex_app_os_def normal_comp_def)
  ultimately show ?thesis using ex_sorts_keys
    by (simp add: app_run_def inputs_ok_def) (simp add: one_job_def ex_app_os_def loadPlugin_def ex_app_plugins_def)
qed

lemma ex_one_words: "text_words ex_isLetter ''to be, to'' = [''to'', ''be'', ''to'']"
  using ex_words(1) by (simp add: ex_app_input_def)

lemma ex_one_finished:
  assumes "\<forall>kv \<in> set (mapf ''p'' ''to be, to''). kv_valid kv"
  shows "\<exists>S. sys_reach (ex_one_job mapf reducef) {} S \<and> range_order (mapTasks (sy_coord S)) [1] \<and>
    range_order (reduceTasks (sy_coord S)) [2] \<and> Done [1] [2] (sy_coord S) \<and> is_bucket (ex_one_job mapf reducef) 0"
  using one_finished [of mapf "''p''" "''to be, to''"] assms by (simp add: is_bucket_def) (simp add: one_job_def)

theorem word_count_correct_witness:
  "(\<exists>s'. mrsequential (ex_app_plugins (wc_Map ex_isLetter) wc_Reduce) (sort_key Key) [''mrsequential'', ''app.so'', ''p'', ''q''] ex_app_os = (Inr (), s') \<and>
     os_files s' ''/w/mr-out-0'' = Some (''be 1'' @ newline # ''go 1'' @ newline # ''to 3'' @ [newline])) \<and>
   (\<exists>S x. sys_reach (ex_one_job (wc_Map ex_isLetter) wc_Reduce) {} S \<and> Done [1] [2] (sy_coord S) \<and>
     output_file (ex_one_job (wc_Map ex_isLetter) wc_Reduce) S x 0 = Some (''be 1'' @ newline # ''to 2'' @ [newline]))"
proof -
  let ?J = "ex_app_job (wc_Map ex_isLetter) wc_Reduce" and ?O = "ex_one_job (wc_Map ex_isLetter) wc_Reduce"
  have f: "job_files ?J = [''p'', ''q'']" "job_mapf ?J = wc_Map ex_isLetter" "job_reducef ?J = wc_Reduce" by (simp_all add: ex_app_job_def)
  have o: "job_files ?O = [''p'']" "job_mapf ?O = wc_Map ex_isLetter" "job_reducef ?O = wc_Reduce" "job_nReduce ?O = 1"
    "job_input ?O ''p'' = ''to be, to''" by (simp_all add: one_job_def)
  have nl: "\<not> ex_isLetter 0xFFFD" by (simp add: ex_isLetter_def)
  have i: "job_input ?J = ex_app_input" by (simp add: ex_app_job_def)
  have "output_text (word_counts (concat (map (\<lambda>f. text_words ex_isLetter (job_input ?J f)) [''p'', ''q'']))) =
      ''be 1'' @ newline # ''go 1'' @ newline # ''to 3'' @ [newline]" unfolding i list.map ex_words by code_simp
  then have seq: "\<exists>s'. mrsequential (ex_app_plugins (wc_Map ex_isLetter) wc_Reduce) (sort_key Key) [''mrsequential'', ''app.so'', ''p'', ''q''] ex_app_os = (Inr (), s') \<and>
      os_files s' ''/w/mr-out-0'' = Some (''be 1'' @ newline # ''go 1'' @ newline # ''to 3'' @ [newline])"
    using word_count_correct [OF ex_app_run nl f(2,3), of "''mrsequential''"] unfolding f(1) ex_out_key by simp
  have "wc_Map ex_isLetter ''p'' ''to be, to'' = map (\<lambda>w. \<lparr>Key = w, Value = ''1''\<rparr>) [''to'', ''be'', ''to'']"
    by (simp add: wc_Map_def ex_one_words [unfolded text_words_def])
  moreover have "\<forall>kv \<in> set (map (\<lambda>w. \<lparr>Key = w, Value = ''1''\<rparr>) [''to'', ''be'', ''to'']). kv_valid kv" by code_simp
  ultimately obtain S where S: "sys_reach ?O {} S" "range_order (mapTasks (sy_coord S)) [1]"
    "range_order (reduceTasks (sy_coord S)) [2]" "Done [1] [2] (sy_coord S)" "is_bucket ?O 0"
    using ex_one_finished [of "wc_Map ex_isLetter" wc_Reduce] by auto
  have w: "word_counts (concat (map (\<lambda>f. text_words ex_isLetter (job_input ?O f)) (job_files ?O))) =
      [\<lparr>Key = ''be'', Value = ''1''\<rparr>, \<lparr>Key = ''to'', Value = ''2''\<rparr>]"
    unfolding o(1) list.map o(5) ex_one_words by code_simp
  have "\<exists>x. output_file ?O S x 0 = Some (output_text (filter (\<lambda>kv. ihash (Key kv) mod job_nReduce ?O = 0)
      [\<lparr>Key = ''be'', Value = ''1''\<rparr>, \<lparr>Key = ''to'', Value = ''2''\<rparr>]))"
    using word_count_correct [OF ex_one_run nl o(2,3), THEN conjunct2, unfolded w] S by blast
  then show ?thesis using seq S unfolding o(4) by (auto simp: output_text_def output_line_def)
qed

definition ex_word_order :: "(string \<rightharpoonup> bool) \<Rightarrow> string list" where
  "ex_word_order m = (if finite (dom m) then sorted_list_of_set (dom m) else [])"

theorem index_correct_witness:
  "(\<exists>s'. mrsequential (ex_app_plugins (indexer_Map ex_word_order ex_isLetter) indexer_Reduce) (sort_key Key)
       [''mrsequential'', ''app.so'', ''p'', ''q''] ex_app_os = (Inr (), s') \<and>
     os_files s' ''/w/mr-out-0'' = Some (''be 1 p'' @ newline # ''go 1 q'' @ newline # ''to 2 p,q'' @ [newline])) \<and>
   (\<exists>S x. sys_reach (ex_one_job (indexer_Map ex_word_order ex_isLetter) indexer_Reduce) {} S \<and> Done [1] [2] (sy_coord S) \<and>
     output_file (ex_one_job (indexer_Map ex_word_order ex_isLetter) indexer_Reduce) S x 0 =
       Some (''be 1 p'' @ newline # ''to 1 p'' @ [newline]))"
proof -
  let ?m = "indexer_Map ex_word_order ex_isLetter"
  let ?J = "ex_app_job ?m indexer_Reduce" and ?O = "ex_one_job ?m indexer_Reduce"
  have f: "job_files ?J = [''p'', ''q'']" "job_mapf ?J = ?m" "job_reducef ?J = indexer_Reduce"
    by (simp_all add: ex_app_job_def)
  have o: "job_files ?O = [''p'']" "job_mapf ?O = ?m" "job_reducef ?O = indexer_Reduce" "job_nReduce ?O = 1"
    "job_input ?O ''p'' = ''to be, to''" by (simp_all add: one_job_def)
  have nl: "\<not> ex_isLetter 0xFFFD" by (simp add: ex_isLetter_def)
  have ord: "\<And>m. finite (dom m) \<Longrightarrow> range_order m (ex_word_order m)" by (simp add: range_order_def ex_word_order_def)
  have u: "\<forall>f \<in> set (job_files ?J). utf8_valid f" "\<forall>f \<in> set (job_files ?O). utf8_valid f" unfolding f(1) o(1) by code_simp+
  have i: "job_input ?J = ex_app_input" by (simp add: ex_app_job_def)
  have "output_text (index_lines ex_isLetter (job_input ?J) [''p'', ''q'']) =
      ''be 1 p'' @ newline # ''go 1 q'' @ newline # ''to 2 p,q'' @ [newline]"
    unfolding i index_lines_def list.map filter.simps ex_words by code_simp
  then have seq: "\<exists>s'. mrsequential (ex_app_plugins ?m indexer_Reduce) (sort_key Key) [''mrsequential'', ''app.so'', ''p'', ''q''] ex_app_os = (Inr (), s') \<and>
      os_files s' ''/w/mr-out-0'' = Some (''be 1 p'' @ newline # ''go 1 q'' @ newline # ''to 2 p,q'' @ [newline])"
    using index_correct [OF ex_app_run nl u(1) ord f(2,3), of "''mrsequential''"] unfolding f(1) ex_out_key by simp
  obtain ws where "set ws = set [''to'', ''be'', ''to'']" "?m ''p'' ''to be, to'' = map (\<lambda>w. \<lparr>Key = w, Value = ''p''\<rparr>) ws"
    using indexer_order [OF ord] unfolding ex_one_words [symmetric] by blast
  moreover have "kv_valid \<lparr>Key = ''to'', Value = ''p''\<rparr>" "kv_valid \<lparr>Key = ''be'', Value = ''p''\<rparr>" by code_simp+
  ultimately have "\<forall>kv \<in> set (?m ''p'' ''to be, to''). kv_valid kv" by auto
  then obtain S where S: "sys_reach ?O {} S" "range_order (mapTasks (sy_coord S)) [1]"
    "range_order (reduceTasks (sy_coord S)) [2]" "Done [1] [2] (sy_coord S)" "is_bucket ?O 0"
    using ex_one_finished [of ?m indexer_Reduce] by auto
  have w: "index_lines ex_isLetter (job_input ?O) (job_files ?O) =
      [\<lparr>Key = ''be'', Value = ''1 p''\<rparr>, \<lparr>Key = ''to'', Value = ''1 p''\<rparr>]"
    unfolding o(1) index_lines_def list.map filter.simps o(5) ex_one_words by code_simp
  have "\<exists>x. output_file ?O S x 0 = Some (output_text (filter (\<lambda>kv. ihash (Key kv) mod job_nReduce ?O = 0)
      [\<lparr>Key = ''be'', Value = ''1 p''\<rparr>, \<lparr>Key = ''to'', Value = ''1 p''\<rparr>]))"
    using index_correct [OF ex_one_run nl u(2) ord o(2,3), THEN conjunct2, unfolded w] S by blast
  then show ?thesis using seq S unfolding o(4) by (auto simp: output_text_def output_line_def)
qed

section \<open>What the testing applications do\<close>

text \<open>\<^verbatim>\<open>crash.go\<close>, where it survives, gives what \<^verbatim>\<open>nocrash.go\<close> gives, at most ten seconds later.\<close>

lemma crash_like_nocrash:
  assumes "ms < 10000"
  shows "330 \<le> rr \<Longrightarrow> \<exists>d < 10000. crash_Map rr ms f c = map_sum (\<lambda>e. e) (\<lambda>(_, a). (d, a)) (nocrash_Map rr' f c) \<and>
      crash_Reduce rr ms k vs = map_sum (\<lambda>e. e) (\<lambda>(_, a). (d, a)) (nocrash_Reduce rr' k vs)"
    and "rr < 330 \<Longrightarrow> crash_Map rr ms f c = Inl 1 \<and> crash_Reduce rr ms k vs = Inl 1"
  using assms by (auto simp: crash_Map_def nocrash_Map_def crash_Reduce_def nocrash_Reduce_def after_crash_def
      crash_maybeCrash_def nocrash_maybeCrash_def)

lemma scan_digits: "scan_int (itoa p) = Some p" if "- (2 ^ 63) \<le> p" "p < 2 ^ 63"
proof -
  have d: "\<not> is_blank c" "c \<noteq> CHR ''-''" "c \<noteq> CHR ''+''" if "is_digit c" for c using that by (auto simp: is_digit_def is_blank_def)
  have hd: "is_digit (hd (itoa_nat n))" for n using itoa_nat_digits [of "hd (itoa_nat n)" n] by simp
  have tw: "takeWhile is_digit (itoa_nat n) = itoa_nat n" for n using itoa_nat_digits by (simp add: takeWhile_eq_all_conv)
  have dw: "dropWhile is_blank (itoa_nat n) = itoa_nat n" for n
    using d(1) [OF hd [of n]] by (cases "itoa_nat n") simp_all
  show ?thesis
  proof (cases "p < 0")
    case True
    then have i: "itoa p = CHR ''-'' # itoa_nat (nat (- p))" by (simp add: itoa_def)
    show ?thesis unfolding i using that True by (simp add: scan_int_def is_blank_def atoi_itoa_nat Let_def tw)
  next
    case False
    then have i: "itoa p = itoa_nat (nat p)" by (simp add: itoa_nonneg)
    show ?thesis unfolding i using that False d(2,3) [OF hd] by (simp add: scan_int_def atoi_itoa_nat Let_def tw dw)
  qed
qed

lemma Sscanf_itoa: "- (2 ^ 63) \<le> p \<Longrightarrow> p < 2 ^ 63 \<Longrightarrow> Sscanf_d (lit @ itoa p) lit = Some p"
  by (simp add: Sscanf_d_def scan_digits)


lemma live_names:
  assumes "filter (\<lambda>name. HasPrefix name lit) names = map (\<lambda>p. lit @ itoa p) ps" and "\<forall>p \<in> set ps. - (2 ^ 63) \<le> p \<and> p < 2 ^ 63"
  shows "length (filter (\<lambda>name. case Sscanf_d name lit of None \<Rightarrow> False | Some xpid \<Rightarrow> alive xpid) names) = length (filter alive ps)"
proof -
  let ?q = "\<lambda>name. case Sscanf_d name lit of None \<Rightarrow> False | Some xpid \<Rightarrow> alive xpid"
  have "filter ?q names = filter ?q (filter (\<lambda>name. HasPrefix name lit) names)"
    unfolding filter_filter by (intro filter_cong) (auto simp: Sscanf_d_def)
  also have "\<dots> = map (\<lambda>p. lit @ itoa p) (filter (\<lambda>p. ?q (lit @ itoa p)) ps)" unfolding assms(1) by (simp add: filter_map comp_def)
  also have "filter (\<lambda>p. ?q (lit @ itoa p)) ps = filter alive ps" using assms(2) by (intro filter_cong) (simp_all add: Sscanf_itoa)
  finally show ?thesis by simp
qed

text \<open>C35: \<^verbatim>\<open>nparallel\<close> counts the workers that run at the same time.  When no system call fails, and the directory holds a
  file for each of the processes \<open>ps\<close> and no other file of that phase, it returns the number of these
  processes that are alive, and its own file is gone again while every other file is as it was.\<close>

theorem nparallel_counts:
  assumes "worker_cwd ws s" and "os_faults s = []" and "normal_comp (phase_prefix phase @ itoa pid)"
    and "local_key ws (phase_prefix phase @ itoa pid) \<notin> os_dirs s"
    and "\<And>s'. os_files s' = (os_files s)(local_key ws (phase_prefix phase @ itoa pid) \<mapsto> ''x'') \<Longrightarrow> readdir s' = Inr names"
    and "filter (\<lambda>name. HasPrefix name (phase_prefix phase)) names = map (\<lambda>p. phase_prefix phase @ itoa p) ps"
    and "\<forall>p \<in> set ps. - (2 ^ 63) \<le> p \<and> p < 2 ^ 63"
  shows "\<exists>s'. nparallel pid readdir alive phase s = (Inr (int (length (filter alive ps))), s') \<and>
    os_files s' = (os_files s)(local_key ws (phase_prefix phase @ itoa pid) := None)"
proof -
  let ?f = "phase_prefix phase @ itoa pid"
  let ?k = "local_key ws ?f"
  let ?s1 = "s\<lparr>os_files := (os_files s)(?k \<mapsto> ''x'')\<rparr>"
  have k: "os_key (os_cwd s) ?f = ?k" by (rule worker_key [OF assms(1,3)])
  have w: "WriteFile ?f ''x'' s = (Inr (), ?s1)"
    using assms(2,4) k by (simp add: WriteFile_def os_bind_def os_defer_def os_Create_def os_Write_def os_flush_def os_call_def Let_def)
  have r: "os_Remove ?f ?s1 = (Inr (), ?s1\<lparr>os_files := (os_files ?s1)(?k := None)\<rparr>)"
    using assms(2) k by (simp add: os_Remove_def os_call_def Let_def)
  have "readdir ?s1 = Inr names" by (rule assms(5)) simp
  then have "nparallel pid readdir alive phase s = (Inr (int (length (filter alive ps))), ?s1\<lparr>os_files := (os_files ?s1)(?k := None)\<rparr>)"
    unfolding nparallel_def Let_def os_bind_def os_panic_def os_mapErr_def w
    by (simp add: r live_names [OF assms(6,7)] os_return_def)
  then show ?thesis by simp
qed

theorem nparallel_counts_witness:
  "\<exists>s'. nparallel 7 (\<lambda>s. Inr [''p'', ''mr-worker-map-7'', ''mr-worker-map-8'', ''mr-worker-map-9'']) (\<lambda>p. p \<noteq> 9) ''map'' ex_app_os = (Inr 2, s') \<and>
    os_files s' = os_files ex_app_os"
proof -
  let ?ns = "[''p'', ''mr-worker-map-7'', ''mr-worker-map-8'', ''mr-worker-map-9'']"
  have f: "phase_prefix ''map'' @ itoa 7 = ''mr-worker-map-7''" "local_key [''w''] ''mr-worker-map-7'' = ''/w/mr-worker-map-7''" by code_simp+
  have ps: "filter (\<lambda>name. HasPrefix name (phase_prefix ''map'')) ?ns = map (\<lambda>p. phase_prefix ''map'' @ itoa p) [7, 8, 9]" by code_simp
  have n: "normal_comp (phase_prefix ''map'' @ itoa 7)" unfolding f by (simp add: normal_comp_def)
  have d: "local_key [''w''] (phase_prefix ''map'' @ itoa 7) \<notin> os_dirs ex_app_os" by (simp add: ex_app_os_def)
  have c: "worker_cwd [''w''] ex_app_os" "os_faults ex_app_os = []" by (simp_all add: worker_cwd_def ex_app_os_def normal_comp_def)
  have "\<exists>s'. nparallel 7 (\<lambda>s. Inr ?ns) (\<lambda>p. p \<noteq> 9) ''map'' ex_app_os = (Inr (int (length (filter (\<lambda>p. p \<noteq> 9) [7, 8, 9 :: int]))), s') \<and>
      os_files s' = (os_files ex_app_os)(local_key [''w''] (phase_prefix ''map'' @ itoa 7) := None)"
    by (rule nparallel_counts [OF c n d _ ps]) simp_all
  moreover have "(os_files ex_app_os)(''/w/mr-worker-map-7'' := None) = os_files ex_app_os" by (simp add: ex_app_os_def fun_eq_iff)
  ultimately show ?thesis unfolding f by simp
qed

end
