(* ===== verification/Http.thy ===== *)
theory Http
  imports Prelude
begin

text \<open>
  The HTTP library of Lab 1 (\<^verbatim>\<open>src/Labs/Lab1/http/\<close>): status codes, methods, responses and their
  wire format, the response builder, and the server's dispatch, connection handler and accept loop.
  \<^verbatim>\<open>net/http\<close> parses the requests: a connection carries the result of \<^verbatim>\<open>http.ReadRequest\<close>, absent
  when it failed.  A handler may change a world of its own (the file server's is the file store).
\<close>

section \<open>Status codes, methods, errors\<close>

type_synonym StatusCode = int

abbreviation Status_Ok :: StatusCode where "Status_Ok \<equiv> 200"
abbreviation Status_Created :: StatusCode where "Status_Created \<equiv> 201"
abbreviation Status_BadRequest :: StatusCode where "Status_BadRequest \<equiv> 400"
abbreviation Status_NotFound :: StatusCode where "Status_NotFound \<equiv> 404"
abbreviation Status_InternalServerError :: StatusCode where "Status_InternalServerError \<equiv> 500"
abbreviation Status_NotImplemented :: StatusCode where "Status_NotImplemented \<equiv> 501"

definition Phrase :: "StatusCode \<Rightarrow> string" where
  "Phrase statusCode =
     (if statusCode = Status_Ok then ''OK''
      else if statusCode = Status_Created then ''Created''
      else if statusCode = Status_BadRequest then ''Bad Request''
      else if statusCode = Status_NotFound then ''Not Found''
      else if statusCode = Status_InternalServerError then ''Internal Server Error''
      else if statusCode = Status_NotImplemented then ''Not Implemented''
      else ''Unknown'')"

text \<open>An \<^verbatim>\<open>error\<close> a handler returns: an \<^verbatim>\<open>*HTTPError\<close>, or any other.\<close>

datatype handler_error = HTTPError StatusCode | OtherError string

definition HTTPError_Error :: "StatusCode \<Rightarrow> string" where
  "HTTPError_Error status = itoa status @ '' '' @ Phrase status"

type_synonym HTTPMethod = string

definition HTTPMethod_IsValid :: "HTTPMethod \<Rightarrow> bool" where
  "HTTPMethod_IsValid method \<longleftrightarrow>
     method \<in> {''GET'', ''HEAD'', ''OPTIONS'', ''TRACE'', ''PUT'', ''DELETE'', ''POST'', ''PATCH'', ''CONNECT''}"

text \<open>The fields of \<^verbatim>\<open>net/http\<close>'s request the repository reads; the body as the chunks its
  reader returns, and whether it then ends in \<^verbatim>\<open>io.EOF\<close> (otherwise in an error).\<close>

type_synonym Headers = "string \<rightharpoonup> string list"

record Request =
  Req_Method :: string
  Req_Proto :: string
  Req_URL_Path :: string
  Req_URL_Host :: string
  Req_Host :: string
  Req_Header :: Headers
  Req_RequestURI :: string
  Req_Body :: "string list \<times> bool"

section \<open>Responses\<close>

record Response =
  Resp_Protocol :: string
  Resp_StatusCode :: StatusCode
  Resp_Headers :: Headers
  Resp_Body :: string

definition NewResponse :: "Request option \<Rightarrow> Response" where
  "NewResponse request =
     (let protocol = (case request of
                        Some r \<Rightarrow> if Req_Proto r \<noteq> [] then Req_Proto r else ''HTTP/1.1''
                      | None \<Rightarrow> ''HTTP/1.1'')
      in \<lparr>Resp_Protocol = protocol, Resp_StatusCode = Status_Ok, Resp_Headers = Map.empty, Resp_Body = []\<rparr>)"

abbreviation cr :: char where "cr \<equiv> CHR 0x0D"
abbreviation lf :: char where "lf \<equiv> CHR 0x0A"
abbreviation crlf :: string where "crlf \<equiv> [CHR 0x0D, CHR 0x0A]"

definition formatStartLine :: "Response \<Rightarrow> string" where
  "formatStartLine response =
     Resp_Protocol response @ '' '' @ itoa (Resp_StatusCode response) @ '' '' @
     Phrase (Resp_StatusCode response) @ crlf"

text \<open>The loop over the header map, in the order \<open>ks\<close> of its keys.\<close>

definition formatHeaders :: "string list \<Rightarrow> Response \<Rightarrow> string" where
  "formatHeaders ks response =
     foldl (\<lambda>headers key.
              (case Resp_Headers response key of
                 None \<Rightarrow> headers
               | Some values \<Rightarrow> headers @ key @ '': '' @ strings_Join values '', '' @ crlf)) [] ks"

definition hasBody :: "Response \<Rightarrow> bool" where
  "hasBody response \<longleftrightarrow> Resp_Headers response ''Content-Length'' \<noteq> None"

definition Response_Bytes :: "string list \<Rightarrow> Response \<Rightarrow> string" where
  "Response_Bytes ks response =
     (let b = formatStartLine response @ formatHeaders ks response @ crlf
      in if hasBody response then b @ Resp_Body response else b)"

text \<open>The builder holds one response and every method returns the builder.\<close>

definition NewResponseBuilder :: "Request option \<Rightarrow> Response" where
  "NewResponseBuilder request = NewResponse request"

definition Builder_Status :: "StatusCode \<Rightarrow> Response \<Rightarrow> Response" where
  "Builder_Status statusCode b = b\<lparr>Resp_StatusCode := statusCode\<rparr>"

definition Builder_Ok :: "Response \<Rightarrow> Response" where
  "Builder_Ok b = Builder_Status Status_Ok b"

definition Builder_Header :: "string \<Rightarrow> string \<Rightarrow> Response \<Rightarrow> Response" where
  "Builder_Header key value b = b\<lparr>Resp_Headers := (Resp_Headers b)(key \<mapsto> [value])\<rparr>"

definition Builder_Bytes :: "string \<Rightarrow> Response \<Rightarrow> Response" where
  "Builder_Bytes body b =
     b\<lparr>Resp_Body := body,
       Resp_Headers := (Resp_Headers b)(''Content-Type'' \<mapsto> [''text/plain''],
                                        ''Content-Length'' \<mapsto> [itoa (int (length body))])\<rparr>"

definition Builder_Body :: "string \<Rightarrow> Response \<Rightarrow> Response" where
  "Builder_Body body b = Builder_Bytes body b"

definition Builder_Build :: "Response \<Rightarrow> Response" where
  "Builder_Build b = b"

section \<open>The server\<close>

type_synonym 'w RequestHandler = "Request \<Rightarrow> Response \<Rightarrow> 'w \<Rightarrow> (handler_error option \<times> Response) \<times> 'w"

record 'w Server =
  requestHandlers :: "HTTPMethod \<rightharpoonup> 'w RequestHandler"

definition NewServer :: "'w Server" where
  "NewServer = \<lparr>requestHandlers = Map.empty\<rparr>"

definition registerHandler :: "HTTPMethod \<Rightarrow> 'w RequestHandler \<Rightarrow> 'w Server \<Rightarrow> 'w Server" where
  "registerHandler method handler server =
     server\<lparr>requestHandlers := (requestHandlers server)(method \<mapsto> handler)\<rparr>"

definition Server_Get :: "'w RequestHandler \<Rightarrow> 'w Server \<Rightarrow> 'w Server" where
  "Server_Get handler server = registerHandler ''GET'' handler server"

definition Server_Post :: "'w RequestHandler \<Rightarrow> 'w Server \<Rightarrow> 'w Server" where
  "Server_Post handler server = registerHandler ''POST'' handler server"

definition handleError :: "handler_error \<Rightarrow> Response" where
  "handleError err =
     (let status = (case err of HTTPError st \<Rightarrow> st | OtherError _ \<Rightarrow> Status_InternalServerError)
      in \<lparr>Resp_Protocol = ''HTTP/1.1'', Resp_StatusCode = status,
          Resp_Headers = [''Connection'' \<mapsto> [''close'']], Resp_Body = []\<rparr>)"

definition handleRequest :: "'w Server \<Rightarrow> Request \<Rightarrow> 'w \<Rightarrow> (handler_error + Response) \<times> 'w" where
  "handleRequest server request w =
     (let responseBuilder = NewResponseBuilder (Some request); method = Req_Method request
      in if \<not> HTTPMethod_IsValid method then (Inl (HTTPError Status_BadRequest), w)
         else (case requestHandlers server method of
                 None \<Rightarrow> (Inl (HTTPError Status_NotImplemented), w)
               | Some handler \<Rightarrow>
                   (case handler request responseBuilder w of
                      ((Some err, _), w') \<Rightarrow> (Inl err, w')
                    | ((None, rb), w') \<Rightarrow> (Inr (Builder_Build rb), w'))))"

text \<open>What \<^verbatim>\<open>writeResponse\<close> puts on the connection; \<open>ord\<close> is the order in which the header map
  is iterated.  It returns an error for the nil response.\<close>

definition writeResponse :: "(Headers \<Rightarrow> string list) \<Rightarrow> Response option \<Rightarrow> string + string" where
  "writeResponse ord response =
     (case response of
        None \<Rightarrow> Inl ''response cannot be nil''
      | Some r \<Rightarrow> Inr (Response_Bytes (ord (Resp_Headers r)) r))"

definition handleConnection ::
  "(Headers \<Rightarrow> string list) \<Rightarrow> 'w Server \<Rightarrow> Request option \<Rightarrow> 'w \<Rightarrow> (string + string) \<times> 'w" where
  "handleConnection ord server readRequest w =
     (let ((response, err), w') =
        (case readRequest of
           None \<Rightarrow> ((None, Some (HTTPError Status_BadRequest)), w)
         | Some request \<Rightarrow>
             (case handleRequest server request w of
                (Inl e, w') \<Rightarrow> ((None, Some e), w')
              | (Inr r, w') \<Rightarrow> ((Some r, None), w')));
          response' = (case err of Some e \<Rightarrow> Some (handleError e) | None \<Rightarrow> response)
      in (writeResponse ord response', w'))"

section \<open>The accept loop\<close>

text \<open>
  \<^verbatim>\<open>Listen\<close> and the goroutines it starts.  The loop holds the connection it accepted; it has sent it
  into \<^verbatim>\<open>server.connections\<close> or is still blocked there; then it starts the handler.  A handler works,
  closes the connection, and takes one connection (any) out of the channel.  On a channel without a
  free slot the loop's send waits for such a receive.
\<close>

record Listen_state =
  LS_cap :: nat
  LS_buffered :: nat
  LS_held :: "nat option"
  LS_sent :: bool
  LS_working :: "nat list"
  LS_closed :: "nat list"

definition Listen :: "nat \<Rightarrow> Listen_state" where
  "Listen maxConnections =
     \<lparr>LS_cap = maxConnections, LS_buffered = 0, LS_held = None, LS_sent = False, LS_working = [], LS_closed = []\<rparr>"

inductive listen_step :: "Listen_state \<Rightarrow> Listen_state \<Rightarrow> bool" where
  accept: "LS_held s = None \<Longrightarrow> listen_step s (s\<lparr>LS_held := Some c\<rparr>)"
| send: "LS_held s = Some c \<Longrightarrow> \<not> LS_sent s \<Longrightarrow> LS_buffered s < LS_cap s \<Longrightarrow>
    listen_step s (s\<lparr>LS_sent := True, LS_buffered := LS_buffered s + 1\<rparr>)"
| handover: "LS_held s = Some c \<Longrightarrow> \<not> LS_sent s \<Longrightarrow> LS_buffered s = 0 \<Longrightarrow> d \<in> set (LS_closed s) \<Longrightarrow>
    listen_step s (s\<lparr>LS_sent := True, LS_closed := remove1 d (LS_closed s)\<rparr>)"
| spawn: "LS_held s = Some c \<Longrightarrow> LS_sent s \<Longrightarrow>
    listen_step s (s\<lparr>LS_held := None, LS_sent := False, LS_working := c # LS_working s\<rparr>)"
| close: "c \<in> set (LS_working s) \<Longrightarrow>
    listen_step s (s\<lparr>LS_working := remove1 c (LS_working s), LS_closed := c # LS_closed s\<rparr>)"
| receive: "c \<in> set (LS_closed s) \<Longrightarrow> 0 < LS_buffered s \<Longrightarrow>
    listen_step s (s\<lparr>LS_closed := remove1 c (LS_closed s), LS_buffered := LS_buffered s - 1\<rparr>)"

inductive listen_reach :: "nat \<Rightarrow> Listen_state \<Rightarrow> bool" for maxConnections where
  start: "listen_reach maxConnections (Listen maxConnections)"
| step: "listen_reach maxConnections s \<Longrightarrow> listen_step s s' \<Longrightarrow> listen_reach maxConnections s'"

definition listen_inv :: "nat \<Rightarrow> Listen_state \<Rightarrow> bool" where
  "listen_inv n s \<longleftrightarrow>
     LS_cap s = n \<and> LS_buffered s \<le> n \<and> (LS_sent s \<longrightarrow> LS_held s \<noteq> None) \<and>
     LS_buffered s = length (LS_working s) + length (LS_closed s) + (if LS_sent s then 1 else 0)"

lemma length_remove1_pos: "x \<in> set xs \<Longrightarrow> length xs = Suc (length (remove1 x xs))"
  by (induction xs) auto

lemma listen_step_inv: "listen_step s s' \<Longrightarrow> listen_inv n s \<Longrightarrow> listen_inv n s'"
proof (induction rule: listen_step.induct)
  case (close c s)
  then show ?case using length_remove1_pos [of c "LS_working s"] by (auto simp: listen_inv_def)
next
  case (receive c s)
  then show ?case using length_remove1_pos [of c "LS_closed s"] by (auto simp: listen_inv_def split: if_splits)
qed (auto simp: listen_inv_def)

lemma listen_reach_inv: "listen_reach n s \<Longrightarrow> listen_inv n s"
proof (induction rule: listen_reach.induct)
  case start
  show ?case by (simp add: listen_inv_def Listen_def)
qed (rule listen_step_inv)

text \<open>C21: the server never serves more than \<^verbatim>\<open>maxConnections\<close> connections at once, whatever the
  order in which connections arrive and handlers finish; and a handler that has closed its connection
  is never stuck on the receive from \<^verbatim>\<open>server.connections\<close>: the channel holds an entry for it.\<close>

theorem connections_bounded:
  assumes "listen_reach maxConnections s"
  shows "length (LS_working s) + length (LS_closed s) \<le> maxConnections \<and>
    (\<forall>c \<in> set (LS_closed s).
       listen_step s (s\<lparr>LS_closed := remove1 c (LS_closed s), LS_buffered := LS_buffered s - 1\<rparr>))"
proof -
  note inv = listen_reach_inv [OF assms]
  have "0 < LS_buffered s" if "c \<in> set (LS_closed s)" for c
    using inv length_remove1_pos [OF that] by (simp add: listen_inv_def)
  then have "\<forall>c \<in> set (LS_closed s).
      listen_step s (s\<lparr>LS_closed := remove1 c (LS_closed s), LS_buffered := LS_buffered s - 1\<rparr>)"
    by (blast intro: listen_step.receive)
  moreover have "length (LS_working s) + length (LS_closed s) \<le> maxConnections"
    using inv by (simp add: listen_inv_def split: if_splits)
  ultimately show ?thesis by blast
qed

lemma listen_one:
  "listen_reach 1 \<lparr>LS_cap = 1, LS_buffered = 1, LS_held = None, LS_sent = False, LS_working = [], LS_closed = [7]\<rparr>"
proof -
  have 1: "listen_reach 1 ((Listen 1)\<lparr>LS_held := Some 7\<rparr>)"
    by (rule listen_reach.step [OF listen_reach.start]) (rule listen_step.accept, simp add: Listen_def)
  have 2: "listen_reach 1 ((Listen 1)\<lparr>LS_held := Some 7, LS_sent := True, LS_buffered := 1\<rparr>)"
    using listen_reach.step [OF 1 listen_step.send [where c = 7]] by (simp add: Listen_def)
  have 3: "listen_reach 1 ((Listen 1)\<lparr>LS_working := [7], LS_buffered := 1\<rparr>)"
    using listen_reach.step [OF 2 listen_step.spawn [where c = 7]] by (simp add: Listen_def)
  show ?thesis
    using listen_reach.step [OF 3 listen_step.close [where c = 7]] by (simp add: Listen_def)
qed

theorem connections_bounded_witness:
  "\<exists>s s'. listen_reach 1 s \<and> LS_closed s = [7] \<and> length (LS_working s) + length (LS_closed s) \<le> 1 \<and>
     listen_step s s' \<and> LS_closed s' = [] \<and> LS_buffered s' = 0"
proof -
  let ?s = "\<lparr>LS_cap = 1, LS_buffered = 1, LS_held = None, LS_sent = False, LS_working = [], LS_closed = [7]\<rparr>"
  have "listen_step ?s (?s\<lparr>LS_closed := remove1 7 (LS_closed ?s), LS_buffered := LS_buffered ?s - 1\<rparr>)"
    using connections_bounded [OF listen_one] by (simp del: remove1.simps)
  moreover have "length (LS_working ?s) + length (LS_closed ?s) \<le> 1"
    using connections_bounded [OF listen_one] by blast
  ultimately show ?thesis
    using listen_one by (intro exI [of _ ?s] exI [of _ "?s\<lparr>LS_closed := remove1 7 (LS_closed ?s), LS_buffered := LS_buffered ?s - 1\<rparr>"]) simp
qed

section \<open>The wire format\<close>

text \<open>A reference reader of a response: the status line, header lines up to an empty line, the rest.\<close>

fun crlf_line :: "string \<Rightarrow> (string \<times> string) option" where
  "crlf_line [] = None"
| "crlf_line (c # s) =
     (if c = cr \<and> s \<noteq> [] \<and> hd s = lf then Some ([], tl s)
      else map_option (\<lambda>(l, r). (c # l, r)) (crlf_line s))"

definition cut_at :: "char \<Rightarrow> string \<Rightarrow> string \<times> string" where
  "cut_at c s = (takeWhile (\<lambda>d. d \<noteq> c) s, tl (dropWhile (\<lambda>d. d \<noteq> c) s))"

lemma crlf_line_shorter: "crlf_line s = Some (l, r) \<Longrightarrow> length r < length s"
  by (induction s arbitrary: l) (auto split: if_splits)

function parse_headers :: "string \<Rightarrow> ((string \<times> string) list \<times> string) option" where
  "parse_headers s =
     (case crlf_line s of
        None \<Rightarrow> None
      | Some (l, r) \<Rightarrow>
          if l = [] then Some ([], r)
          else (case parse_headers r of
                  None \<Rightarrow> None
                | Some (hs, b) \<Rightarrow> Some (map_prod id tl (cut_at (CHR '':'') l) # hs, b)))"
  by pat_completeness auto
termination
  by (relation "measure length") (auto simp: crlf_line_shorter)

declare parse_headers.simps [simp del]

definition parse_response ::
  "string \<Rightarrow> (string \<times> string \<times> string \<times> (string \<times> string) list \<times> string) option" where
  "parse_response s =
     (case crlf_line s of
        None \<Rightarrow> None
      | Some (l, r) \<Rightarrow>
          (let (protocol, l') = cut_at (CHR '' '') l; (code, phrase) = cut_at (CHR '' '') l'
           in (case parse_headers r of
                 None \<Rightarrow> None
               | Some (hs, body) \<Rightarrow> Some (protocol, code, phrase, hs, body))))"

definition header_text :: "string list \<Rightarrow> string" where
  "header_text values = strings_Join values '', ''"

text \<open>What the format needs of a response: no CR in what is printed, no space in the protocol, no
  colon in a header's name and no empty name.\<close>

definition printable :: "Response \<Rightarrow> bool" where
  "printable r \<longleftrightarrow>
     cr \<notin> set (Resp_Protocol r) \<and> CHR '' '' \<notin> set (Resp_Protocol r) \<and>
     (\<forall>k vs. Resp_Headers r k = Some vs \<longrightarrow>
        k \<noteq> [] \<and> cr \<notin> set k \<and> CHR '':'' \<notin> set k \<and> (\<forall>v \<in> set vs. cr \<notin> set v))"

lemma cut_at_append: "c \<notin> set a \<Longrightarrow> cut_at c (a @ c # b) = (a, b)"
  by (induction a) (auto simp: cut_at_def)

lemma crlf_line_append: "cr \<notin> set l \<Longrightarrow> crlf_line (l @ cr # lf # r) = Some (l, r)"
  by (induction l) auto

lemma cr_notin_Join: "\<forall>v \<in> set vs. cr \<notin> set v \<Longrightarrow> cr \<notin> set sep \<Longrightarrow> cr \<notin> set (strings_Join vs sep)"
  by (induction vs sep rule: strings_Join.induct) auto

lemma cr_space_notin_itoa: "cr \<notin> set (itoa i)" "CHR '' '' \<notin> set (itoa i)"
  using itoa_chars [of _ i] by (fastforce simp: is_digit_def)+

lemma cr_notin_Phrase: "cr \<notin> set (Phrase st)"
  by (simp add: Phrase_def)

definition header_line :: "Response \<Rightarrow> string \<Rightarrow> string" where
  "header_line r k =
     (case Resp_Headers r k of None \<Rightarrow> [] | Some vs \<Rightarrow> k @ '': '' @ header_text vs @ crlf)"

lemma formatHeaders_concat: "formatHeaders ks r = concat (map (header_line r) ks)"
proof -
  have "foldl (\<lambda>headers key. case Resp_Headers r key of None \<Rightarrow> headers
        | Some values \<Rightarrow> headers @ key @ '': '' @ strings_Join values '', '' @ crlf) acc ks =
      acc @ concat (map (header_line r) ks)" for acc
    by (induction ks arbitrary: acc) (auto simp: header_line_def header_text_def split: option.splits)
  then show ?thesis by (simp add: formatHeaders_def)
qed

lemma parse_headers_line:
  assumes "k \<noteq> []" "cr \<notin> set k" "CHR '':'' \<notin> set k" "cr \<notin> set v"
  shows "parse_headers (k @ '': '' @ v @ crlf @ s) =
    (case parse_headers s of None \<Rightarrow> None | Some (hs, b) \<Rightarrow> Some ((k, v) # hs, b))"
proof -
  have "crlf_line (k @ '': '' @ v @ crlf @ s) = Some (k @ '': '' @ v, s)"
    using crlf_line_append [of "k @ '': '' @ v" s] assms by simp
  moreover have "cut_at (CHR '':'') (k @ '': '' @ v) = (k, '' '' @ v)"
    using cut_at_append [of "CHR '':''" k "'' '' @ v"] assms by simp
  ultimately show ?thesis
    using assms(1) by (subst parse_headers.simps) (simp split: option.split)
qed

lemma parse_headers_all:
  assumes "printable r" and "\<forall>k \<in> set ks. Resp_Headers r k \<noteq> None"
  shows "parse_headers (concat (map (header_line r) ks) @ cr # lf # b) =
    Some (map (\<lambda>k. (k, header_text (the (Resp_Headers r k)))) ks, b)"
  using assms(2)
proof (induction ks)
  case Nil
  show ?case by (subst parse_headers.simps) simp
next
  case (Cons k ks)
  then obtain vs where vs: "Resp_Headers r k = Some vs" by auto
  have "k \<noteq> []" "cr \<notin> set k" "CHR '':'' \<notin> set k" "cr \<notin> set (header_text vs)"
    using assms(1) vs cr_notin_Join [of vs "'', ''"] by (auto simp: printable_def header_text_def)
  from parse_headers_line [OF this, of "concat (map (header_line r) ks) @ cr # lf # b"] Cons vs
  have "parse_headers (k @ '': '' @ header_text vs @ crlf @ concat (map (header_line r) ks) @ cr # lf # b) =
      Some ((k, header_text vs) # map (\<lambda>k. (k, header_text (the (Resp_Headers r k)))) ks, b)"
    by simp
  moreover have "header_line r k = k @ '': '' @ header_text vs @ crlf"
    by (simp add: header_line_def vs)
  ultimately show ?case by (simp add: vs)
qed

text \<open>C22: what \<^verbatim>\<open>Response.Bytes\<close> writes reads back as the response: the protocol, the status code,
  its phrase, every header with its values, and, when a Content-Length is set, the body.\<close>

theorem response_round_trip:
  assumes "printable r" and "range_order (Resp_Headers r) ks"
  shows "parse_response (Response_Bytes ks r) =
    Some (Resp_Protocol r, itoa (Resp_StatusCode r), Phrase (Resp_StatusCode r),
          map (\<lambda>k. (k, header_text (the (Resp_Headers r k)))) ks, if hasBody r then Resp_Body r else [])"
proof -
  define b where "b = (if hasBody r then Resp_Body r else [])"
  let ?l = "Resp_Protocol r @ '' '' @ itoa (Resp_StatusCode r) @ '' '' @ Phrase (Resp_StatusCode r)"
  have "Response_Bytes ks r = ?l @ cr # lf # (concat (map (header_line r) ks) @ cr # lf # b)"
    by (simp add: Response_Bytes_def formatStartLine_def formatHeaders_concat Let_def b_def)
  moreover have "cr \<notin> set ?l"
    using assms(1) cr_notin_Phrase by (auto simp: printable_def cr_space_notin_itoa)
  ultimately have line: "crlf_line (Response_Bytes ks r) = Some (?l, concat (map (header_line r) ks) @ cr # lf # b)"
    using crlf_line_append by metis
  have "cut_at (CHR '' '') ?l = (Resp_Protocol r, itoa (Resp_StatusCode r) @ '' '' @ Phrase (Resp_StatusCode r))"
    using cut_at_append [of "CHR '' ''" "Resp_Protocol r"] assms(1) by (simp add: printable_def)
  moreover have "cut_at (CHR '' '') (itoa (Resp_StatusCode r) @ '' '' @ Phrase (Resp_StatusCode r)) =
      (itoa (Resp_StatusCode r), Phrase (Resp_StatusCode r))"
    using cut_at_append [OF cr_space_notin_itoa(2)] by simp
  moreover have "\<forall>k \<in> set ks. Resp_Headers r k \<noteq> None"
    using assms(2) by (simp add: range_order_dom)
  ultimately show ?thesis
    unfolding b_def [symmetric]
    by (simp add: parse_response_def line parse_headers_all [OF assms(1)])
qed

text \<open>A response the builder made of a body: the witness, with three headers.\<close>

definition ex_response :: Response where
  "ex_response = Builder_Header ''Content-Type'' ''text/html''
     (Builder_Bytes ''<p>'' (Builder_Status Status_Ok (NewResponseBuilder None)))"

lemma itoa_examples: "itoa 3 = ''3''" "itoa 200 = ''200''"
  by code_simp+

lemma ex_response_simps:
  "Resp_Headers ex_response =
     [''Content-Type'' \<mapsto> [''text/plain''], ''Content-Length'' \<mapsto> [''3''], ''Content-Type'' \<mapsto> [''text/html'']]"
  "Resp_Protocol ex_response = ''HTTP/1.1''" "Resp_StatusCode ex_response = 200" "Resp_Body ex_response = ''<p>''"
  by (simp_all add: ex_response_def Builder_Header_def Builder_Bytes_def Builder_Status_def NewResponseBuilder_def
      NewResponse_def itoa_examples)

theorem response_round_trip_witness:
  "parse_response (Response_Bytes [''Content-Length'', ''Content-Type''] ex_response) =
     Some (''HTTP/1.1'', ''200'', ''OK'', [(''Content-Length'', ''3''), (''Content-Type'', ''text/html'')], ''<p>'')"
proof -
  have "printable ex_response"
    by (auto simp: printable_def ex_response_simps split: if_splits)
  moreover have "range_order (Resp_Headers ex_response) [''Content-Length'', ''Content-Type'']"
    by (auto simp: range_order_def ex_response_simps)
  ultimately show ?thesis
    using response_round_trip [of ex_response "[''Content-Length'', ''Content-Type'']"]
    by (simp add: ex_response_simps header_text_def hasBody_def Phrase_def itoa_examples)
qed

end
