(* ===== verification/Http_Server.thy ===== *)
theory Http_Server
  imports Http Go_OS
begin

text \<open>
  The file server of Lab 1: \<^verbatim>\<open>src/Labs/Lab1/http_server/files.go\<close> (content types, path resolution,
  reading, uploading through a temporary file) and the two handlers of
  \<^verbatim>\<open>http_server.go\<close> on top of the library of theory \<open>Http\<close> and the file store of theory \<open>Go_OS\<close>.
\<close>

section \<open>files.go\<close>

definition publicDir :: string where
  "publicDir = ''./public''"

definition allowedContentTypes :: "string \<rightharpoonup> string" where
  "allowedContentTypes =
     [''.html'' \<mapsto> ''text/html'', ''.txt'' \<mapsto> ''text/plain'', ''.css'' \<mapsto> ''text/css'',
      ''.jpg'' \<mapsto> ''image/jpeg'', ''.jpeg'' \<mapsto> ''image/jpeg'', ''.gif'' \<mapsto> ''image/gif'']"

datatype file_error = OSError os_error | UnsupportedContentType

definition contentTypeForPath :: "string \<Rightarrow> string option" where
  "contentTypeForPath p = allowedContentTypes (strings_ToLower (filepath_Ext p))"

text \<open>\<^verbatim>\<open>filepath.Abs\<close>: for a relative path it asks for the working directory.\<close>

definition os_Abs :: "string \<Rightarrow> (os_error, string) os" where
  "os_Abs p =
     (if p \<noteq> [] \<and> hd p = slash then os_return (path_Clean p)
      else os_bind os_Getwd (\<lambda>wd. os_return (filepath_Join [wd, p])))"

definition resolvePath :: "string \<Rightarrow> (file_error, string) os" where
  "resolvePath requestPath =
     (let cleaned = TrimPrefix (path_Clean (''/'' @ requestPath)) ''/'';
          fullPath = filepath_Join [publicDir, cleaned]
      in os_bind (os_mapErr OSError (os_Abs publicDir)) (\<lambda>absBase.
         os_bind (os_mapErr OSError (os_Abs fullPath)) (\<lambda>absFull.
         case filepath_Rel absBase absFull of
           None \<Rightarrow> os_fail (OSError ErrOther)
         | Some rel \<Rightarrow>
             if HasPrefix rel ''..'' then os_fail (OSError ErrPermission)
             else os_return absFull)))"

definition readFile :: "string \<Rightarrow> (file_error, string) os" where
  "readFile requestPath =
     os_bind (resolvePath requestPath) (\<lambda>diskPath.
     os_bind (os_mapErr OSError (os_Stat_IsDir diskPath)) (\<lambda>isDir.
     if isDir then os_fail (OSError ErrInvalid)
     else os_mapErr OSError (os_ReadFile diskPath)))"

text \<open>\<^verbatim>\<open>io.Copy\<close> from a reader that returns \<open>chunks\<close> and then ends, or fails.\<close>

fun io_Copy :: "string \<Rightarrow> string list \<Rightarrow> bool \<Rightarrow> (os_error, unit) os" where
  "io_Copy name [] eof = (if eof then os_return () else os_fail ErrOther)"
| "io_Copy name (c # chunks) eof = os_bind (os_Write name c) (\<lambda>_. io_Copy name chunks eof)"

text \<open>The deferred calls run in reverse order: first \<^verbatim>\<open>os.Remove\<close>, then \<^verbatim>\<open>tmp.Close\<close>.\<close>

definition saveUploadedFile :: "string list \<times> bool \<Rightarrow> string \<Rightarrow> (os_error, unit) os" where
  "saveUploadedFile reader destination =
     os_bind (os_CreateTemp publicDir ''upload-'') (\<lambda>tmpName.
       os_defer (os_defer
         (os_bind (io_Copy tmpName (fst reader) (snd reader)) (\<lambda>_.
          os_bind os_flush (\<lambda>_.
          os_bind os_flush (\<lambda>_.
          os_Rename tmpName destination))))
         (os_Remove tmpName))
         os_flush)"

definition writeFile :: "string \<Rightarrow> string list \<times> bool \<Rightarrow> (file_error, unit) os" where
  "writeFile requestPath reader =
     (let filename = filepath_Base requestPath in
      if filename = [] \<or> filename = ''.'' \<or> filename = ''/'' then os_fail (OSError ErrInvalid)
      else (case contentTypeForPath filename of
              None \<Rightarrow> os_fail UnsupportedContentType
            | Some _ \<Rightarrow>
                os_bind (resolvePath filename) (\<lambda>destination.
                os_mapErr OSError (saveUploadedFile reader destination))))"

section \<open>http\_server.go\<close>

definition statusFromFileError :: "file_error \<Rightarrow> StatusCode" where
  "statusFromFileError err =
     (case err of
        OSError ErrNotExist \<Rightarrow> Status_NotFound
      | OSError ErrPermission \<Rightarrow> Status_BadRequest
      | OSError ErrInvalid \<Rightarrow> Status_BadRequest
      | UnsupportedContentType \<Rightarrow> Status_BadRequest
      | _ \<Rightarrow> Status_InternalServerError)"

definition getHandler :: "os_state RequestHandler" where
  "getHandler r rb s =
     (case contentTypeForPath (Req_URL_Path r) of
        None \<Rightarrow> ((Some (HTTPError Status_BadRequest), rb), s)
      | Some contentType \<Rightarrow>
          (case readFile (Req_URL_Path r) s of
             (Inl e, s') \<Rightarrow> ((Some (HTTPError (statusFromFileError e)), rb), s')
           | (Inr bytes, s') \<Rightarrow>
               ((None, Builder_Header ''Content-Type'' contentType (Builder_Bytes bytes rb)), s')))"

definition postHandler :: "os_state RequestHandler" where
  "postHandler r rb s =
     (case writeFile (Req_URL_Path r) (Req_Body r) s of
        (Inl e, s') \<Rightarrow> ((Some (HTTPError (statusFromFileError e)), rb), s')
      | (Inr _, s') \<Rightarrow> ((None, Builder_Status Status_Created rb), s'))"

definition fileServer :: "os_state Server" where
  "fileServer = Server_Post postHandler (Server_Get getHandler NewServer)"

section \<open>Path resolution\<close>

definition rooted_cwd :: "string list \<Rightarrow> os_state \<Rightarrow> bool" where
  "rooted_cwd ws s \<longleftrightarrow> normal_comps ws \<and> os_cwd s = slash # strings_Join ws ''/''"

text \<open>The components of a request path below the root, and the file they name below \<^verbatim>\<open>public\<close>.\<close>

definition request_comps :: "string \<Rightarrow> string list" where
  "request_comps p = clean_comps True (split_slash p)"

definition public_file :: "string list \<Rightarrow> string list \<Rightarrow> string" where
  "public_file ws cs = slash # strings_Join (ws @ ''public'' # cs) ''/''"

lemma request_comps_normal: "normal_comps (request_comps p)"
  by (simp add: request_comps_def clean_comps_rooted_normal)

lemma rooted_cwd_same: "rooted_cwd ws s \<Longrightarrow> same_store s s' \<Longrightarrow> rooted_cwd ws s'"
  by (simp add: rooted_cwd_def same_store_def)

lemma normal_public: "normal_comp ''public''"
  by (simp add: normal_comp_def)

lemma cleaned_request: "TrimPrefix (path_Clean (slash # p)) ''/'' = strings_Join (request_comps p) ''/''"
  by (simp add: Clean_rooted request_comps_def TrimPrefix_def)

lemma full_path: 
  assumes "normal_comps cs"
  shows "filepath_Join [publicDir, strings_Join cs ''/''] = strings_Join (''public'' # cs) ''/''"
proof -
  have split: "split_slash (''./public'') = [''.'', ''public'']"
    by (simp add: split_slash_def)
  show ?thesis
  proof (cases "cs = []")
    case True
    then show ?thesis
      by (simp add: filepath_Join_def publicDir_def path_Clean_def split clean_comps_def clean_comp_def)
  next
    case False
    have ne: "strings_Join cs ''/'' \<noteq> []" using assms False by (rule normal_Join_nonempty)
    have "split_slash (''./public/'' @ strings_Join cs ''/'') = ''.'' # ''public'' # cs"
      using split_slash_two [of "''./public''" "strings_Join cs ''/''"] False assms
      by (simp add: split split_slash_Join normal_comps_noslash)
    moreover have "clean_comps False (''.'' # ''public'' # cs) = ''public'' # cs"
      using clean_comps_normal [of "''public'' # cs" False] assms normal_public
      by (simp add: clean_comps_skip)
    ultimately have "path_Clean (''./public/'' @ strings_Join cs ''/'') = strings_Join (''public'' # cs) ''/''"
      by (simp add: path_Clean_def)
    then show ?thesis
      using ne by (simp add: filepath_Join_def publicDir_def)
  qed
qed

lemma abs_relative:
  assumes "normal_comps ws" and "normal_comps cs" and "cs \<noteq> []"
  shows "filepath_Join [slash # strings_Join ws ''/'', strings_Join cs ''/''] = slash # strings_Join (ws @ cs) ''/''"
proof -
  have ne: "strings_Join cs ''/'' \<noteq> []" and hd: "hd (strings_Join cs ''/'') \<noteq> slash"
    using assms by (simp_all add: normal_Join_nonempty normal_Join_hd)
  have "os_key (slash # strings_Join ws ''/'') (strings_Join cs ''/'') = slash # strings_Join (ws @ cs) ''/''"
    using os_key_relative [OF assms(1) ne hd] assms by (simp add: foldl_clean_Join)
  then show ?thesis using ne hd by (simp add: filepath_Join_def os_key_def)
qed

lemma Abs_spec:
  assumes "rooted_cwd ws s" and "normal_comps cs" and "cs \<noteq> []"
  shows "wp (os_Abs (strings_Join cs ''/''))
    (\<lambda>r s'. quiet s s' \<and> r = slash # strings_Join (ws @ cs) ''/'')
    (\<lambda>e s'. quiet s s' \<and> os_faults s \<noteq> []) s"
proof -
  have "hd (strings_Join cs ''/'') \<noteq> slash" using assms by (simp add: normal_Join_hd)
  moreover have "filepath_Join [os_cwd s, strings_Join cs ''/''] = slash # strings_Join (ws @ cs) ''/''"
    using assms abs_relative by (simp add: rooted_cwd_def)
  ultimately show ?thesis
    using wp_conseq [OF Getwd_spec] by (auto simp: os_Abs_def)
qed

lemma Abs_publicDir_spec:
  assumes "rooted_cwd ws s"
  shows "wp (os_Abs publicDir)
    (\<lambda>r s'. quiet s s' \<and> r = slash # strings_Join (ws @ [''public'']) ''/'')
    (\<lambda>e s'. quiet s s' \<and> os_faults s \<noteq> []) s"
proof -
  have ws: "normal_comps ws" and cwd: "os_cwd s = slash # strings_Join ws ''/''"
    using assms by (simp_all add: rooted_cwd_def)
  have "path_Clean (os_cwd s @ ''/./public'') = slash # strings_Join (ws @ [''public'']) ''/''"
    using os_key_dot_local [OF ws normal_public] by (simp add: os_key_def cwd)
  then have "filepath_Join [os_cwd s, publicDir] = slash # strings_Join (ws @ [''public'']) ''/''"
    by (simp add: filepath_Join_def publicDir_def cwd)
  moreover have "hd publicDir \<noteq> slash" by (simp add: publicDir_def)
  ultimately show ?thesis
    using wp_conseq [OF Getwd_spec] by (auto simp: os_Abs_def)
qed

lemma dotdot_prefix_Join:
  assumes "normal_comps cs" and "cs \<noteq> []"
  shows "prefix ''..'' (strings_Join cs ''/'') \<longleftrightarrow> prefix ''..'' (hd cs)"
proof -
  obtain c r where cs: "cs = c # r" using assms(2) by (cases cs) auto
  then have c: "c \<noteq> []" "c \<noteq> ''.''" using assms(1) by (auto simp: normal_comp_def)
  obtain x y where x: "c = x # y" using c by (cases c) auto
  show ?thesis
    using c by (cases r; cases y) (auto simp: cs x)
qed

text \<open>The names the server refuses although they lie below \<^verbatim>\<open>public\<close>.\<close>

definition refused :: "string list \<Rightarrow> bool" where
  "refused cs \<longleftrightarrow> cs \<noteq> [] \<and> prefix ''..'' (hd cs)"

lemma resolvePath_spec:
  assumes cwd: "rooted_cwd ws s"
  shows "wp (resolvePath p)
    (\<lambda>f s'. quiet s s' \<and> f = public_file ws (request_comps p) \<and> \<not> refused (request_comps p))
    (\<lambda>e s'. quiet s s' \<and> (os_faults s = [] \<longrightarrow> refused (request_comps p) \<and> e = OSError ErrPermission)) s"
proof -
  define cs where "cs = request_comps p"
  have cs: "normal_comps cs" and ws: "normal_comps ws"
    using request_comps_normal cwd by (simp_all add: cs_def rooted_cwd_def)
  have pub: "normal_comps (''public'' # cs)" "normal_comps (ws @ [''public''])"
    using cs ws normal_public by simp_all
  have rel: "filepath_Rel (slash # strings_Join (ws @ [''public'']) ''/'') (public_file ws cs) =
      Some (if cs = [] then ''.'' else strings_Join cs ''/'')"
    using Rel_below [OF pub(2) cs] by (simp add: public_file_def)
  have pre: "prefix ''..'' (if cs = [] then ''.'' else strings_Join cs ''/'') \<longleftrightarrow> refused cs"
    using dotdot_prefix_Join [OF cs] by (auto simp: refused_def)
  have full: "wp (os_Abs (filepath_Join [publicDir, strings_Join cs ''/'']))
      (\<lambda>f s'. quiet s s' \<and> f = public_file ws cs)
      (\<lambda>e s'. quiet s s' \<and> os_faults s \<noteq> []) s1" if s1: "quiet s s1" for s1
  proof -
    have "rooted_cwd ws s1" using rooted_cwd_same [OF cwd] quiet_files [OF s1] by simp
    from Abs_spec [OF this pub(1)] show ?thesis
      unfolding full_path [OF cs]
    proof (rule wp_conseq)
      fix e s' assume "quiet s1 s' \<and> os_faults s1 \<noteq> []"
      then show "quiet s s' \<and> os_faults s \<noteq> []"
        using s1 quiet_trans quiet_faults by blast
    qed (use s1 quiet_trans in \<open>auto simp: public_file_def\<close>)
  qed
  show ?thesis
    unfolding resolvePath_def Let_def cs_def [symmetric] append_Cons append_Nil cleaned_request wp_bind wp_mapErr
  proof (rule wp_conseq [OF Abs_publicDir_spec [OF cwd]], goal_cases)
    case (1 absBase s1)
    then show ?case
      by (intro wp_conseq [OF full]) (auto simp: rel pre)
  qed auto
qed

text \<open>C12: path resolution cannot leave the public directory.  Whatever the request path (any number
  of \<^verbatim>\<open>..\<close>, empty and \<^verbatim>\<open>.\<close> components), the path \<^verbatim>\<open>resolvePath\<close> returns is the working directory,
  \<^verbatim>\<open>public\<close>, and then components none of which is empty, \<^verbatim>\<open>.\<close> or \<^verbatim>\<open>..\<close>; without a failing system
  call it succeeds unless the first of them begins with two dots.\<close>

theorem resolvePath_contained:
  assumes "rooted_cwd ws s"
  shows "(\<forall>f s'. resolvePath p s = (Inr f, s') \<longrightarrow>
      (\<exists>cs. f = slash # strings_Join (ws @ ''public'' # cs) ''/'' \<and> normal_comps cs \<and> os_files s' = os_files s)) \<and>
    (os_faults s = [] \<and> \<not> refused (request_comps p) \<longrightarrow> (\<exists>f s'. resolvePath p s = (Inr f, s')))"
proof (intro conjI allI impI)
  fix f s'
  assume "resolvePath p s = (Inr f, s')"
  then show "\<exists>cs. f = slash # strings_Join (ws @ ''public'' # cs) ''/'' \<and> normal_comps cs \<and> os_files s' = os_files s"
    using wp_ok [OF resolvePath_spec [OF assms], of p f s'] request_comps_normal [of p]
    by (intro exI [of _ "request_comps p"]) (auto simp add: public_file_def dest: quiet_files)
next
  assume "os_faults s = [] \<and> \<not> refused (request_comps p)"
  then have "wp (resolvePath p) (\<lambda>f s'. True) (\<lambda>e s'. False) s"
    by (intro wp_conseq [OF resolvePath_spec [OF assms]]) auto
  then show "\<exists>f s'. resolvePath p s = (Inr f, s')" using wp_total by blast
qed

definition ex_os :: os_state where
  "ex_os = \<lparr>os_cwd = ''/srv/web'', os_files = [''/srv/web/public/a.txt'' \<mapsto> ''hello''], os_dirs = {''/srv/web/public''},
            os_faults = [], os_draws = [41, 7]\<rparr>"

lemma ex_os_cwd: "rooted_cwd [''srv'', ''web''] ex_os"
  by (simp add: rooted_cwd_def ex_os_def normal_comp_def)

theorem resolvePath_contained_witness:
  "fst (resolvePath ''/x/../../../etc/./passwd'' ex_os) = Inr ''/srv/web/public/etc/passwd'' \<and>
   (\<exists>cs. ''/srv/web/public/etc/passwd'' = slash # strings_Join ([''srv'', ''web''] @ ''public'' # cs) ''/'' \<and> normal_comps cs)"
proof -
  have r: "fst (resolvePath ''/x/../../../etc/./passwd'' ex_os) = Inr ''/srv/web/public/etc/passwd''"
    by code_simp
  then have "resolvePath ''/x/../../../etc/./passwd'' ex_os =
      (Inr ''/srv/web/public/etc/passwd'', snd (resolvePath ''/x/../../../etc/./passwd'' ex_os))"
    by (metis prod.collapse)
  from conjunct1 [OF resolvePath_contained [OF ex_os_cwd], rule_format, OF this]
  show ?thesis using r by blast
qed

section \<open>Uploads\<close>

lemma Copy_spec:
  "wp (io_Copy name chunks eof)
     (\<lambda>u s'. eof \<and> same_store s s' \<and> os_files s' = (os_files s)(os_key (os_cwd s) name :=
        map_option (\<lambda>d. d @ concat chunks) (os_files s (os_key (os_cwd s) name))))
     (\<lambda>e s'. only_changes {os_key (os_cwd s) name} s s' \<and> (os_faults s = [] \<longrightarrow> \<not> eof)) s"
proof (induction chunks arbitrary: s)
  case Nil
  show ?case by (simp add: fun_upd_idem option.map_ident)
next
  case (Cons c chunks)
  show ?case
    unfolding io_Copy.simps wp_bind
  proof (rule wp_conseq [OF Write_spec], goal_cases)
    case (1 u s1)
    then show ?case
      by (intro wp_conseq [OF Cons.IH [of s1]])
         (auto simp: only_changes_def same_store_def option.map_comp o_def)
  next
    case (2 e s1)
    then show ?case using only_changes_mono by blast
  qed
qed

text \<open>The key of a temporary file.\<close>

definition upload_key :: "os_state \<Rightarrow> nat \<Rightarrow> string" where
  "upload_key s r = os_key (os_cwd s) (publicDir @ ''/'' @ ''upload-'' @ itoa_nat r)"

lemma fill_and_rename_spec:
  assumes "os_files s (os_key (os_cwd s) tmp) = Some []"
  shows "wp (os_bind (io_Copy tmp chunks eof) (\<lambda>_. os_bind os_flush (\<lambda>_. os_bind os_flush (\<lambda>_. os_Rename tmp dest))))
    (\<lambda>u s'. eof \<and> same_store s s' \<and>
       os_files s' = (os_files s)(os_key (os_cwd s) tmp := None, os_key (os_cwd s) dest \<mapsto> concat chunks))
    (\<lambda>e s'. only_changes {os_key (os_cwd s) tmp} s s' \<and>
       (os_faults s = [] \<longrightarrow> \<not> eof \<or> os_key (os_cwd s) dest \<in> os_dirs s)) s"
proof (rule wp_bindI [OF Copy_spec], goal_cases)
  case (1 u s1)
  then have s1: "eof" "same_store s s1" "os_files s1 = (os_files s)(os_key (os_cwd s) tmp \<mapsto> concat chunks)"
    using assms by simp_all
  show ?case
  proof (rule wp_bindI [OF flush_spec], goal_cases)
    case (1 u s2)
    have s2: "same_store s s2" "os_files s2 = os_files s1"
      using quiet_files [OF 1] s1(2) same_store_trans by blast+
    have "os_files s2 (os_key (os_cwd s2) tmp) = Some (concat chunks)" using s1 s2 by (simp add: same_store_def)
    then show ?case
      by (rule wp_conseq [OF flush_Rename_spec]) (use s1 s2 in \<open>auto simp: only_changes_def same_store_def\<close>)
  next
    case (2 e s2)
    then show ?case using s1 by (auto simp: quiet_def only_changes_def same_store_def)
  qed
qed auto

interpretation upload: atomic_file publicDir "''upload-''" dest
  "\<lambda>tmp. os_bind (io_Copy tmp chunks eof) (\<lambda>_. os_bind os_flush (\<lambda>_. os_bind os_flush (\<lambda>_. os_Rename tmp dest)))"
  "\<lambda>tmp s. os_flush (snd (os_Remove tmp s))" "concat chunks" eof
  for dest chunks eof
proof
  show "only_changes {os_key (os_cwd s) tmp} s (snd (os_flush (snd (os_Remove tmp s))))" for s tmp
    using Remove_snd [of s tmp] flush_snd [of "snd (os_Remove tmp s)"] only_changes_mono only_changes_step by blast
  show "os_files (snd (os_flush (snd (os_Remove tmp s)))) = os_files s"
    if "os_files s (os_key (os_cwd s) tmp) = None" for s tmp
    using Remove_none [OF that] flush_snd [of "snd (os_Remove tmp s)"] by (simp add: only_changes_none)
qed (rule fill_and_rename_spec)

lemma saveUploadedFile_spec:
  assumes "\<And>r. os_key (os_cwd s) dest \<noteq> upload_key s r"
  shows "wp (saveUploadedFile (chunks, eof) dest)
    (\<lambda>u s'. eof \<and> same_store s s' \<and> os_files s' = (os_files s)(os_key (os_cwd s) dest \<mapsto> concat chunks))
    (\<lambda>e s'. (\<exists>r. only_changes {upload_key s r} s s') \<and> (\<forall>k. os_files s k \<noteq> None \<longrightarrow> os_files s' k = os_files s k) \<and>
       (os_faults s = [] \<longrightarrow> \<not> eof \<or> os_key (os_cwd s) dest \<in> os_dirs s \<or>
          \<not> temp_available (publicDir @ ''/upload-'') s)) s"
  using upload.replace_spec [where s = s and dest = dest and chunks = chunks and eof = eof] assms
  by (simp add: saveUploadedFile_def os_defer_defer upload_key_def)

lemma Ext_noslash: "slash \<notin> set f \<Longrightarrow> CHR ''.'' \<notin> set f \<Longrightarrow> filepath_Ext f = []"
  by (simp add: filepath_Ext_def split_slash_noslash LastIndexByte_def)

lemma allowed_empty: "allowedContentTypes (strings_ToLower []) = None"
  by (simp add: allowedContentTypes_def strings_ToLower_def)

lemma dotdot_not_allowed: "contentTypeForPath ''..'' = None"
  by code_simp

lemma upload_not_allowed: "contentTypeForPath (''upload-'' @ itoa_nat r) = None"
proof -
  have "CHR ''.'' \<notin> set (''upload-'' @ itoa_nat r)" "slash \<notin> set (''upload-'' @ itoa_nat r)"
    by (auto dest: itoa_nat_digits simp: is_digit_def)
  then show ?thesis
    using Ext_noslash allowed_empty by (simp add: contentTypeForPath_def)
qed

lemma Base_noslash:
  assumes "filepath_Base p \<noteq> ''/''"
  shows "filepath_Base p \<noteq> [] \<and> slash \<notin> set (filepath_Base p)"
proof (cases "p = []")
  case False
  then have "filepath_Base p = last (split_slash (strip_trailing_slashes p)) \<and> filepath_Base p \<noteq> []"
    using assms by (auto simp: filepath_Base_def Let_def split: if_splits)
  moreover have "slash \<notin> set (last (split_slash (strip_trailing_slashes p)))"
    using split_slash_comps last_in_set split_slash_nonempty by blast
  ultimately show ?thesis by metis
qed (simp add: filepath_Base_def)

lemma upload_name_normal:
  assumes "filepath_Base p \<noteq> ''.''" "filepath_Base p \<noteq> ''/''" "contentTypeForPath (filepath_Base p) = Some ct"
  shows "normal_comp (filepath_Base p)"
  using assms Base_noslash [of p] dotdot_not_allowed by (auto simp: normal_comp_def)

lemma request_comps_one: "normal_comp f \<Longrightarrow> request_comps f = [f]"
  by (simp add: request_comps_def normal_comp_def split_slash_noslash clean_comps_def clean_comp_def)

lemma public_file_key: "normal_comps ws \<Longrightarrow> normal_comps cs \<Longrightarrow> os_key cwd (public_file ws cs) = public_file ws cs"
  using Clean_rooted_normal [of "ws @ ''public'' # cs"] normal_public by (simp add: os_key_def public_file_def)

lemma public_file_inj: "normal_comps ws \<Longrightarrow> normal_comps cs \<Longrightarrow> normal_comps ds \<Longrightarrow>
    public_file ws cs = public_file ws ds \<longleftrightarrow> cs = ds"
  using Join_inj [of "ws @ ''public'' # cs" "ws @ ''public'' # ds"] normal_public by (auto simp: public_file_def)

lemma upload_name_normal_comp: "normal_comp (''upload-'' @ itoa_nat r)"
  by (auto simp: normal_comp_def is_digit_def dest: itoa_nat_digits)

lemma upload_key_public:
  assumes "rooted_cwd ws s"
  shows "upload_key s r = public_file ws [''upload-'' @ itoa_nat r]"
proof -
  have ws: "normal_comps ws" and cwd: "os_cwd s = slash # strings_Join ws ''/''"
    using assms by (simp_all add: rooted_cwd_def)
  have "split_slash (publicDir @ ''/'' @ ''upload-'' @ itoa_nat r) = [''.'', ''public'', ''upload-'' @ itoa_nat r]"
    using split_slash_append [of "''.''" "''public/upload-'' @ itoa_nat r"]
      split_slash_append [of "''public''" "''upload-'' @ itoa_nat r"]
      split_slash_noslash [of "''upload-'' @ itoa_nat r"] upload_name_normal_comp [of r]
    by (simp add: publicDir_def normal_comp_def)
  moreover have "hd (publicDir @ ''/'' @ ''upload-'' @ itoa_nat r) \<noteq> slash" by (simp add: publicDir_def)
  ultimately show ?thesis
    using os_key_relative [OF ws, of "publicDir @ ''/'' @ ''upload-'' @ itoa_nat r"]
    by (simp add: upload_key_def cwd clean_comp_def public_file_def)
qed

lemma writeFile_spec:
  assumes cwd: "rooted_cwd ws s"
  shows "wp (writeFile p (chunks, eof))
    (\<lambda>u s'. eof \<and> contentTypeForPath (filepath_Base p) \<noteq> None \<and> normal_comp (filepath_Base p) \<and> same_store s s' \<and>
       os_files s' = (os_files s)(public_file ws [filepath_Base p] \<mapsto> concat chunks))
    (\<lambda>e s'. same_store s s' \<and> (\<forall>k. os_files s k \<noteq> None \<longrightarrow> os_files s' k = os_files s k) \<and>
       (os_faults s = [] \<and> eof \<and> normal_comp (filepath_Base p) \<and> contentTypeForPath (filepath_Base p) \<noteq> None \<longrightarrow>
          prefix ''..'' (filepath_Base p) \<or> public_file ws [filepath_Base p] \<in> os_dirs s \<or>
          \<not> temp_available (publicDir @ ''/upload-'') s)) s"
proof (cases "filepath_Base p = ''.'' \<or> filepath_Base p = ''/'' \<or> contentTypeForPath (filepath_Base p) = None")
  case True
  then show ?thesis
    using Base_noslash [of p] by (auto simp: writeFile_def Let_def normal_comp_def split: option.split)
next
  case False
  define f where "f = filepath_Base p"
  obtain ct where ct: "contentTypeForPath f = Some ct" using False by (auto simp: f_def)
  have f: "normal_comp f" using upload_name_normal False ct by (auto simp: f_def)
  have ws: "normal_comps ws" using cwd by (simp add: rooted_cwd_def)
  have eq: "writeFile p (chunks, eof) = os_bind (resolvePath f) (\<lambda>d. os_mapErr OSError (saveUploadedFile (chunks, eof) d))"
    using False f ct by (simp add: writeFile_def Let_def f_def normal_comp_def)
  show ?thesis
    unfolding eq f_def [symmetric]
  proof (rule wp_bindI [OF resolvePath_spec [OF cwd]], goal_cases)
    case (1 d s1)
    then have d: "d = public_file ws [f]" and q: "quiet s s1"
      using f by (auto simp: request_comps_one)
    have s1: "os_files s1 = os_files s" "same_store s s1"
      using quiet_files [OF q] by blast+
    have cwd1: "rooted_cwd ws s1" using rooted_cwd_same [OF cwd s1(2)] .
    have key: "os_key (os_cwd s1) d = d" using public_file_key [OF ws] f by (simp add: d)
    show ?case
      unfolding wp_mapErr
    proof (rule wp_conseq [OF saveUploadedFile_spec], goal_cases)
      case (1 r)
      have "f \<noteq> ''upload-'' @ itoa_nat r" using ct upload_not_allowed [of r] by auto
      then show ?case
        using public_file_inj [OF ws, of "[f]" "[''upload-'' @ itoa_nat r]"] f upload_name_normal_comp [of r]
        by (simp add: key [unfolded d] upload_key_public [OF cwd1] d)
    next
      case (2 u s2)
      then show ?case using s1 ct f key d same_store_trans by simp
    next
      case (3 e s2)
      have "same_store s s2" using 3 s1(2) same_store_trans by (auto simp: only_changes_def)
      moreover have "os_faults s = [] \<Longrightarrow> s1 = s" using q by (simp add: quiet_def)
      ultimately show ?case using 3 s1 key d by auto
    qed
  next
    case (2 e s1)
    then show ?case using f
      by (auto simp: request_comps_one refused_def dest: quiet_files)
  qed
qed

text \<open>C4: an upload is all or nothing, whichever system calls fail and whatever names the
  temporary file draws.  If \<^verbatim>\<open>writeFile\<close> succeeds, the body was read to its end, the file named by
  the last component of the request path, below \<^verbatim>\<open>public\<close>, holds exactly the body, its extension is
  an allowed one, and no other file differs; if it fails, every file that existed is as it was.\<close>

theorem upload_atomic:
  assumes "rooted_cwd ws s" and "writeFile p (chunks, eof) s = (r, s')"
  shows "(r = Inr () \<longrightarrow> eof \<and> contentTypeForPath (filepath_Base p) \<noteq> None \<and>
      os_files s' = (os_files s)(public_file ws [filepath_Base p] \<mapsto> concat chunks)) \<and>
    (\<forall>e. r = Inl e \<longrightarrow> (\<forall>k. os_files s k \<noteq> None \<longrightarrow> os_files s' k = os_files s k))"
  using writeFile_spec [OF assms(1), of p chunks eof] assms(2)
  by (auto simp: wp_def)

theorem upload_atomic_witness:
  "fst (writeFile ''/docs/b.txt'' ([''ab'', ''c''], True) ex_os) = Inr () \<and>
   os_files (snd (writeFile ''/docs/b.txt'' ([''ab'', ''c''], True) ex_os)) =
     (os_files ex_os)(public_file [''srv'', ''web''] [''b.txt''] \<mapsto> ''abc'')"
proof -
  have 1: "fst (writeFile ''/docs/b.txt'' ([''ab'', ''c''], True) ex_os) = Inr ()" by code_simp
  have 2: "filepath_Base ''/docs/b.txt'' = ''b.txt''" by code_simp
  from 1 have "writeFile ''/docs/b.txt'' ([''ab'', ''c''], True) ex_os =
      (Inr (), snd (writeFile ''/docs/b.txt'' ([''ab'', ''c''], True) ex_os))"
    by (metis prod.collapse)
  from upload_atomic [OF ex_os_cwd this] 1 2 show ?thesis by simp
qed

lemma readFile_spec:
  assumes cwd: "rooted_cwd ws s"
  shows "wp (readFile p)
    (\<lambda>bytes s'. quiet s s' \<and> \<not> refused (request_comps p) \<and> os_files s (public_file ws (request_comps p)) = Some bytes)
    (\<lambda>e s'. quiet s s' \<and> (os_faults s = [] \<longrightarrow> refused (request_comps p) \<or>
       public_file ws (request_comps p) \<in> os_dirs s \<or> os_files s (public_file ws (request_comps p)) = None)) s"
  unfolding readFile_def
proof (rule wp_bindI [OF resolvePath_spec [OF cwd]], goal_cases)
  case (1 f s1)
  define pf where "pf = public_file ws (request_comps p)"
  have f: "f = pf" "\<not> refused (request_comps p)" and s1: "quiet s s1" using 1 by (simp_all add: pf_def)
  have "normal_comps ws" using cwd by (simp add: rooted_cwd_def)
  then have key: "os_key c pf = pf" for c
    using public_file_key [OF _ request_comps_normal] by (simp add: pf_def)
  have same: "os_files t = os_files s \<and> os_dirs t = os_dirs s \<and> (os_faults s = [] \<longrightarrow> os_faults t = [])" if "quiet s t" for t
    using quiet_files [OF that] by (simp add: same_store_def)
  show ?case
    unfolding pf_def [symmetric] f(1)
  proof (rule wp_bindI, unfold wp_mapErr, rule Stat_spec, goal_cases)
    case (1 isDir s2)
    then have s2: "quiet s s2" using s1 quiet_trans by blast
    show ?case
    proof (cases isDir)
      case True
      then show ?thesis using 1 s2 same [OF s1] by (simp add: key)
    next
      case False
      have "wp (os_ReadFile pf) (\<lambda>bytes s'. quiet s s' \<and> \<not> refused (request_comps p) \<and> os_files s pf = Some bytes)
        (\<lambda>e s'. quiet s s' \<and> (os_faults s = [] \<longrightarrow> refused (request_comps p) \<or> pf \<in> os_dirs s \<or> os_files s pf = None)) s2"
        by (rule wp_conseq [OF ReadFile_spec]) (use s2 same [OF s2] f quiet_trans [of s s2] in \<open>simp_all add: key\<close>)
      then show ?thesis using False by simp
    qed
  next
    case (2 e s2)
    then show ?case using s1 same [OF s1] quiet_trans [of s s1] by (simp add: key)
  qed
qed simp

lemma public_request_comps: "normal_comp f \<Longrightarrow> request_comps (slash # f) = [f]"
  using request_comps_one [of f] by (simp add: request_comps_def clean_comps_skip)

lemma contentType_slash: "slash \<notin> set f \<Longrightarrow> contentTypeForPath (slash # f) = contentTypeForPath f"
  by (simp add: contentTypeForPath_def filepath_Ext_def split_slash_noslash)

lemma fileServer_handlers:
  "requestHandlers fileServer ''GET'' = Some getHandler" "requestHandlers fileServer ''POST'' = Some postHandler"
  by (simp_all add: fileServer_def Server_Post_def Server_Get_def registerHandler_def)

lemma methods_valid: "HTTPMethod_IsValid ''GET''" "HTTPMethod_IsValid ''POST''"
  by (simp_all add: HTTPMethod_IsValid_def)

lemma post_created:
  assumes "Req_Method post = ''POST''" and "writeFile (Req_URL_Path post) (Req_Body post) s = (Inr (), s')"
  shows "handleRequest fileServer post s = (Inr (Builder_Status Status_Created (NewResponse (Some post))), s')"
  using assms
  by (simp add: handleRequest_def fileServer_handlers methods_valid postHandler_def NewResponseBuilder_def
      Builder_Build_def)

lemma get_served:
  assumes "Req_Method get = ''GET''" and "contentTypeForPath (Req_URL_Path get) = Some ct"
    and "readFile (Req_URL_Path get) s = (Inr bytes, s')"
  shows "handleRequest fileServer get s =
    (Inr (Builder_Header ''Content-Type'' ct (Builder_Bytes bytes (NewResponse (Some get)))), s')"
  using assms
  by (simp add: handleRequest_def fileServer_handlers methods_valid getHandler_def NewResponseBuilder_def
      Builder_Build_def)

text \<open>C20: what was posted is what a later GET returns.  When no system call fails, a POST whose path
  ends in an allowed file name \<open>f\<close> is answered 201, and a GET of \<open>f\<close> in any later state
  in which that file and the directories are as the POST left them is answered 200 with exactly the
  posted bytes, their length and the content type of the extension.\<close>

theorem post_get_round_trip:
  assumes cwd: "rooted_cwd ws s" and nf: "os_faults s = []" and tmp: "temp_available (publicDir @ ''/upload-'') s"
    and post: "Req_Method post = ''POST''" "Req_Body post = (chunks, True)" "filepath_Base (Req_URL_Path post) = f"
    and f: "normal_comp f" "\<not> prefix ''..'' f" "contentTypeForPath f = Some ct" "public_file ws [f] \<notin> os_dirs s"
    and get: "Req_Method get = ''GET''" "Req_URL_Path get = ''/'' @ f"
  shows "\<exists>r1 s1. handleRequest fileServer post s = (Inr r1, s1) \<and> Resp_StatusCode r1 = Status_Created \<and>
    (\<forall>s2. same_store s1 s2 \<and> os_files s2 (public_file ws [f]) = os_files s1 (public_file ws [f]) \<longrightarrow>
      (\<exists>r2 s3. handleRequest fileServer get s2 = (Inr r2, s3) \<and> Resp_StatusCode r2 = Status_Ok \<and>
         Resp_Body r2 = concat chunks \<and>
         Resp_Headers r2 = [''Content-Length'' \<mapsto> [itoa (int (length (concat chunks)))], ''Content-Type'' \<mapsto> [ct]]))"
proof -
  have "wp (writeFile (Req_URL_Path post) (Req_Body post))
      (\<lambda>u s'. same_store s s' \<and> os_files s' = (os_files s)(public_file ws [f] \<mapsto> concat chunks)) (\<lambda>e s'. False) s"
    unfolding post(2)
    by (rule wp_conseq [OF writeFile_spec [OF cwd]]) (use f nf tmp in \<open>simp_all add: post(3)\<close>)
  from wp_total [OF this] obtain u s1 where w: "writeFile (Req_URL_Path post) (Req_Body post) s = (Inr (), s1)"
    and s1: "same_store s s1" "os_files s1 = (os_files s)(public_file ws [f] \<mapsto> concat chunks)"
    by auto
  have "\<exists>r2 s3. handleRequest fileServer get s2 = (Inr r2, s3) \<and> Resp_StatusCode r2 = Status_Ok \<and>
      Resp_Body r2 = concat chunks \<and>
      Resp_Headers r2 = [''Content-Length'' \<mapsto> [itoa (int (length (concat chunks)))], ''Content-Type'' \<mapsto> [ct]]"
    if s2: "same_store s1 s2" "os_files s2 (public_file ws [f]) = os_files s1 (public_file ws [f])" for s2
  proof -
    have st: "same_store s s2" using s1(1) s2(1) by (rule same_store_trans)
    have cwd2: "rooted_cwd ws s2" using rooted_cwd_same [OF cwd st] .
    have rc: "request_comps (Req_URL_Path get) = [f]" using public_request_comps [OF f(1)] by (simp add: get)
    have pf: "os_files s2 (public_file ws [f]) = Some (concat chunks)" "public_file ws [f] \<notin> os_dirs s2"
      "os_faults s2 = []" "\<not> refused [f]"
      using s1 s2 f st nf by (simp_all add: same_store_def refused_def)
    have "wp (readFile (Req_URL_Path get)) (\<lambda>bytes s'. bytes = concat chunks) (\<lambda>e s'. False) s2"
      by (rule wp_conseq [OF readFile_spec [OF cwd2]]) (simp_all add: rc pf)
    from wp_total [OF this] obtain s3 where r: "readFile (Req_URL_Path get) s2 = (Inr (concat chunks), s3)"
      by blast
    have ct: "contentTypeForPath (Req_URL_Path get) = Some ct"
      using f contentType_slash [of f] by (simp add: get normal_comp_def)
    show ?thesis
      by (rule exI, rule exI, rule conjI, rule get_served [OF get(1) ct r])
         (auto simp: Builder_Header_def Builder_Bytes_def NewResponse_def)
  qed
  moreover have "Resp_StatusCode (Builder_Status Status_Created (NewResponse (Some post))) = Status_Created"
    by (simp add: Builder_Status_def)
  ultimately show ?thesis
    using post_created [OF post(1) w] by blast
qed

definition ex_post :: Request where
  "ex_post = \<lparr>Req_Method = ''POST'', Req_Proto = ''HTTP/1.1'', Req_URL_Path = ''/docs/b.txt'', Req_URL_Host = [],
     Req_Host = ''h'', Req_Header = Map.empty, Req_RequestURI = ''/docs/b.txt'', Req_Body = ([''ab'', ''c''], True)\<rparr>"

definition ex_get :: Request where
  "ex_get = \<lparr>Req_Method = ''GET'', Req_Proto = ''HTTP/1.1'', Req_URL_Path = ''/b.txt'', Req_URL_Host = [],
     Req_Host = ''h'', Req_Header = Map.empty, Req_RequestURI = ''/b.txt'', Req_Body = ([], True)\<rparr>"

theorem post_get_round_trip_witness:
  "\<exists>r1 s1 r2 s2. handleRequest fileServer ex_post ex_os = (Inr r1, s1) \<and> Resp_StatusCode r1 = 201 \<and>
     handleRequest fileServer ex_get s1 = (Inr r2, s2) \<and> Resp_StatusCode r2 = 200 \<and> Resp_Body r2 = ''abc''"
proof -
  have 1: "filepath_Base (Req_URL_Path ex_post) = ''b.txt''" "contentTypeForPath ''b.txt'' = Some ''text/plain''"
    by code_simp+
  have 2: "temp_available (publicDir @ ''/upload-'') ex_os"
    by (simp add: temp_available_def ex_os_def Let_def publicDir_def) code_simp
  have 3: "public_file [''srv'', ''web''] [''b.txt''] \<notin> os_dirs ex_os"
    by (simp add: public_file_def ex_os_def)
  have "\<exists>r1 s1. handleRequest fileServer ex_post ex_os = (Inr r1, s1) \<and> Resp_StatusCode r1 = Status_Created \<and>
    (\<forall>s2. same_store s1 s2 \<and> os_files s2 (public_file [''srv'', ''web''] [''b.txt'']) =
        os_files s1 (public_file [''srv'', ''web''] [''b.txt'']) \<longrightarrow>
      (\<exists>r2 s3. handleRequest fileServer ex_get s2 = (Inr r2, s3) \<and> Resp_StatusCode r2 = Status_Ok \<and>
         Resp_Body r2 = concat [''ab'', ''c''] \<and>
         Resp_Headers r2 = [''Content-Length'' \<mapsto> [itoa (int (length (concat [''ab'', ''c''])))],
                            ''Content-Type'' \<mapsto> [''text/plain'']]))"
    by (rule post_get_round_trip [OF ex_os_cwd _ 2 _ _ 1(1) _ _ 1(2) 3])
       (simp_all add: ex_os_def ex_post_def ex_get_def normal_comp_def)
  then obtain r1 s1 where p: "handleRequest fileServer ex_post ex_os = (Inr r1, s1)" "Resp_StatusCode r1 = 201"
    and g: "\<And>s2. same_store s1 s2 \<Longrightarrow> os_files s2 (public_file [''srv'', ''web''] [''b.txt'']) =
        os_files s1 (public_file [''srv'', ''web''] [''b.txt'']) \<Longrightarrow>
      \<exists>r2 s3. handleRequest fileServer ex_get s2 = (Inr r2, s3) \<and> Resp_StatusCode r2 = 200 \<and>
        Resp_Body r2 = concat [''ab'', ''c'']"
    by blast
  from g [of s1] p show ?thesis by auto
qed

end
