(* ===== verification/Http_Proxy.thy ===== *)
theory Http_Proxy
  imports Http
begin

text \<open>
  The proxy of Lab 1 (\<^verbatim>\<open>src/Labs/Lab1/proxy/proxy.go\<close>).  The network is a record of what the four
  steps against the target return: dialling it, writing the request, reading the response's head, and
  reading its body; each may fail.
\<close>

record UpstreamResponse =
  Up_StatusCode :: int
  Up_Header :: Headers

record Network =
  net_Dial :: "string \<Rightarrow> bool"
  net_Write :: "string \<Rightarrow> Request \<Rightarrow> bool"
  net_ReadResponse :: "string \<Rightarrow> Request \<Rightarrow> UpstreamResponse option"
  net_ReadAll :: "string \<Rightarrow> Request \<Rightarrow> string option"

text \<open>\<open>ord\<close> gives the order in which the loop over \<^verbatim>\<open>response.Header\<close> visits the keys.\<close>

definition handleProxyRequest :: "Network \<Rightarrow> (Headers \<Rightarrow> string list) \<Rightarrow> Request \<Rightarrow> Response \<Rightarrow> handler_error option \<times> Response" where
  "handleProxyRequest net ord request rb =
     (let h0 = Req_URL_Host request;
          h1 = (if h0 = [] then Req_Host request else h0)
      in if h1 = [] then (Some (HTTPError Status_BadRequest), rb)
         else
           let targetHost = (if \<not> strings_Contains h1 '':'' then h1 @ '':80'' else h1)
           in if \<not> net_Dial net targetHost then (Some (HTTPError Status_InternalServerError), rb)
              else
                let request' = request\<lparr>Req_Header := (Req_Header request)(''Proxy-Connection'' := None),
                                       Req_RequestURI := []\<rparr>
                in if \<not> net_Write net targetHost request' then (Some (HTTPError Status_InternalServerError), rb)
                   else
                     (case net_ReadResponse net targetHost request' of
                        None \<Rightarrow> (Some (HTTPError Status_InternalServerError), rb)
                      | Some response \<Rightarrow>
                          (case net_ReadAll net targetHost request' of
                             None \<Rightarrow> (Some (HTTPError Status_InternalServerError), rb)
                           | Some body \<Rightarrow>
                               (None,
                                foldl (\<lambda>b headerKey.
                                    (case Up_Header response headerKey of
                                       None \<Rightarrow> b
                                     | Some headerValues \<Rightarrow> Builder_Header headerKey (strings_Join headerValues '', '') b))
                                  (Builder_Bytes body (Builder_Status (Up_StatusCode response) rb)) (ord (Up_Header response))))))"

definition proxyServer :: "Network \<Rightarrow> (Headers \<Rightarrow> string list) \<Rightarrow> 'w Server" where
  "proxyServer net ord =
     Server_Get (\<lambda>request rb w. (handleProxyRequest net ord request rb, w)) NewServer"

section \<open>Relaying\<close>

text \<open>The host the proxy dials and the request it forwards.\<close>

definition target_host :: "Request \<Rightarrow> string" where
  "target_host request =
     (let h = (if Req_URL_Host request = [] then Req_Host request else Req_URL_Host request)
      in if strings_Contains h '':'' then h else h @ '':80'')"

definition forwarded :: "Request \<Rightarrow> Request" where
  "forwarded request =
     request\<lparr>Req_Header := (Req_Header request)(''Proxy-Connection'' := None), Req_RequestURI := []\<rparr>"

definition relay_header :: "Headers \<Rightarrow> Response \<Rightarrow> string \<Rightarrow> Response" where
  "relay_header up b k =
     (case up k of None \<Rightarrow> b | Some vs \<Rightarrow> Builder_Header k (strings_Join vs '', '') b)"

lemma relay_header_simps:
  "Resp_Headers (relay_header up b k) = (Resp_Headers b)(k := case up k of None \<Rightarrow> Resp_Headers b k | Some vs \<Rightarrow> Some [strings_Join vs '', ''])"
  "Resp_StatusCode (relay_header up b k) = Resp_StatusCode b" "Resp_Body (relay_header up b k) = Resp_Body b"
  by (simp_all add: relay_header_def Builder_Header_def split: option.split)

lemma relayed_other:
  "Resp_StatusCode (foldl (relay_header up) b ks) = Resp_StatusCode b \<and> Resp_Body (foldl (relay_header up) b ks) = Resp_Body b"
  by (induction ks arbitrary: b) (simp_all add: relay_header_simps)

lemma relayed_headers:
  "Resp_Headers (foldl (relay_header up) b ks) k =
     (case up k of Some vs \<Rightarrow> if k \<in> set ks then Some [strings_Join vs '', ''] else Resp_Headers b k
      | None \<Rightarrow> Resp_Headers b k)"
  by (induction ks arbitrary: b) (auto simp: relay_header_simps split: option.split)

text \<open>C23: the proxy relays the target's answer.  When the four network steps succeed, a GET is answered
  with the target's status code, its whole body, and each of its headers with the same values, in
  whatever order the header map is iterated; the length and the type \<^verbatim>\<open>text/plain\<close> are filled in only
  where the target sent none; the request that was forwarded has no \<^verbatim>\<open>Proxy-Connection\<close> header.\<close>

theorem proxy_relays:
  assumes "Req_Method request = ''GET''" and "Req_URL_Host request \<noteq> [] \<or> Req_Host request \<noteq> []"
    and "net_Dial net (target_host request)" and "net_Write net (target_host request) (forwarded request)"
    and "net_ReadResponse net (target_host request) (forwarded request) = Some up"
    and "net_ReadAll net (target_host request) (forwarded request) = Some body"
    and "range_order (Up_Header up) (ord (Up_Header up))"
  shows "Req_Header (forwarded request) ''Proxy-Connection'' = None \<and>
    (\<exists>r. handleRequest (proxyServer net ord) request w = (Inr r, w) \<and>
       Resp_StatusCode r = Up_StatusCode up \<and> Resp_Body r = body \<and>
       (\<forall>k vs. Up_Header up k = Some vs \<longrightarrow> Resp_Headers r k = Some [strings_Join vs '', '']) \<and>
       (\<forall>k. Up_Header up k = None \<longrightarrow> Resp_Headers r k =
          [''Content-Type'' \<mapsto> [''text/plain''], ''Content-Length'' \<mapsto> [itoa (int (length body))]] k))"
proof -
  let ?b0 = "Builder_Bytes body (Builder_Status (Up_StatusCode up) (NewResponse (Some request)))"
  let ?r = "foldl (relay_header (Up_Header up)) ?b0 (ord (Up_Header up))"
  define h where "h = (if Req_URL_Host request = [] then Req_Host request else Req_URL_Host request)"
  have h: "h \<noteq> []" using assms(2) by (auto simp: h_def)
  have th: "target_host request = (if \<not> strings_Contains h '':'' then h @ '':80'' else h)"
    by (simp add: target_host_def h_def)
  have "handleProxyRequest net ord request (NewResponse (Some request)) = (None, ?r)"
    unfolding handleProxyRequest_def Let_def h_def [symmetric] th [symmetric] forwarded_def [symmetric]
      relay_header_def [symmetric]
    using h assms(3-6) by simp
  then have "handleRequest (proxyServer net ord) request w = (Inr ?r, w)"
    using assms(1)
    by (simp add: handleRequest_def proxyServer_def Server_Get_def registerHandler_def HTTPMethod_IsValid_def
        NewResponseBuilder_def Builder_Build_def)
  moreover have "Resp_Headers ?b0 =
      [''Content-Type'' \<mapsto> [''text/plain''], ''Content-Length'' \<mapsto> [itoa (int (length body))]]"
    by (simp add: Builder_Bytes_def Builder_Status_def NewResponse_def)
  moreover have "Resp_StatusCode ?b0 = Up_StatusCode up" "Resp_Body ?b0 = body"
    by (simp_all add: Builder_Bytes_def Builder_Status_def)
  moreover have "\<And>k vs. Up_Header up k = Some vs \<Longrightarrow> k \<in> set (ord (Up_Header up))"
    using assms(7) by (simp add: range_order_dom)
  ultimately show ?thesis
    by (intro conjI exI [of _ ?r]) (simp_all add: forwarded_def relayed_other relayed_headers)
qed

definition ex_net :: Network where
  "ex_net = \<lparr>net_Dial = (\<lambda>h. h = ''a.org:80''), net_Write = (\<lambda>h r. Req_Header r ''Proxy-Connection'' = None),
     net_ReadResponse = (\<lambda>h r. Some \<lparr>Up_StatusCode = 404, Up_Header = [''Server'' \<mapsto> [''x'', ''y'']]\<rparr>),
     net_ReadAll = (\<lambda>h r. Some ''gone'')\<rparr>"

definition ex_proxy_get :: Request where
  "ex_proxy_get = \<lparr>Req_Method = ''GET'', Req_Proto = ''HTTP/1.1'', Req_URL_Path = ''/'', Req_URL_Host = ''a.org'',
     Req_Host = [], Req_Header = [''Proxy-Connection'' \<mapsto> [''keep-alive'']], Req_RequestURI = ''http://a.org/'',
     Req_Body = ([], True)\<rparr>"

theorem proxy_relays_witness:
  "\<exists>r. handleRequest (proxyServer ex_net (\<lambda>h. [''Server''])) ex_proxy_get () = (Inr r, ()) \<and>
     Resp_StatusCode r = 404 \<and> Resp_Body r = ''gone'' \<and> Resp_Headers r ''Server'' = Some [''x, y'']"
proof -
  have th: "target_host ex_proxy_get = ''a.org:80''" by code_simp
  have "range_order [''Server'' \<mapsto> [''x'', ''y'']] [''Server'']" by (simp add: range_order_def)
  then show ?thesis
    using proxy_relays [of ex_proxy_get ex_net "\<lparr>Up_StatusCode = 404, Up_Header = [''Server'' \<mapsto> [''x'', ''y'']]\<rparr>" "''gone''"
        "\<lambda>h. [''Server'']" "()"]
    unfolding th by (auto simp: ex_net_def ex_proxy_get_def forwarded_def)
qed

end
