(* ===== verification/PC_Model.thy ===== *)
theory PC_Model
  imports Prelude
begin

text \<open>
  \<^verbatim>\<open>porcupine/model.go\<close>: operations, events, models and verdicts of the linearizability checker, and the
  entries of \<^verbatim>\<open>checker.go\<close> that both kinds of history are turned into.

  A value of Go's \<^verbatim>\<open>interface{}\<close> is \<open>'v any\<close>, with \<open>None\<close> for nil.  The functions of a model that
  assert the dynamic type of such a value may panic; their result is a sum.  The fields of \<^verbatim>\<open>Model\<close>
  that may be left nil are options, and \<open>fillDefault\<close> gives a model in which every function is present.
\<close>

section \<open>\<^verbatim>\<open>model.go\<close>\<close>

type_synonym 'v any = "'v option"

record 'v Operation =
  Op_ClientId :: int
  Op_Input :: "'v any"
  Op_Call :: int
  Op_Output :: "'v any"
  Op_Return :: int

datatype EventKind = CallEvent | ReturnEvent

record 'v Event =
  Ev_ClientId :: int
  Ev_Kind :: EventKind
  Ev_Value :: "'v any"
  Ev_Id :: int

type_synonym ('v, 's) step_fun = "'s \<Rightarrow> 'v any \<Rightarrow> 'v any \<Rightarrow> go_panic + bool \<times> 's"

record ('v, 's) Model =
  Partition :: "('v Operation list \<Rightarrow> go_panic + 'v Operation list list) option"
  PartitionEvent :: "('v Event list \<Rightarrow> go_panic + 'v Event list list) option"
  Init :: 's
  Step :: "('v, 's) step_fun"
  Equal :: "('s \<Rightarrow> 's \<Rightarrow> bool) option"
  DescribeOperation :: "('v any \<Rightarrow> 'v any \<Rightarrow> go_panic + string) option"
  DescribeState :: "('s \<Rightarrow> go_panic + string) option"

definition NoPartition :: "'v Operation list \<Rightarrow> go_panic + 'v Operation list list" where
  "NoPartition history = Inr [history]"

definition NoPartitionEvent :: "'v Event list \<Rightarrow> go_panic + 'v Event list list" where
  "NoPartitionEvent history = Inr [history]"

text \<open>Go's \<^verbatim>\<open>==\<close> on two interface values panics where both hold a value of the same uncomparable type, such as a slice
  or a map.  The model is for states of a comparable type; a model with other states has an \<^verbatim>\<open>Equal\<close> of its own.\<close>

definition ShallowEqual :: "'s \<Rightarrow> 's \<Rightarrow> bool" where
  "ShallowEqual state1 state2 \<longleftrightarrow> state1 = state2"

text \<open>\<open>fmt\<close> stands for the verb \<^verbatim>\<open>%v\<close> of package \<^verbatim>\<open>fmt\<close>.\<close>

definition DefaultDescribeOperation :: "('v any \<Rightarrow> string) \<Rightarrow> 'v any \<Rightarrow> 'v any \<Rightarrow> go_panic + string" where
  "DefaultDescribeOperation fmt input output = Inr (fmt input @ '' -> '' @ fmt output)"

definition DefaultDescribeState :: "('s \<Rightarrow> string) \<Rightarrow> 's \<Rightarrow> go_panic + string" where
  "DefaultDescribeState fmt state = Inr (fmt state)"

datatype CheckResult = Unknown | Ok | Illegal

section \<open>Filled models\<close>

record ('v, 's) FilledModel =
  m_Partition :: "'v Operation list \<Rightarrow> go_panic + 'v Operation list list"
  m_PartitionEvent :: "'v Event list \<Rightarrow> go_panic + 'v Event list list"
  m_Init :: 's
  m_Step :: "('v, 's) step_fun"
  m_Equal :: "'s \<Rightarrow> 's \<Rightarrow> bool"
  m_DescribeOperation :: "'v any \<Rightarrow> 'v any \<Rightarrow> go_panic + string"
  m_DescribeState :: "'s \<Rightarrow> go_panic + string"

definition fillDefault ::
  "('v any \<Rightarrow> string) \<Rightarrow> ('s \<Rightarrow> string) \<Rightarrow> ('v, 's) Model \<Rightarrow> ('v, 's) FilledModel" where
  "fillDefault fmtv fmts model = \<lparr>
     m_Partition = (case Partition model of None \<Rightarrow> NoPartition | Some f \<Rightarrow> f),
     m_PartitionEvent = (case PartitionEvent model of None \<Rightarrow> NoPartitionEvent | Some f \<Rightarrow> f),
     m_Init = Init model,
     m_Step = Step model,
     m_Equal = (case Equal model of None \<Rightarrow> ShallowEqual | Some f \<Rightarrow> f),
     m_DescribeOperation = (case DescribeOperation model of None \<Rightarrow> DefaultDescribeOperation fmtv | Some f \<Rightarrow> f),
     m_DescribeState = (case DescribeState model of None \<Rightarrow> DefaultDescribeState fmts | Some f \<Rightarrow> f)\<rparr>"

text \<open>Equality of states, as far as the checker relies on it: equal states allow the same steps, into
  equal states.\<close>

definition equal_ok :: "('v, 's) FilledModel \<Rightarrow> bool" where
  "equal_ok M \<longleftrightarrow> (\<forall>s t. m_Equal M s t \<longrightarrow>
     (\<forall>i out s'. m_Step M s i out = Inr (True, s') \<longrightarrow> (\<exists>t'. m_Step M t i out = Inr (True, t') \<and> m_Equal M s' t')))"

lemma ShallowEqual_ok: "m_Equal M = ShallowEqual \<Longrightarrow> equal_ok M"
  by (simp add: equal_ok_def ShallowEqual_def)

section \<open>Entries\<close>

datatype entryKind = callEntry | returnEntry

record 'v entry =
  e_kind :: entryKind
  e_value :: "'v any"
  e_id :: int
  e_time :: int
  e_clientId :: int

abbreviation is_call :: "'v entry \<Rightarrow> bool" where
  "is_call e \<equiv> e_kind e = callEntry"

abbreviation is_return :: "'v entry \<Rightarrow> bool" where
  "is_return e \<equiv> e_kind e = returnEntry"

lemma not_call [simp]: "\<not> is_call e \<longleftrightarrow> is_return e"
  by (cases "e_kind e") simp_all

section \<open>Linearizability\<close>

text \<open>The operations of a history of entries, their values, and the order of real time: \<open>a\<close> precedes \<open>b\<close>
  if the return of \<open>a\<close> stands before the call of \<open>b\<close>.\<close>

definition call_ids :: "'v entry list \<Rightarrow> int list" where
  "call_ids H = map e_id (filter is_call H)"

definition return_ids :: "'v entry list \<Rightarrow> int list" where
  "return_ids H = map e_id (filter is_return H)"

definition history_ok :: "'v entry list \<Rightarrow> bool" where
  "history_ok H \<longleftrightarrow> distinct (call_ids H) \<and> distinct (return_ids H) \<and> set (call_ids H) = set (return_ids H) \<and>
     sorted_wrt (\<lambda>a b. \<not> (is_return a \<and> is_call b \<and> e_id a = e_id b)) H"

definition op_value :: "'v entry list \<Rightarrow> entryKind \<Rightarrow> int \<Rightarrow> 'v any" where
  "op_value H k i = (case find (\<lambda>e. e_kind e = k \<and> e_id e = i) H of None \<Rightarrow> None | Some e \<Rightarrow> e_value e)"

definition op_values :: "'v entry list \<Rightarrow> int \<Rightarrow> 'v any \<times> 'v any" where
  "op_values H i = (op_value H callEntry i, op_value H returnEntry i)"

definition prec :: "'v entry list \<Rightarrow> int \<Rightarrow> int \<Rightarrow> bool" where
  "prec H a b \<longleftrightarrow> (\<exists>xs r ys c zs. H = xs @ r # ys @ c # zs \<and> is_return r \<and> e_id r = a \<and> is_call c \<and> e_id c = b)"

text \<open>A sequence of inputs and outputs the model allows from a state, and the state it ends in.\<close>

fun legal_run :: "('v, 's) step_fun \<Rightarrow> 's \<Rightarrow> ('v any \<times> 'v any) list \<Rightarrow> 's option" where
  "legal_run step s [] = Some s"
| "legal_run step s (x # xs) =
     (case step s (fst x) (snd x) of Inr (True, s') \<Rightarrow> legal_run step s' xs | _ \<Rightarrow> None)"

definition linearization :: "('v, 's) step_fun \<Rightarrow> 's \<Rightarrow> 'v entry list \<Rightarrow> int list \<Rightarrow> bool" where
  "linearization step s H seq \<longleftrightarrow> distinct seq \<and> set seq = set (call_ids H) \<and>
     legal_run step s (map (op_values H) seq) \<noteq> None \<and> sorted_wrt (\<lambda>a b. \<not> prec H b a) seq"

definition linearizable :: "('v, 's) step_fun \<Rightarrow> 's \<Rightarrow> 'v entry list \<Rightarrow> bool" where
  "linearizable step s H \<longleftrightarrow> (\<exists>seq. linearization step s H seq)"

text \<open>A prefix of a linearization in the making: the operations so far form a legal run, and no operation
  outside of the sequence, or later in it, precedes one in it.\<close>

definition partial_linearization :: "('v, 's) step_fun \<Rightarrow> 's \<Rightarrow> 'v entry list \<Rightarrow> int list \<Rightarrow> bool" where
  "partial_linearization step s H seq \<longleftrightarrow> distinct seq \<and> set seq \<subseteq> set (call_ids H) \<and>
     legal_run step s (map (op_values H) seq) \<noteq> None \<and> sorted_wrt (\<lambda>a b. \<not> prec H b a) seq \<and>
     (\<forall>a \<in> set seq. \<forall>b \<in> set (call_ids H) - set seq. \<not> prec H b a)"

lemma legal_run_append:
  "legal_run step s (xs @ ys) = Option.bind (legal_run step s xs) (\<lambda>t. legal_run step t ys)"
  by (induction xs arbitrary: s) (auto split: sum.split bool.split)

lemma linearization_partial: "linearization step s H seq \<Longrightarrow> partial_linearization step s H seq"
  by (auto simp: linearization_def partial_linearization_def)

end
