(* ===== verification/PC_Search.thy ===== *)
theory PC_Search
  imports PC_Linearizable
begin

text \<open>
  The checker's search on lists and why it is right.  The state has the frames of the operations chosen
  so far (the remaining entries before and after the chosen call, and the state before it), the entries
  before and after the current one, the state, and the configurations cached: a set of operations and
  the state they led to.
\<close>

section \<open>One iteration\<close>

type_synonym ('v, 's) frame = "'v entry list \<times> 'v entry \<times> 'v entry list \<times> 's"

record ('v, 's) search =
  frames :: "('v, 's) frame list"
  before :: "'v entry list"
  after :: "'v entry list"
  cur :: 's
  seen :: "(int set \<times> 's) set"

datatype 'a outcome = Verdict bool | More 'a

definition frame_id :: "('v, 's) frame \<Rightarrow> int" where
  "frame_id f = (case f of (pre, c, post, t) \<Rightarrow> e_id c)"

definition chosen :: "('v, 's) frame list \<Rightarrow> int set" where
  "chosen fs = frame_id ` set fs"

definition skip :: "('v, 's) search \<Rightarrow> ('v, 's) search" where
  "skip s = s\<lparr>before := before s @ [hd (after s)], after := tl (after s)\<rparr>"

definition push :: "'s \<Rightarrow> ('v, 's) search \<Rightarrow> ('v, 's) search" where
  "push s' s =
     (let e = hd (after s); rest = tl (after s)
      in \<lparr>frames = (before s, e, rest, cur s) # frames s, before = [], after = drop_op (e_id e) (before s @ rest),
          cur = s', seen = insert (insert (e_id e) (chosen (frames s)), s') (seen s)\<rparr>)"

definition is_seen :: "('v, 's) FilledModel \<Rightarrow> int set \<Rightarrow> 's \<Rightarrow> ('v, 's) search \<Rightarrow> bool" where
  "is_seen M S s' s \<longleftrightarrow> (\<exists>(S', t) \<in> seen s. S = S' \<and> m_Equal M s' t)"

fun pop :: "('v, 's) search \<Rightarrow> ('v, 's) search outcome" where
  "pop s = (case frames s of
      [] \<Rightarrow> Verdict False
    | (pre, c, post, t) # fs \<Rightarrow> More (s\<lparr>frames := fs, before := pre @ [c], after := post, cur := t\<rparr>))"

definition search_step ::
  "('v, 's) FilledModel \<Rightarrow> (int \<Rightarrow> 'v any \<times> 'v any) \<Rightarrow> ('v, 's) search \<Rightarrow> ('v, 's) search outcome" where
  "search_step M v s =
     (case after s of
        [] \<Rightarrow> Verdict True
      | e # rest \<Rightarrow>
          if is_call e then
            (case m_Step M (cur s) (fst (v (e_id e))) (snd (v (e_id e))) of
               Inr (True, s') \<Rightarrow>
                 if is_seen M (insert (e_id e) (chosen (frames s))) s' s then More (skip s) else More (push s' s)
             | _ \<Rightarrow> More (skip s))
          else pop s)"

definition search_init :: "('v, 's) FilledModel \<Rightarrow> 'v entry list \<Rightarrow> ('v, 's) search" where
  "search_init M H = \<lparr>frames = [], before = [], after = H, cur = m_Init M, seen = {}\<rparr>"

lemma search_step_cases:
  obtains (finished) "after s = []" "search_step M v s = Verdict True"
  | (push) e rest s' where "after s = e # rest" "is_call e" "m_Step M (cur s) (fst (v (e_id e))) (snd (v (e_id e))) = Inr (True, s')"
      "\<not> is_seen M (insert (e_id e) (chosen (frames s))) s' s" "search_step M v s = More (push s' s)"
  | (known) e rest s' where "after s = e # rest" "is_call e" "m_Step M (cur s) (fst (v (e_id e))) (snd (v (e_id e))) = Inr (True, s')"
      "is_seen M (insert (e_id e) (chosen (frames s))) s' s" "search_step M v s = More (skip s)"
  | (illegal) e rest where "after s = e # rest" "is_call e"
      "\<nexists>s'. m_Step M (cur s) (fst (v (e_id e))) (snd (v (e_id e))) = Inr (True, s')" "search_step M v s = More (skip s)"
  | (exhausted) e rest where "after s = e # rest" "is_return e" "frames s = []" "search_step M v s = Verdict False"
  | (backtrack) e rest pre c post t fs where "after s = e # rest" "is_return e" "frames s = (pre, c, post, t) # fs"
      "search_step M v s = More (s\<lparr>frames := fs, before := pre @ [c], after := post, cur := t\<rparr>)"
proof (cases "after s")
  case Nil
  then show ?thesis using finished by (simp add: search_step_def)
next
  case (Cons e rest)
  show ?thesis
  proof (cases "e_kind e")
    case callEntry
    show ?thesis
    proof (cases "\<exists>s'. m_Step M (cur s) (fst (v (e_id e))) (snd (v (e_id e))) = Inr (True, s')")
      case True
      then obtain s' where s': "m_Step M (cur s) (fst (v (e_id e))) (snd (v (e_id e))) = Inr (True, s')" by blast
      show ?thesis
        using push [OF Cons callEntry s'] known [OF Cons callEntry s'] Cons callEntry s'
        by (cases "is_seen M (insert (e_id e) (chosen (frames s))) s' s") (simp_all add: search_step_def)
    next
      case False
      then have "search_step M v s = More (skip s)"
        using Cons callEntry by (auto simp: search_step_def split: sum.split bool.split)
      with illegal [OF Cons callEntry False] show ?thesis .
    qed
  next
    case returnEntry
    show ?thesis
    proof (cases "frames s")
      case Nil
      then show ?thesis using exhausted [OF Cons returnEntry] Cons returnEntry by (simp add: search_step_def)
    next
      case fs: (Cons f fs)
      obtain pre c post t where "f = (pre, c, post, t)" by (cases f)
      then show ?thesis using backtrack [OF Cons returnEntry] fs Cons returnEntry by (simp add: search_step_def)
    qed
  qed
qed

section \<open>The invariant\<close>

definition dead :: "('v, 's) FilledModel \<Rightarrow> (int \<Rightarrow> 'v any \<times> 'v any) \<Rightarrow> 'v entry list \<Rightarrow> 's \<Rightarrow> bool" where
  "dead M v R s \<longleftrightarrow> (\<forall>seq. \<not> lin_from (m_Step M) v R s seq)"

definition choice_dead ::
  "('v, 's) FilledModel \<Rightarrow> (int \<Rightarrow> 'v any \<times> 'v any) \<Rightarrow> 'v entry list \<Rightarrow> 's \<Rightarrow> 'v entry \<Rightarrow> bool" where
  "choice_dead M v R s x \<longleftrightarrow>
     (\<forall>s'. m_Step M s (fst (v (e_id x))) (snd (v (e_id x))) = Inr (True, s') \<longrightarrow> dead M v (drop_op (e_id x) R) s')"

definition tried :: "('v, 's) FilledModel \<Rightarrow> (int \<Rightarrow> 'v any \<times> 'v any) \<Rightarrow> 'v entry list \<Rightarrow> 'v entry list \<Rightarrow> 's \<Rightarrow> bool" where
  "tried M v pre post s \<longleftrightarrow> (\<forall>x \<in> set pre. is_call x \<and> choice_dead M v (pre @ post) s x)"

fun frames_ok ::
  "('v, 's) FilledModel \<Rightarrow> (int \<Rightarrow> 'v any \<times> 'v any) \<Rightarrow> 'v entry list \<Rightarrow> ('v, 's) frame list \<Rightarrow> 'v entry list \<Rightarrow> 's \<Rightarrow> bool" where
  "frames_ok M v H [] R s \<longleftrightarrow> R = H \<and> s = m_Init M"
| "frames_ok M v H ((pre, c, post, t) # fs) R s \<longleftrightarrow>
     frames_ok M v H fs (pre @ c # post) t \<and> is_call c \<and> tried M v pre (c # post) t \<and>
     R = drop_op (e_id c) (pre @ post) \<and> m_Step M t (fst (v (e_id c))) (snd (v (e_id c))) = Inr (True, s)"

fun on_path :: "('v, 's) frame list \<Rightarrow> 's \<Rightarrow> (int set \<times> 's) set" where
  "on_path [] s = {}"
| "on_path ((pre, c, post, t) # fs) s = insert (chosen ((pre, c, post, t) # fs), s) (on_path fs t)"

definition search_inv :: "('v, 's) FilledModel \<Rightarrow> (int \<Rightarrow> 'v any \<times> 'v any) \<Rightarrow> 'v entry list \<Rightarrow> ('v, 's) search \<Rightarrow> bool" where
  "search_inv M v H s \<longleftrightarrow>
     frames_ok M v H (frames s) (before s @ after s) (cur s) \<and> tried M v (before s) (after s) (cur s) \<and>
     (\<forall>(S, t) \<in> seen s. dead M v (drop_ops S H) t \<or> (S, t) \<in> on_path (frames s) (cur s))"

lemma chosen_simps [simp]: "chosen [] = {}" "chosen (f # fs) = insert (frame_id f) (chosen fs)"
  by (simp_all add: chosen_def)

lemma frame_id_simp [simp]: "frame_id (pre, c, post, t) = e_id c"
  by (simp add: frame_id_def)

lemma frames_ok_rest: "frames_ok M v H fs R s \<Longrightarrow> R = drop_ops (chosen fs) H"
proof (induction fs arbitrary: R s)
  case (Cons f fs)
  obtain pre c post t where f: "f = (pre, c, post, t)" by (cases f)
  with Cons.prems have "frames_ok M v H fs (pre @ c # post) t" "R = drop_op (e_id c) (pre @ c # post)" by simp_all
  with Cons.IH [OF this(1)] show ?case using f by (simp only: drop_ops_drop chosen_simps frame_id_simp) simp
qed simp

lemma frames_ok_fresh: "frames_ok M v H fs (xs @ e # ys) s \<Longrightarrow> e_id e \<notin> chosen fs"
  by (drule frames_ok_rest) (metis (mono_tags, lifting) in_set_conv_decomp mem_Collect_eq set_drop_ops)

lemma on_path_subset: "(S, t) \<in> on_path fs s \<Longrightarrow> S \<subseteq> chosen fs"
proof (induction fs arbitrary: s)
  case (Cons f fs)
  obtain pre c post u where f: "f = (pre, c, post, u)" by (cases f)
  from Cons.prems Cons.IH [of u] show ?case unfolding f by auto
qed simp

lemma minimal_call:
  assumes "is_call e" and "tried M v pre (e # post) s"
  shows "minimal (pre @ e # post) (e_id e)"
  using assms unfolding minimal_def tried_def by blast

text \<open>When the calls before the first return are all dead choices, so is the configuration.\<close>

lemma tried_all_dead:
  assumes "tried M v pre (e # post) s" and "is_return e"
  shows "dead M v (pre @ e # post) s"
proof -
  have "\<not> lin_from (m_Step M) v (pre @ e # post) s seq" for seq
  proof
    assume lin: "lin_from (m_Step M) v (pre @ e # post) s seq"
    from lin_from_nonempty [OF this] obtain c cs where c: "seq = c # cs" "minimal (pre @ e # post) c" by auto
    then obtain xs f ys where f: "pre @ e # post = xs @ f # ys" "is_call f" "e_id f = c" "\<forall>x \<in> set xs. is_call x"
      unfolding minimal_def by blast
    from f(1) consider us where "pre = xs @ f # us" | us where "xs = pre @ e # us" | "e = f"
      using two_splits [OF f(1)] by blast
    then have "f \<in> set pre" using f(2,4) assms(2) by cases auto
    then have "choice_dead M v (pre @ e # post) s f" using assms(1) by (simp add: tried_def)
    moreover obtain s' where "m_Step M s (fst (v c)) (snd (v c)) = Inr (True, s')"
        "lin_from (m_Step M) v (drop_op c (pre @ e # post)) s' cs"
      using lin unfolding c(1) lin_from.simps by blast
    ultimately show False unfolding choice_dead_def dead_def f(3) by blast
  qed
  then show ?thesis by (simp add: dead_def)
qed

lemma search_inv_skip:
  assumes inv: "search_inv M v H s" and e: "after s = e # rest" "is_call e"
    and d: "choice_dead M v (before s @ after s) (cur s) e"
  shows "search_inv M v H (skip s)"
  using assms by (auto simp: search_inv_def skip_def tried_def)

lemma search_inv_push:
  assumes inv: "search_inv M v H s" and e: "after s = e # rest" "is_call e"
    and s': "m_Step M (cur s) (fst (v (e_id e))) (snd (v (e_id e))) = Inr (True, s')"
  shows "search_inv M v H (push s' s)"
proof -
  have "\<forall>(S, t) \<in> seen s. dead M v (drop_ops S H) t \<or> (S, t) \<in> on_path (frames s) (cur s)"
    "frames_ok M v H (frames s) (before s @ e # rest) (cur s)" "tried M v (before s) (e # rest) (cur s)"
    using inv e by (simp_all add: search_inv_def)
  then show ?thesis
    using e s' by (simp add: search_inv_def push_def tried_def) blast
qed

lemma search_inv_pop:
  assumes inv: "search_inv M v H s" and e: "after s = e # rest" "is_return e"
    and f: "frames s = (pre, c, post, t) # fs"
  shows "search_inv M v H (s\<lparr>frames := fs, before := pre @ [c], after := post, cur := t\<rparr>)"
proof -
  let ?R = "before s @ after s"
  have fr: "frames_ok M v H fs (pre @ c # post) t" "is_call c" "tried M v pre (c # post) t"
      "?R = drop_op (e_id c) (pre @ c # post)" "m_Step M t (fst (v (e_id c))) (snd (v (e_id c))) = Inr (True, cur s)"
    and tr: "tried M v (before s) (e # rest) (cur s)"
    and seen: "\<forall>(S, u) \<in> seen s. dead M v (drop_ops S H) u \<or> (S, u) \<in> on_path (frames s) (cur s)"
    using inv e(1) f by (simp_all add: search_inv_def)
  have dead: "dead M v ?R (cur s)" using tried_all_dead [OF tr e(2)] e(1) by simp
  have "?R = drop_ops (chosen (frames s)) H" using inv frames_ok_rest by (auto simp: search_inv_def)
  then have top: "dead M v (drop_ops (chosen (frames s)) H) (cur s)" using dead by simp
  have "choice_dead M v (pre @ c # post) t c"
    using fr(4,5) dead by (simp add: choice_dead_def)
  moreover have "\<forall>(S, u) \<in> seen s. dead M v (drop_ops S H) u \<or> (S, u) \<in> on_path fs t"
    using seen top unfolding f by auto
  ultimately show ?thesis using fr by (simp add: search_inv_def tried_def)
qed

lemma search_inv_step:
  assumes inv: "search_inv M v H s" and M: "equal_ok M" and step: "search_step M v s = More s'"
  shows "search_inv M v H s'"
proof (cases rule: search_step_cases [of s M v])
  case (push e rest u)
  then show ?thesis using search_inv_push [OF inv push(1-3)] step by simp
next
  case (known e rest u)
  let ?S = "insert (e_id e) (chosen (frames s))"
  have fr: "frames_ok M v H (frames s) (before s @ e # rest) (cur s)"
    and seen: "\<forall>(S, t) \<in> seen s. dead M v (drop_ops S H) t \<or> (S, t) \<in> on_path (frames s) (cur s)"
    using inv known(1) by (simp_all add: search_inv_def)
  from known(4) obtain t where t: "(?S, t) \<in> seen s" "m_Equal M u t" by (auto simp: is_seen_def)
  have "(?S, t) \<notin> on_path (frames s) (cur s)"
    using on_path_subset [of ?S t] frames_ok_fresh [OF fr] by blast
  then have "dead M v (drop_ops ?S H) t" using seen t(1) by blast
  then have "dead M v (drop_ops ?S H) u" using lin_from_equal [OF M t(2)] unfolding dead_def by blast
  moreover have "drop_op (e_id e) (before s @ after s) = drop_ops ?S H"
    using frames_ok_rest [OF fr] known(1) by (simp only: drop_ops_drop) simp
  ultimately have "choice_dead M v (before s @ after s) (cur s) e" using known(3) by (simp add: choice_dead_def)
  then show ?thesis using search_inv_skip [OF inv known(1,2)] known(5) step by simp
next
  case (illegal e rest)
  have "choice_dead M v (before s @ after s) (cur s) e" using illegal(3) by (simp add: choice_dead_def)
  then show ?thesis using search_inv_skip [OF inv illegal(1,2)] illegal(4) step by simp
next
  case (backtrack e rest pre c post t fs)
  then show ?thesis using search_inv_pop [OF inv backtrack(1-3)] step by simp
qed (use step in simp_all)

lemma search_inv_init: "search_inv M v H (search_init M H)"
  by (simp add: search_inv_def search_init_def tried_def)

section \<open>Verdicts\<close>

definition path_ids :: "('v, 's) frame list \<Rightarrow> int list" where
  "path_ids fs = rev (map frame_id fs)"

lemma frames_lin:
  assumes "frames_ok M v H fs R s" and "lin_from (m_Step M) v R s cs"
  shows "lin_from (m_Step M) v H (m_Init M) (path_ids fs @ cs)"
  using assms
proof (induction fs arbitrary: R s cs)
  case (Cons f fs)
  obtain pre c post t where f: "f = (pre, c, post, t)" by (cases f)
  with Cons.prems have fr: "frames_ok M v H fs (pre @ c # post) t" "is_call c" "tried M v pre (c # post) t"
    "R = drop_op (e_id c) (pre @ c # post)" "m_Step M t (fst (v (e_id c))) (snd (v (e_id c))) = Inr (True, s)" by simp_all
  have "lin_from (m_Step M) v (pre @ c # post) t (e_id c # cs)"
    using minimal_call [OF fr(2,3)] fr(4,5) Cons.prems(2) by auto
  from Cons.IH [OF fr(1) this] show ?case by (simp add: f path_ids_def)
qed (simp add: path_ids_def)

lemma search_end:
  assumes "search_inv M v H s" and "after s = []" and "history_ok H"
  shows "before s = []"
proof -
  have fr: "frames_ok M v H (frames s) (before s) (cur s)" and tr: "tried M v (before s) [] (cur s)"
    using assms(1,2) by (simp_all add: search_inv_def)
  have "history_ok (before s)" using history_ok_drop [OF assms(3)] frames_ok_rest [OF fr] by simp
  then show ?thesis
    using history_ok_call [of "butlast (before s)" "last (before s)" "[]"] tr
    by (cases "before s = []") (simp_all add: tried_def)
qed

lemma search_true:
  assumes "search_inv M v H s" and "after s = []" and "history_ok H"
  shows "lin_from (m_Step M) v H (m_Init M) (path_ids (frames s))"
proof -
  have "frames_ok M v H (frames s) [] (cur s)"
    using assms(1,2) search_end [OF assms] by (simp add: search_inv_def)
  then show ?thesis using frames_lin [of M v H "frames s" "[]" "cur s" "[]"] by simp
qed

lemma search_false:
  assumes "search_inv M v H s" and "after s = e # rest" and "is_return e" and "frames s = []"
  shows "dead M v H (m_Init M)"
proof -
  have "tried M v (before s) (e # rest) (cur s)" "before s @ e # rest = H" "cur s = m_Init M"
    using assms by (auto simp: search_inv_def)
  with tried_all_dead [OF this(1) assms(3)] show ?thesis by simp
qed

lemma search_verdict:
  assumes "search_inv M (op_values H) H s" and "history_ok H" and "search_step M (op_values H) s = Verdict b"
  shows "b \<longleftrightarrow> linearizable (m_Step M) (m_Init M) H"
proof (cases rule: search_step_cases [of s M "op_values H"])
  case finished
  then show ?thesis using search_true [OF assms(1) finished(1) assms(2)] assms(3) linearizable_from [OF assms(2), of "m_Step M" "m_Init M"] by auto
next
  case (exhausted e rest)
  then show ?thesis
    using search_false [OF assms(1) exhausted(1-3)] assms(3) linearizable_from [OF assms(2), of "m_Step M" "m_Init M"] by (simp add: dead_def)
qed (use assms(3) in simp_all)

text \<open>At any time the operations chosen so far are a partial linearization.\<close>

lemma frames_ok_partial:
  assumes "frames_ok M (op_values H) H fs R s" and "history_ok H"
  shows "partial_linearization (m_Step M) (m_Init M) H (path_ids fs) \<and>
    legal_run (m_Step M) (m_Init M) (map (op_values H) (path_ids fs)) = Some s \<and> set (path_ids fs) = chosen fs"
  using assms(1)
proof (induction fs arbitrary: R s)
  case Nil
  then show ?case by (simp add: partial_linearization_def path_ids_def)
next
  case (Cons f fs)
  obtain pre c post t where f: "f = (pre, c, post, t)" by (cases f)
  with Cons.prems have fr: "frames_ok M (op_values H) H fs (pre @ c # post) t" "is_call c" "tried M (op_values H) pre (c # post) t"
    "m_Step M t (fst (op_values H (e_id c))) (snd (op_values H (e_id c))) = Inr (True, s)" by simp_all
  note IH = Cons.IH [OF fr(1)]
  have R: "pre @ c # post = drop_ops (chosen fs) H" by (rule frames_ok_rest [OF fr(1)])
  have c: "e_id c \<in> set (call_ids H)" "e_id c \<notin> chosen fs"
  proof -
    have "c \<in> set (drop_ops (chosen fs) H)" unfolding R [symmetric] by simp
    then show "e_id c \<in> set (call_ids H)" using fr(2) by (auto simp: set_drop_ops set_call_ids)
    show "e_id c \<notin> chosen fs" by (rule frames_ok_fresh [OF fr(1)])
  qed
  have "minimal (drop_ops (chosen fs) H) (e_id c)" using minimal_call [OF fr(2,3)] R by simp
  then have "\<not> prec (drop_ops (chosen fs) H) b (e_id c)" for b
    using minimal_iff [OF history_ok_drop [OF assms(2)]] by blast
  then have first: "\<not> prec H b (e_id c)" if "b \<notin> chosen fs" for b using that c(2) by (auto simp: prec_drop)
  have ids: "path_ids (f # fs) = path_ids fs @ [e_id c]" by (simp add: path_ids_def f)
  have old: "\<not> prec H (e_id c) a" if "a \<in> chosen fs" for a
    using IH c that unfolding partial_linearization_def by blast
  have run: "legal_run (m_Step M) (m_Init M) (map (op_values H) (path_ids (f # fs))) = Some s"
    using IH fr(4) by (simp add: ids legal_run_append)
  moreover have "partial_linearization (m_Step M) (m_Init M) H (path_ids (f # fs))"
    unfolding partial_linearization_def run unfolding ids
    using IH c first old by (auto simp: partial_linearization_def sorted_wrt_append)
  moreover have "set (path_ids (f # fs)) = chosen (f # fs)" unfolding ids using IH f by simp
  ultimately show ?case by blast
qed

section \<open>The search ends\<close>

text \<open>A bound on the iterations that explore a configuration with \<open>n\<close> remaining entries, and on those
  still to come.\<close>

fun search_bound :: "nat \<Rightarrow> nat" where
  "search_bound 0 = 0"
| "search_bound (Suc n) = Suc (Suc n * Suc (search_bound n))"

definition level_cost :: "nat \<Rightarrow> nat \<Rightarrow> nat" where
  "level_cost todo n = Suc (todo * Suc (search_bound (n - 1)))"

fun frames_cost :: "('v, 's) frame list \<Rightarrow> nat" where
  "frames_cost [] = 0"
| "frames_cost ((pre, c, post, t) # fs) = level_cost (length post) (length pre + Suc (length post)) + frames_cost fs"

definition search_cost :: "('v, 's) search \<Rightarrow> nat" where
  "search_cost s = level_cost (length (after s)) (length (before s) + length (after s)) + frames_cost (frames s)"

lemma search_bound_mono: "m \<le> n \<Longrightarrow> search_bound m \<le> search_bound n"
proof (induction m arbitrary: n)
  case (Suc m)
  then obtain k where k: "n = Suc k" "m \<le> k" by (cases n) auto
  then have "Suc (search_bound m) \<le> Suc (search_bound k)" using Suc.IH by simp
  with k(2) have "Suc m * Suc (search_bound m) \<le> Suc k * Suc (search_bound k)" by (intro mult_le_mono) simp_all
  then show ?case by (simp only: k(1) search_bound.simps Suc_le_mono)
qed simp

lemma level_cost_full: "m \<le> n \<Longrightarrow> 0 < n \<Longrightarrow> level_cost m m \<le> search_bound n"
proof -
  assume a: "m \<le> n" "0 < n"
  obtain k where k: "n = Suc k" using a by (cases n) auto
  have "search_bound (m - 1) \<le> search_bound k" using a k by (intro search_bound_mono) simp
  then have "m * Suc (search_bound (m - 1)) \<le> Suc k * Suc (search_bound k)"
    using a k by (intro mult_le_mono) simp_all
  then show ?thesis by (simp add: level_cost_def k)
qed

lemma push_cost:
  assumes "after s = e # rest" and "history_ok (before s @ after s)" and "is_call e"
  shows "search_cost (push s' s) < search_cost s"
proof -
  let ?n = "length (before s) + length rest" and ?R = "drop_op (e_id e) (before s @ rest)"
  obtain r where "r \<in> set rest" using history_ok_call [of "before s" e rest] assms by auto
  then have "0 < ?n" by (cases rest) auto
  moreover have "length ?R \<le> ?n"
    unfolding drop_ops_def using length_filter_le [of "\<lambda>x. e_id x \<notin> {e_id e}" "before s @ rest"] by simp
  ultimately have "level_cost (length ?R) (length ?R) \<le> search_bound ?n" by (rule level_cost_full [rotated])
  then show ?thesis using assms(1) by (simp add: search_cost_def push_def level_cost_def Let_def)
qed

lemma skip_cost: "after s = e # rest \<Longrightarrow> search_cost (skip s) < search_cost s"
  by (simp add: search_cost_def skip_def level_cost_def)

lemma pop_cost:
  "frames s = (pre, c, post, t) # fs \<Longrightarrow>
   search_cost (s\<lparr>frames := fs, before := pre @ [c], after := post, cur := t\<rparr>) < search_cost s"
  by (simp add: search_cost_def level_cost_def)

lemma search_step_cost:
  assumes "search_inv M v H s" and "history_ok H" and "search_step M v s = More s'"
  shows "search_cost s' < search_cost s"
proof (cases rule: search_step_cases [of s M v])
  case (push e rest u)
  have "history_ok (before s @ after s)"
    using assms(1) frames_ok_rest history_ok_drop [OF assms(2)] by (metis search_inv_def)
  then show ?thesis using push_cost [OF push(1) _ push(2), of u] push(5) assms(3) by simp
next
  case (known e rest u)
  then show ?thesis using skip_cost [OF known(1)] assms(3) by simp
next
  case (illegal e rest)
  then show ?thesis using skip_cost [OF illegal(1)] assms(3) by simp
next
  case (backtrack e rest pre c post t fs)
  then show ?thesis using pop_cost [OF backtrack(3)] assms(3) by simp
qed (use assms(3) in simp_all)

end
