(* ===== verification/PC_Nodes.thy ===== *)
theory PC_Nodes
  imports PC_Model
begin

text \<open>
  The doubly linked list of \<^verbatim>\<open>porcupine/checker.go\<close>.  The heap is a list of nodes and a pointer is
  an index into it (\<open>None\<close> is nil); allocation appends.  Every statement of the code reads and
  writes the heap as it is at that moment, and dereferencing nil is a panic.  The lemmas show what
  \<^verbatim>\<open>makeLinkedEntries\<close> builds, what \<^verbatim>\<open>lift\<close> takes out of the list, and that \<^verbatim>\<open>unlift\<close>
  restores the heap.
\<close>

section \<open>Nodes\<close>

record 'v node =
  nd_value :: "'v any"
  nd_match :: "nat option"
  nd_id :: int
  nd_next :: "nat option"
  nd_prev :: "nat option"

type_synonym 'v heap = "'v node list"

definition deref :: "'v heap \<Rightarrow> nat option \<Rightarrow> go_panic + 'v node" where
  "deref h p = (case p of None \<Rightarrow> Inl NilDeref | Some a \<Rightarrow> if a < length h then Inr (h ! a) else Inl NilDeref)"

definition setNext :: "'v heap \<Rightarrow> nat option \<Rightarrow> nat option \<Rightarrow> go_panic + 'v heap" where
  "setNext h p q = (case p of None \<Rightarrow> Inl NilDeref
     | Some a \<Rightarrow> if a < length h then Inr (h[a := (h ! a)\<lparr>nd_next := q\<rparr>]) else Inl NilDeref)"

definition setPrev :: "'v heap \<Rightarrow> nat option \<Rightarrow> nat option \<Rightarrow> go_panic + 'v heap" where
  "setPrev h p q = (case p of None \<Rightarrow> Inl NilDeref
     | Some a \<Rightarrow> if a < length h then Inr (h[a := (h ! a)\<lparr>nd_prev := q\<rparr>]) else Inl NilDeref)"

definition insertBefore :: "'v heap \<Rightarrow> nat \<Rightarrow> nat option \<Rightarrow> go_panic + 'v heap" where
  "insertBefore h n mark =
     (if mark \<noteq> None then
        andThen (deref h mark) (\<lambda>m.
        let beforeMark = nd_prev m in
        andThen (setPrev h mark (Some n)) (\<lambda>h.
        andThen (setNext h (Some n) mark) (\<lambda>h.
        if beforeMark \<noteq> None then
          andThen (setPrev h (Some n) beforeMark) (\<lambda>h.
          setNext h beforeMark (Some n))
        else Inr h)))
      else Inr h)"

partial_function (option) node_length :: "'v heap \<Rightarrow> nat option \<Rightarrow> nat \<Rightarrow> (go_panic + nat) option" where
  "node_length h n l =
     (case n of
        None \<Rightarrow> Some (Inr l)
      | Some a \<Rightarrow> (case deref h n of Inl p \<Rightarrow> Some (Inl p) | Inr nd \<Rightarrow> node_length h (nd_next nd) (l + 1)))"

text \<open>The loop of \<^verbatim>\<open>makeLinkedEntries\<close>, over the entries from the last to the first.\<close>

fun makeLinkedLoop :: "'v entry list \<Rightarrow> 'v heap \<Rightarrow> nat option \<Rightarrow> (int \<rightharpoonup> nat) \<Rightarrow> go_panic + 'v heap \<times> nat option" where
  "makeLinkedLoop [] h root match = Inr (h, root)"
| "makeLinkedLoop (elem # es) h root match =
     (if e_kind elem = returnEntry then
        let entry = length h;
            h = h @ [\<lparr>nd_value = e_value elem, nd_match = None, nd_id = e_id elem, nd_next = None, nd_prev = None\<rparr>];
            match = match(e_id elem \<mapsto> entry)
        in andThen (insertBefore h entry root) (\<lambda>h. makeLinkedLoop es h (Some entry) match)
      else
        let entry = length h;
            h = h @ [\<lparr>nd_value = e_value elem, nd_match = match (e_id elem), nd_id = e_id elem, nd_next = None, nd_prev = None\<rparr>]
        in andThen (insertBefore h entry root) (\<lambda>h. makeLinkedLoop es h (Some entry) match))"

definition makeLinkedEntries :: "'v entry list \<Rightarrow> go_panic + 'v heap \<times> nat option" where
  "makeLinkedEntries entries = makeLinkedLoop (rev entries) [] None Map.empty"

text \<open>The statements of \<^verbatim>\<open>lift\<close> and \<^verbatim>\<open>unlift\<close> about the call, and about its return.\<close>

definition lift_entry :: "'v heap \<Rightarrow> nat option \<Rightarrow> go_panic + 'v heap" where
  "lift_entry h entry =
     andThen (deref h entry) (\<lambda>e.
     andThen (setNext h (nd_prev e) (nd_next e)) (\<lambda>h.
     andThen (deref h entry) (\<lambda>e.
     setPrev h (nd_next e) (nd_prev e))))"

definition lift_match :: "'v heap \<Rightarrow> nat option \<Rightarrow> go_panic + 'v heap" where
  "lift_match h match =
     andThen (deref h match) (\<lambda>m.
     andThen (setNext h (nd_prev m) (nd_next m)) (\<lambda>h.
     andThen (deref h match) (\<lambda>m.
     if nd_next m \<noteq> None then setPrev h (nd_next m) (nd_prev m) else Inr h)))"

definition lift :: "'v heap \<Rightarrow> nat \<Rightarrow> go_panic + 'v heap" where
  "lift h entry =
     andThen (lift_entry h (Some entry)) (\<lambda>h.
     andThen (deref h (Some entry)) (\<lambda>e.
     lift_match h (nd_match e)))"

definition unlift_match :: "'v heap \<Rightarrow> nat option \<Rightarrow> go_panic + 'v heap" where
  "unlift_match h match =
     andThen (deref h match) (\<lambda>m.
     andThen (setNext h (nd_prev m) match) (\<lambda>h.
     andThen (deref h match) (\<lambda>m.
     if nd_next m \<noteq> None then setPrev h (nd_next m) match else Inr h)))"

definition unlift_entry :: "'v heap \<Rightarrow> nat option \<Rightarrow> go_panic + 'v heap" where
  "unlift_entry h entry =
     andThen (deref h entry) (\<lambda>e.
     andThen (setNext h (nd_prev e) entry) (\<lambda>h.
     andThen (deref h entry) (\<lambda>e.
     setPrev h (nd_next e) entry)))"

definition unlift :: "'v heap \<Rightarrow> nat \<Rightarrow> go_panic + 'v heap" where
  "unlift h entry =
     andThen (deref h (Some entry)) (\<lambda>e.
     andThen (unlift_match h (nd_match e)) (\<lambda>h.
     unlift_entry h (Some entry)))"

section \<open>Linked lists\<close>

text \<open>\<open>seg h p as\<close>: from \<open>p\<close> the links lead along \<open>as\<close>, and back.  \<open>dll\<close> is a whole list after its
  head.\<close>

fun seg :: "'v heap \<Rightarrow> nat \<Rightarrow> nat list \<Rightarrow> bool" where
  "seg h p [] \<longleftrightarrow> True"
| "seg h p (a # as) \<longleftrightarrow> nd_next (h ! p) = Some a \<and> nd_prev (h ! a) = Some p \<and> seg h a as"

definition dll :: "'v heap \<Rightarrow> nat \<Rightarrow> nat list \<Rightarrow> bool" where
  "dll h p as \<longleftrightarrow> distinct (p # as) \<and> set (p # as) \<subseteq> {..<length h} \<and> seg h p as \<and> nd_next (h ! last (p # as)) = None"

lemma seg_append: "seg h p (xs @ ys) \<longleftrightarrow> seg h p xs \<and> seg h (last (p # xs)) ys"
  by (induction xs arbitrary: p) auto

lemma seg_cong:
  "(\<And>x. x \<in> set (butlast (p # as)) \<Longrightarrow> nd_next (h ! x) = nd_next (h' ! x)) \<Longrightarrow>
   (\<And>x. x \<in> set as \<Longrightarrow> nd_prev (h ! x) = nd_prev (h' ! x)) \<Longrightarrow> seg h p as \<longleftrightarrow> seg h' p as"
  by (induction as arbitrary: p) auto

lemma dll_next: "dll h p as \<Longrightarrow> nd_next (h ! p) = (case as of [] \<Rightarrow> None | a # _ \<Rightarrow> Some a)"
  by (cases as) (simp_all add: dll_def)

text \<open>The node at \<open>a\<close> between its neighbours.\<close>

lemma dll_middle:
  assumes "dll h p (xs @ a # ys)"
  shows "nd_prev (h ! a) = Some (last (p # xs))" and "nd_next (h ! last (p # xs)) = Some a"
    and "nd_next (h ! a) = (case ys of [] \<Rightarrow> None | y # _ \<Rightarrow> Some y)"
    and "a < length h" and "last (p # xs) < length h" and "last (p # xs) \<noteq> a" and "last (p # xs) \<notin> set ys" and "a \<notin> set ys"
    and "y \<in> set ys \<Longrightarrow> y < length h" and "seg h p xs" and "seg h a ys"
proof -
  have d: "distinct (p # xs @ a # ys)" and s: "set (p # xs @ a # ys) \<subseteq> {..<length h}" using assms by (simp_all add: dll_def)
  show "nd_prev (h ! a) = Some (last (p # xs))" "nd_next (h ! last (p # xs)) = Some a" "seg h p xs" "seg h a ys"
    using assms by (simp_all add: dll_def seg_append)
  show "nd_next (h ! a) = (case ys of [] \<Rightarrow> None | y # _ \<Rightarrow> Some y)"
    using assms by (cases ys) (simp_all add: dll_def seg_append)
  have l: "last (p # xs) \<in> set (p # xs)" using last_in_set [of "p # xs"] by blast
  with d show "last (p # xs) \<noteq> a" "last (p # xs) \<notin> set ys" "a \<notin> set ys" by auto
  show "a < length h" "last (p # xs) < length h" "y \<in> set ys \<Longrightarrow> y < length h" using s l by auto
qed

section \<open>Taking a node out, and putting it back\<close>

definition unlink :: "'v heap \<Rightarrow> nat \<Rightarrow> nat option \<Rightarrow> 'v heap" where
  "unlink h q r =
     (let h1 = h[q := (h ! q)\<lparr>nd_next := r\<rparr>]
      in case r of None \<Rightarrow> h1 | Some x \<Rightarrow> h1[x := (h1 ! x)\<lparr>nd_prev := Some q\<rparr>])"

definition same_static :: "'v heap \<Rightarrow> 'v heap \<Rightarrow> bool" where
  "same_static h h' \<longleftrightarrow> length h' = length h \<and>
     (\<forall>a < length h. nd_value (h' ! a) = nd_value (h ! a) \<and> nd_match (h' ! a) = nd_match (h ! a) \<and> nd_id (h' ! a) = nd_id (h ! a))"

lemma same_static_refl [simp]: "same_static h h"
  by (simp add: same_static_def)

lemma same_static_trans [trans]: "same_static h h' \<Longrightarrow> same_static h' h'' \<Longrightarrow> same_static h h''"
  by (simp add: same_static_def)

lemma unlink_fields:
  assumes "q < length h" and "\<And>x. r = Some x \<Longrightarrow> x < length h" and "x < length h"
  shows "nd_next (unlink h q r ! x) = (if x = q then r else nd_next (h ! x))"
    and "nd_prev (unlink h q r ! x) = (if r = Some x then Some q else nd_prev (h ! x))"
  using assms by (auto simp: unlink_def Let_def nth_list_update split: option.split)

lemma field_update: "g y = g (h ! q) \<Longrightarrow> g (h[q := y] ! a) = g (h ! a)"
  by (cases "a = q"; cases "q < length h") (simp_all add: list_update_beyond)

lemma unlink_static: "same_static h (unlink h q r)"
  unfolding same_static_def unlink_def Let_def by (simp add: field_update split: option.split)

lemma length_unlink [simp]: "length (unlink h q r) = length h"
  using unlink_static [of h q r] by (simp add: same_static_def)

definition next_of :: "nat list \<Rightarrow> nat option" where
  "next_of ys = (case ys of [] \<Rightarrow> None | y # _ \<Rightarrow> Some y)"

lemma next_of_set: "next_of ys = Some x \<Longrightarrow> x \<in> set ys"
  by (cases ys) (simp_all add: next_of_def)

lemma unlink_dll:
  assumes "dll h p (xs @ a # ys)"
  shows "dll (unlink h (last (p # xs)) (next_of ys)) p (xs @ ys)"
proof -
  define q where "q = last (p # xs)"
  define r where "r = next_of ys"
  let ?h = "unlink h q r"
  note m = dll_middle [OF assms, folded q_def]
  have d: "distinct (p # xs @ a # ys)" and s: "set (p # xs @ a # ys) \<subseteq> {..<length h}" using assms by (simp_all add: dll_def)
  have r: "x \<in> set ys" if "r = Some x" for x using next_of_set [of ys x] that by (simp add: r_def)
  have n: "nd_next (?h ! x) = (if x = q then r else nd_next (h ! x))"
    and v: "nd_prev (?h ! x) = (if r = Some x then Some q else nd_prev (h ! x))" if "x < length h" for x
    by (rule unlink_fields [OF m(5) _ that]; use r m(9) in blast)+
  have xs: "seg ?h p xs"
  proof -
    have "distinct (butlast (p # xs) @ [q])"
      unfolding q_def append_butlast_last_id [OF list.distinct(2)] using d by simp
    then have b: "q \<notin> set (butlast (p # xs))" by simp
    have "seg h p xs \<longleftrightarrow> seg ?h p xs"
    proof (rule seg_cong)
      fix x assume x: "x \<in> set (butlast (p # xs))"
      then have "x \<in> set (p # xs)" by (rule in_set_butlastD)
      then show "nd_next (h ! x) = nd_next (?h ! x)" using n [of x] x b s by auto
    next
      fix x assume x: "x \<in> set xs"
      then have "r \<noteq> Some x" using r d by auto
      then show "nd_prev (h ! x) = nd_prev (?h ! x)" using v [of x] x s by auto
    qed
    then show ?thesis using m(10) by blast
  qed
  have ys: "seg ?h q ys"
  proof (cases ys)
    case (Cons y ys')
    have y: "r = Some y" "y < length h" using Cons m(9) by (simp_all add: r_def next_of_def)
    have "seg h y ys' \<longleftrightarrow> seg ?h y ys'"
    proof (rule seg_cong)
      fix x assume "x \<in> set (butlast (y # ys'))"
      then have "x \<in> set ys" unfolding Cons by (rule in_set_butlastD)
      then show "nd_next (h ! x) = nd_next (?h ! x)" using n [of x] m(7,9) by auto
    next
      fix x assume "x \<in> set ys'"
      then have "x \<in> set ys" "x \<noteq> y" using Cons d by auto
      then show "nd_prev (h ! x) = nd_prev (?h ! x)" using v [of x] y m(9) by simp
    qed
    then show ?thesis using Cons m(5,11) n [of q] v [of y] y by simp
  qed simp
  have "nd_next (?h ! last (p # xs @ ys)) = None"
  proof (cases ys)
    case Nil
    then show ?thesis using n [OF m(5)] by (simp add: q_def r_def next_of_def)
  next
    case (Cons y ys')
    then have l: "last (p # xs @ ys) = last ys" "last ys \<in> set ys" by simp_all
    then have "nd_next (h ! last ys) = None" using assms Cons by (simp add: dll_def)
    moreover have "last ys \<noteq> q" "last ys < length h" using l(2) m(7,9) by auto
    ultimately show ?thesis unfolding l(1) using n [of "last ys"] by simp
  qed
  moreover have "seg ?h p (xs @ ys)" unfolding seg_append q_def [symmetric] using xs ys by simp
  ultimately show ?thesis using d s unfolding q_def [symmetric] r_def [symmetric] by (simp add: dll_def)
qed

definition relink :: "'v heap \<Rightarrow> nat \<Rightarrow> nat \<Rightarrow> nat option \<Rightarrow> 'v heap" where
  "relink h q a r =
     (let h1 = h[q := (h ! q)\<lparr>nd_next := Some a\<rparr>]
      in case r of None \<Rightarrow> h1 | Some x \<Rightarrow> h1[x := (h1 ! x)\<lparr>nd_prev := Some a\<rparr>])"

lemma relink_unlink:
  assumes "dll h p (xs @ a # ys)"
  shows "relink (unlink h (last (p # xs)) (next_of ys)) (last (p # xs)) a (next_of ys) = h"
proof -
  let ?q = "last (p # xs)"
  note m = dll_middle [OF assms]
  have q: "(h ! ?q)\<lparr>nd_next := Some a\<rparr> = h ! ?q" using m(2) by simp
  show ?thesis
  proof (cases ys)
    case Nil
    then show ?thesis using m(2,5) q by (simp add: relink_def unlink_def next_of_def list_update_same_conv)
  next
    case (Cons y ys')
    have y: "y \<noteq> ?q" "y < length h" using m(7,9) Cons by auto
    have "(h ! y)\<lparr>nd_prev := Some a\<rparr> = h ! y" using m(11) Cons by simp
    then show ?thesis
      using y m(5) q Cons by (simp add: relink_def unlink_def next_of_def list_update_swap list_update_same_conv)
  qed
qed

lemma relink_static: "same_static h (relink h q a r)"
  unfolding same_static_def relink_def Let_def by (simp add: field_update split: option.split)

section \<open>\<^verbatim>\<open>lift\<close> and \<^verbatim>\<open>unlift\<close>\<close>

lemma lift_entry_eq:
  assumes "dll h p (xs @ e # ys)" and "ys \<noteq> []"
  shows "lift_entry h (Some e) = Inr (unlink h (last (p # xs)) (next_of ys))"
proof -
  define q where "q = last (p # xs)"
  note m = dll_middle [OF assms(1), folded q_def]
  obtain y ys' where ys: "ys = y # ys'" using assms(2) by (cases ys) auto
  have "y < length h" "q \<noteq> e" "y \<noteq> q" using m(6,7,9) ys by auto
  then show ?thesis
    unfolding q_def [symmetric] using m ys by (simp add: lift_entry_def deref_def setNext_def setPrev_def unlink_def next_of_def)
qed

lemma lift_match_eq:
  assumes "dll h p (xs @ e # ys)"
  shows "lift_match h (Some e) = Inr (unlink h (last (p # xs)) (next_of ys))"
proof -
  define q where "q = last (p # xs)"
  note m = dll_middle [OF assms(1), folded q_def]
  show ?thesis
    unfolding q_def [symmetric] using m
    by (cases ys) (simp_all add: lift_match_def deref_def setNext_def setPrev_def unlink_def next_of_def)
qed

lemma unlink_own:
  assumes "dll h p (xs @ a # ys)"
  shows "nd_prev (unlink h (last (p # xs)) (next_of ys) ! a) = Some (last (p # xs))"
    and "nd_next (unlink h (last (p # xs)) (next_of ys) ! a) = next_of ys"
proof -
  note m = dll_middle [OF assms]
  have r: "x < length h" "x \<noteq> a" if "next_of ys = Some x" for x using next_of_set [OF that] m(8,9) by blast+
  note f = unlink_fields [of "last (p # xs)" h "next_of ys" a, OF m(5) r(1) m(4)]
  show "nd_prev (unlink h (last (p # xs)) (next_of ys) ! a) = Some (last (p # xs))" using f(2) r(2) m(1) by auto
  show "nd_next (unlink h (last (p # xs)) (next_of ys) ! a) = next_of ys" using f(1) m(3,6) by (auto simp: next_of_def)
qed

lemma unlift_match_eq:
  assumes "dll h p (xs @ m # zs)"
  shows "unlift_match (unlink h (last (p # xs)) (next_of zs)) (Some m) = Inr h"
proof -
  define q where "q = last (p # xs)"
  define h' where "h' = unlink h q (next_of zs)"
  note d = dll_middle [OF assms, folded q_def] and o = unlink_own [OF assms, folded q_def, folded h'_def]
  have "length h' = length h" by (simp add: h'_def)
  then have "unlift_match h' (Some m) = Inr (relink h' q m (next_of zs))"
    using d o by (cases zs) (simp_all add: unlift_match_def deref_def setNext_def setPrev_def relink_def next_of_def)
  also have "\<dots> = Inr h" using relink_unlink [OF assms] by (simp only: h'_def q_def)
  finally show ?thesis by (simp only: h'_def q_def)
qed

lemma unlift_entry_eq:
  assumes "dll h p (xs @ e # ys)" and "ys \<noteq> []"
  shows "unlift_entry (unlink h (last (p # xs)) (next_of ys)) (Some e) = Inr h"
proof -
  define q where "q = last (p # xs)"
  define h' where "h' = unlink h q (next_of ys)"
  note d = dll_middle [OF assms(1), folded q_def] and o = unlink_own [OF assms(1), folded q_def, folded h'_def]
  have "length h' = length h" by (simp add: h'_def)
  then have "unlift_entry h' (Some e) = Inr (relink h' q e (next_of ys))"
    using d o assms(2) by (cases ys) (simp_all add: unlift_entry_def deref_def setNext_def setPrev_def relink_def next_of_def)
  also have "\<dots> = Inr h" using relink_unlink [OF assms(1)] by (simp only: h'_def q_def)
  finally show ?thesis by (simp only: h'_def q_def)
qed

text \<open>\<^verbatim>\<open>lift\<close> takes a call and its return out of the list, and \<^verbatim>\<open>unlift\<close> restores the heap as it was.\<close>

lemma lift_dll:
  assumes h: "dll h p (xs @ e # ys @ m # zs)" and m: "nd_match (h ! e) = Some m"
  shows "\<exists>h'. lift h e = Inr h' \<and> dll h' p (xs @ ys @ zs) \<and> same_static h h' \<and> unlift h' e = Inr h"
proof -
  define h1 where "h1 = unlink h (last (p # xs)) (next_of (ys @ m # zs))"
  define h2 where "h2 = unlink h1 (last (p # xs @ ys)) (next_of zs)"
  have d1: "dll h1 p ((xs @ ys) @ m # zs)" using unlink_dll [OF h] by (simp add: h1_def)
  have d2: "dll h2 p (xs @ ys @ zs)" using unlink_dll [OF d1] unfolding h2_def by simp
  have s: "same_static h h1" "same_static h1 h2" by (simp_all only: h1_def h2_def unlink_static)
  have e: "e < length h" "length h1 = length h" "length h2 = length h"
    using dll_middle(4) [OF h] s by (simp_all add: same_static_def)
  have m: "nd_match (h1 ! e) = Some m" "nd_match (h2 ! e) = Some m" using s e m by (simp_all add: same_static_def)
  have l: "lift_entry h (Some e) = Inr h1" "lift_match h1 (Some m) = Inr h2"
    unfolding h1_def [symmetric] h2_def using lift_entry_eq [OF h] lift_match_eq [OF d1] by (simp_all add: h1_def)
  have u: "unlift_entry h1 (Some e) = Inr h" "unlift_match h2 (Some m) = Inr h1"
    unfolding h2_def using unlift_entry_eq [OF h] unlift_match_eq [OF d1] by (simp_all add: h1_def)
  have "lift h e = Inr h2" "unlift h2 e = Inr h" using l u m e by (simp_all add: lift_def unlift_def deref_def)
  then show ?thesis using d2 same_static_trans [OF s] by blast
qed

section \<open>Building the list\<close>

lemma insertBefore_front:
  assumes "dll h a as" and "nd_prev (h ! a) = None" and "n < length h" and "n \<notin> set (a # as)" and "nd_prev (h ! n) = None"
  shows "\<exists>h'. insertBefore h n (Some a) = Inr h' \<and> dll h' n (a # as) \<and> nd_prev (h' ! n) = None \<and> same_static h h'"
proof -
  define h' where "h' = h[a := (h ! a)\<lparr>nd_prev := Some n\<rparr>, n := (h ! n)\<lparr>nd_next := Some a\<rparr>]"
  have a: "a < length h" "n \<noteq> a" "set as \<subseteq> {..<length h}" "distinct (a # as)" using assms by (auto simp: dll_def)
  have ins: "insertBefore h n (Some a) = Inr h'"
    using a assms(2,3) by (simp add: insertBefore_def deref_def setPrev_def setNext_def h'_def)
  have f: "nd_next (h' ! x) = (if x = n then Some a else nd_next (h ! x))"
    "nd_prev (h' ! x) = (if x = a then Some n else nd_prev (h ! x))" if "x < length h" for x
    using that a assms(3) by (auto simp: h'_def nth_list_update)
  have "seg h a as \<longleftrightarrow> seg h' a as"
  proof (rule seg_cong)
    fix x assume "x \<in> set (butlast (a # as))"
    then have "x \<in> set (a # as)" by (rule in_set_butlastD)
    then show "nd_next (h ! x) = nd_next (h' ! x)" using f(1) [of x] a assms(4) by auto
  next
    fix x assume "x \<in> set as"
    then show "nd_prev (h ! x) = nd_prev (h' ! x)" using f(2) [of x] a by auto
  qed
  then have s: "seg h' a as" using assms(1) by (simp add: dll_def)
  have l: "last (a # as) \<in> set (a # as)" using last_in_set [of "a # as"] by blast
  then have "last (a # as) < length h" "last (a # as) \<noteq> n" using a(1,3) assms(4) by auto
  then have "nd_next (h' ! last (a # as)) = None" using f(1) assms(1) by (simp add: dll_def)
  then have "dll h' n (a # as)"
    using s f [of n] f [of a] a assms(3,4) by (simp add: dll_def) (simp add: h'_def)
  moreover have "nd_prev (h' ! n) = None" using f(2) [OF assms(3)] a(2) assms(5) by simp
  moreover have "same_static h h'"
    unfolding same_static_def h'_def using a(2) by (simp add: field_update)
  ultimately show ?thesis using ins by blast
qed

lemma dll_snoc_heap: "dll h p as \<Longrightarrow> dll (h @ [x]) p as"
proof -
  assume d: "dll h p as"
  have n: "(h @ [x]) ! y = h ! y" if "y \<in> set (p # as)" for y using d that by (auto simp: dll_def nth_append)
  have "seg h p as \<longleftrightarrow> seg (h @ [x]) p as"
    by (rule seg_cong) (use n in \<open>auto dest: in_set_butlastD split: if_splits\<close>)
  moreover have "(h @ [x]) ! last (p # as) = h ! last (p # as)" by (rule n) (rule last_in_set, simp)
  ultimately show ?thesis using d by (auto simp: dll_def)
qed

text \<open>Node \<open>a\<close> stands for entry \<open>a\<close> of \<open>L\<close>, the entries in reverse order.\<close>

definition node_of :: "'v heap \<Rightarrow> 'v entry list \<Rightarrow> nat \<Rightarrow> bool" where
  "node_of h L a \<longleftrightarrow> nd_value (h ! a) = e_value (L ! a) \<and> nd_id (h ! a) = e_id (L ! a) \<and>
     (is_return (L ! a) \<longrightarrow> nd_match (h ! a) = None) \<and>
     (is_call (L ! a) \<longrightarrow> (\<forall>b. nd_match (h ! a) = Some b \<longrightarrow> b < a \<and> is_return (L ! b) \<and> e_id (L ! b) = e_id (L ! a)) \<and>
        (\<forall>b < a. is_return (L ! b) \<and> e_id (L ! b) = e_id (L ! a) \<longrightarrow> nd_match (h ! a) \<noteq> None))"

definition list_of :: "'v heap \<Rightarrow> nat option \<Rightarrow> nat \<Rightarrow> bool" where
  "list_of h root k \<longleftrightarrow> length h = k \<and> root = (if k = 0 then None else Some (k - 1)) \<and>
     (0 < k \<longrightarrow> nd_prev (h ! (k - 1)) = None \<and> dll h (k - 1) (rev [0..<k - 1]))"

definition match_of :: "(int \<rightharpoonup> nat) \<Rightarrow> 'v entry list \<Rightarrow> bool" where
  "match_of match L \<longleftrightarrow>
     (\<forall>i a. match i = Some a \<longrightarrow> a < length L \<and> is_return (L ! a) \<and> e_id (L ! a) = i) \<and>
     (\<forall>a < length L. is_return (L ! a) \<longrightarrow> match (e_id (L ! a)) \<noteq> None)"

lemma node_of_cong:
  assumes "node_of h L a" and "a < length h" and "length h = length L" and "same_static (h @ [x]) h'"
  shows "node_of h' (L @ [e]) a"
proof -
  have "nd_value (h' ! a) = nd_value (h ! a)" "nd_match (h' ! a) = nd_match (h ! a)" "nd_id (h' ! a) = nd_id (h ! a)"
    using assms(2,4) by (simp_all add: same_static_def nth_append)
  then show ?thesis using assms(1-3) by (auto simp: node_of_def nth_append)
qed

lemma list_of_snoc:
  assumes "list_of h root k" and "nd_next x = None" and "nd_prev x = None"
  shows "\<exists>h'. insertBefore (h @ [x]) k root = Inr h' \<and> list_of h' (Some k) (Suc k) \<and> same_static (h @ [x]) h'"
proof (cases k)
  case 0
  then show ?thesis using assms by (auto simp: list_of_def insertBefore_def dll_def)
next
  case (Suc j)
  then have r: "root = Some j" "length h = Suc j" "nd_prev (h ! j) = None" "dll h j (rev [0..<j])"
    using assms(1) by (simp_all add: list_of_def)
  have "nd_prev ((h @ [x]) ! j) = None" "Suc j \<notin> set (j # rev [0..<j])" "nd_prev ((h @ [x]) ! Suc j) = None"
    using r assms(3) by (simp_all add: nth_append)
  from insertBefore_front [OF dll_snoc_heap [OF r(4)] this(1) _ this(2,3)] obtain h' where
    "insertBefore (h @ [x]) (Suc j) (Some j) = Inr h'" "dll h' (Suc j) (j # rev [0..<j])" "nd_prev (h' ! Suc j) = None"
    "same_static (h @ [x]) h'" using r(2) by auto
  then show ?thesis using r Suc by (intro exI [of _ h']) (simp add: list_of_def same_static_def)
qed

lemma makeLinkedLoop_ok:
  assumes "list_of h root (length L)" and "match_of match L" and "\<forall>a < length L. node_of h L a"
  shows "\<exists>h' root'. makeLinkedLoop es h root match = Inr (h', root') \<and> list_of h' root' (length (L @ es)) \<and>
    (\<forall>a < length (L @ es). node_of h' (L @ es) a)"
  using assms
proof (induction es arbitrary: h root match L)
  case (Cons e es)
  have len: "length h = length L" using Cons.prems(1) by (simp add: list_of_def)
  let ?m = "if is_return e then None else match (e_id e)"
  let ?x = "\<lparr>nd_value = e_value e, nd_match = ?m, nd_id = e_id e, nd_next = None, nd_prev = None\<rparr>"
  let ?match = "if is_return e then match(e_id e \<mapsto> length L) else match"
  from list_of_snoc [OF Cons.prems(1), of ?x] obtain h' where h':
    "insertBefore (h @ [?x]) (length L) root = Inr h'" "list_of h' (Some (length L)) (Suc (length L))" "same_static (h @ [?x]) h'"
    by auto
  have m: "match_of ?match (L @ [e])"
    using Cons.prems(2) by (auto simp: match_of_def nth_append less_Suc_eq split: if_splits)
  have x: "nd_value (h' ! length L) = e_value e" "nd_match (h' ! length L) = ?m" "nd_id (h' ! length L) = e_id e"
    using h'(3) len by (simp_all add: same_static_def nth_append)
  have "node_of h' (L @ [e]) (length L)"
    using Cons.prems(2) x by (auto simp: node_of_def match_of_def nth_append split: if_splits)
  moreover have "node_of h' (L @ [e]) a" if "a < length L" for a
    using node_of_cong [OF _ _ len h'(3)] Cons.prems(3) that len by simp
  ultimately have n: "\<forall>a < length (L @ [e]). node_of h' (L @ [e]) a" by (simp add: less_Suc_eq)
  have "makeLinkedLoop (e # es) h root match = makeLinkedLoop es h' (Some (length L)) ?match"
    using h'(1) len by (cases "is_return e") (simp_all add: Let_def)
  moreover have "list_of h' (Some (length L)) (length (L @ [e]))" using h'(2) by simp
  ultimately show ?case using Cons.IH [OF _ m n] by simp
qed simp

lemma makeLinkedEntries_ok:
  "\<exists>h root. makeLinkedEntries H = Inr (h, root) \<and> list_of h root (length H) \<and> (\<forall>a < length H. node_of h (rev H) a)"
  using makeLinkedLoop_ok [of "[]" None "[]" Map.empty "rev H"]
  by (simp add: makeLinkedEntries_def list_of_def match_of_def)

lemma node_length_seg:
  "seg h a as \<Longrightarrow> set (a # as) \<subseteq> {..<length h} \<Longrightarrow> nd_next (h ! last (a # as)) = None \<Longrightarrow>
   node_length h (Some a) l = Some (Inr (l + Suc (length as)))"
proof (induction as arbitrary: a l)
  case Nil
  then show ?case by (simp add: node_length.simps [of h "Some a"] node_length.simps [of h None] deref_def)
next
  case (Cons b as)
  then show ?case using Cons.IH [of b "l + 1"] by (simp add: node_length.simps [of h "Some a"] deref_def)
qed

lemma node_length_list: "list_of h root k \<Longrightarrow> node_length h root 0 = Some (Inr k)"
proof (cases k)
  case 0
  then show "list_of h root k \<Longrightarrow> ?thesis" by (simp add: list_of_def node_length.simps)
next
  case (Suc j)
  assume "list_of h root k"
  then have "root = Some j" and d: "dll h j (rev [0..<j])" using Suc by (simp_all add: list_of_def)
  moreover have "node_length h (Some j) 0 = Some (Inr (0 + Suc (length (rev [0..<j]))))"
    by (rule node_length_seg) (use d in \<open>simp_all only: dll_def\<close>)
  ultimately show ?thesis using Suc by simp
qed

end
