(* ===== verification/PC_Bitset.thy ===== *)
theory PC_Bitset
  imports Prelude "HOL-Library.Word"
begin

unbundle bit_operations_syntax

text \<open>
  \<^verbatim>\<open>porcupine/bitset.go\<close>: a set of small numbers as a slice of 64-bit words.  The operations are
  the code's, with the panic of an index out of range; \<open>bits_of\<close> is the set a slice stands for, and
  the locale \<open>bitset_ops\<close> is what the checker relies on.  The methods \<^verbatim>\<open>set\<close> and \<^verbatim>\<open>clear\<close> change
  their receiver in place and return it; here the changed slice is the result.
\<close>

section \<open>Operations\<close>

type_synonym bitset = "64 word list"

definition newBitset :: "nat \<Rightarrow> bitset" where
  "newBitset bits =
     (let extra = (if bits mod 64 \<noteq> 0 then 1 else 0);
          chunks = bits div 64 + extra
      in replicate chunks 0)"

definition bitset_clone :: "bitset \<Rightarrow> bitset" where
  "bitset_clone b = take (length b) b"

definition bitsetIndex :: "nat \<Rightarrow> nat \<times> nat" where
  "bitsetIndex pos = (pos div 64, pos mod 64)"

definition bitset_set :: "bitset \<Rightarrow> nat \<Rightarrow> go_panic + bitset" where
  "bitset_set b pos =
     (let (major, minor) = bitsetIndex pos
      in if major < length b then Inr (b[major := b ! major OR push_bit minor 1]) else Inl IndexOutOfRange)"

definition bitset_clear :: "bitset \<Rightarrow> nat \<Rightarrow> go_panic + bitset" where
  "bitset_clear b pos =
     (let (major, minor) = bitsetIndex pos
      in if major < length b then Inr (b[major := b ! major AND NOT (push_bit minor 1)]) else Inl IndexOutOfRange)"

definition bitset_get :: "bitset \<Rightarrow> nat \<Rightarrow> go_panic + bool" where
  "bitset_get b pos =
     (let (major, minor) = bitsetIndex pos
      in if major < length b then Inr (b ! major AND push_bit minor 1 \<noteq> 0) else Inl IndexOutOfRange)"

text \<open>\<^verbatim>\<open>bits.OnesCount64\<close>.\<close>

definition OnesCount64 :: "64 word \<Rightarrow> nat" where
  "OnesCount64 v = length (filter (bit v) [0..<64])"

definition popcnt :: "bitset \<Rightarrow> nat" where
  "popcnt b = foldl (\<lambda>total v. total + OnesCount64 v) 0 b"

definition bitset_hash :: "bitset \<Rightarrow> 64 word" where
  "bitset_hash b = foldl (\<lambda>hash v. hash XOR v) (word_of_nat (popcnt b)) b"

definition bitset_equals :: "bitset \<Rightarrow> bitset \<Rightarrow> bool" where
  "bitset_equals b b2 \<longleftrightarrow>
     (if length b \<noteq> length b2 then False else list_all (\<lambda>i. b ! i = b2 ! i) [0..<length b])"

section \<open>The set a slice stands for\<close>

definition bits_of :: "bitset \<Rightarrow> nat set" where
  "bits_of b = {i. i div 64 < length b \<and> bit (b ! (i div 64)) (i mod 64)}"

definition capacity :: "bitset \<Rightarrow> nat" where
  "capacity b = 64 * length b"

text \<open>What a client of the bit set may rely on: \<open>cap\<close> is the number of bits there is room for.\<close>

locale bitset_ops =
  fixes new :: "nat \<Rightarrow> 'b" and add :: "'b \<Rightarrow> nat \<Rightarrow> go_panic + 'b" and remove :: "'b \<Rightarrow> nat \<Rightarrow> go_panic + 'b"
    and member :: "'b \<Rightarrow> nat \<Rightarrow> go_panic + bool" and same :: "'b \<Rightarrow> 'b \<Rightarrow> bool" and key :: "'b \<Rightarrow> 64 word"
    and elems :: "'b \<Rightarrow> nat set" and cap :: "'b \<Rightarrow> nat"
  assumes new: "elems (new n) = {}" "n \<le> cap (new n)"
    and add: "i < cap b \<Longrightarrow> \<exists>b'. add b i = Inr b' \<and> elems b' = insert i (elems b) \<and> cap b' = cap b"
    and remove: "i < cap b \<Longrightarrow> \<exists>b'. remove b i = Inr b' \<and> elems b' = elems b - {i} \<and> cap b' = cap b"
    and member: "i < cap b \<Longrightarrow> member b i = Inr (i \<in> elems b)"
    and overflow: "cap b \<le> i \<Longrightarrow> add b i = Inl IndexOutOfRange \<and> remove b i = Inl IndexOutOfRange \<and> member b i = Inl IndexOutOfRange"
    and same: "cap b = cap b' \<Longrightarrow> same b b' \<longleftrightarrow> elems b = elems b'"
    and key: "cap b = cap b' \<Longrightarrow> elems b = elems b' \<Longrightarrow> key b = key b'"
begin

text \<open>Removing what was added gives the set before, if it was not a member.\<close>

lemma remove_add:
  assumes "i < cap b" and "i \<notin> elems b" and "add b i = Inr b'" and "remove b' i = Inr b''"
  shows "same b b''" and "key b'' = key b"
proof -
  have b': "elems b' = insert i (elems b)" "cap b' = cap b" using add [OF assms(1)] assms(3) by auto
  with remove [of i b'] assms(1,4) have "elems b'' = elems b' - {i}" "cap b'' = cap b" by auto
  with b' assms(2) have e: "elems b'' = elems b" "cap b'' = cap b" by auto
  then show "same b b''" by (simp add: same)
  show "key b'' = key b" by (rule key) (use e in simp_all)
qed

lemma same_key: "cap b = cap b' \<Longrightarrow> same b b' \<Longrightarrow> key b = key b'"
  using same key by blast

end

lemma bitsetIndex_inj: "i div 64 = j div 64 \<Longrightarrow> i mod 64 = j mod 64 \<Longrightarrow> i = (j :: nat)"
  by (metis div_mult_mod_eq)

lemma bit_one_push: "bit (2 ^ m :: 64 word) k \<longleftrightarrow> m = k \<and> k < 64"
  by (auto simp: bit_exp_iff)

lemma index_lt_capacity: "i div 64 < length b \<longleftrightarrow> i < capacity b"
  by (auto simp: capacity_def less_mult_imp_div_less div_less_iff_less_mult mult.commute)

lemma set_update_bits:
  assumes "i div 64 < length b" and "\<And>k. k < 64 \<Longrightarrow> bit w k \<longleftrightarrow> P k"
  shows "j \<in> bits_of (b[i div 64 := w]) \<longleftrightarrow> (if j div 64 = i div 64 then P (j mod 64) else j \<in> bits_of b)"
  using assms by (auto simp: bits_of_def nth_list_update)

lemma newBitset_bits: "bits_of (newBitset n) = {}" "n \<le> capacity (newBitset n)"
proof -
  show "bits_of (newBitset n) = {}" by (auto simp: bits_of_def newBitset_def Let_def)
  have "n \<le> 64 * (n div 64 + (if n mod 64 \<noteq> 0 then 1 else 0))" by (cases "n mod 64 = 0") auto
  then show "n \<le> capacity (newBitset n)" by (simp only: capacity_def newBitset_def Let_def length_replicate)
qed

lemma bitset_set_bits:
  assumes "i < capacity b"
  shows "\<exists>b'. bitset_set b i = Inr b' \<and> bits_of b' = insert i (bits_of b) \<and> capacity b' = capacity b"
proof -
  let ?w = "b ! (i div 64) OR push_bit (i mod 64) 1"
  have i: "i div 64 < length b" using assms by (simp add: index_lt_capacity)
  have "j \<in> bits_of (b[i div 64 := ?w]) \<longleftrightarrow> j \<in> insert i (bits_of b)" for j
  proof -
    have "j \<in> bits_of (b[i div 64 := ?w]) \<longleftrightarrow>
        (if j div 64 = i div 64 then bit (b ! (i div 64)) (j mod 64) \<or> i mod 64 = j mod 64 else j \<in> bits_of b)"
      by (rule set_update_bits [OF i]) (simp add: bit_or_iff bit_one_push)
    moreover have "i \<noteq> j \<longrightarrow> j div 64 = i div 64 \<longrightarrow> i mod 64 \<noteq> j mod 64" using bitsetIndex_inj [of j i] by auto
    ultimately show ?thesis
      using i by (cases "j = i"; cases "j div 64 = i div 64") (simp_all add: bits_of_def)
  qed
  then have "bits_of (b[i div 64 := ?w]) = insert i (bits_of b)" by blast
  then show ?thesis using i by (intro exI [of _ "b[i div 64 := ?w]"]) (simp add: bitset_set_def bitsetIndex_def capacity_def)
qed

lemma bitset_clear_bits:
  assumes "i < capacity b"
  shows "\<exists>b'. bitset_clear b i = Inr b' \<and> bits_of b' = bits_of b - {i} \<and> capacity b' = capacity b"
proof -
  let ?w = "b ! (i div 64) AND NOT (push_bit (i mod 64) 1)"
  have i: "i div 64 < length b" using assms by (simp add: index_lt_capacity)
  have "j \<in> bits_of (b[i div 64 := ?w]) \<longleftrightarrow> j \<in> bits_of b - {i}" for j
  proof -
    have "j \<in> bits_of (b[i div 64 := ?w]) \<longleftrightarrow>
        (if j div 64 = i div 64 then bit (b ! (i div 64)) (j mod 64) \<and> i mod 64 \<noteq> j mod 64 else j \<in> bits_of b)"
      by (rule set_update_bits [OF i]) (auto simp: bit_and_iff bit_not_iff bit_one_push)
    moreover have "i \<noteq> j \<longrightarrow> j div 64 = i div 64 \<longrightarrow> i mod 64 \<noteq> j mod 64" using bitsetIndex_inj [of j i] by auto
    ultimately show ?thesis
      using i by (cases "j = i"; cases "j div 64 = i div 64") (simp_all add: bits_of_def)
  qed
  then have "bits_of (b[i div 64 := ?w]) = bits_of b - {i}" by blast
  then show ?thesis using i by (intro exI [of _ "b[i div 64 := ?w]"]) (simp add: bitset_clear_def bitsetIndex_def capacity_def)
qed

lemma bitset_get_bits: "i < capacity b \<Longrightarrow> bitset_get b i = Inr (i \<in> bits_of b)"
proof -
  assume "i < capacity b"
  then have i: "i div 64 < length b" by (simp add: index_lt_capacity)
  have "b ! (i div 64) AND push_bit (i mod 64) 1 = 0 \<longleftrightarrow> \<not> bit (b ! (i div 64)) (i mod 64)"
    using and_exp_eq_0_iff_not_bit [of "b ! (i div 64)" "i mod 64"] by simp
  then show ?thesis using i by (simp add: bitset_get_def bitsetIndex_def bits_of_def)
qed

lemma bits_of_eq:
  assumes "length b = length b'" and "bits_of b = bits_of b'"
  shows "b = b'"
proof (rule nth_equalityI [OF assms(1)])
  fix m assume m: "m < length b"
  show "b ! m = b' ! m"
  proof (rule bit_word_eqI)
    fix k assume "k < LENGTH(64)"
    then have "(64 * m + k) div 64 = m" "(64 * m + k) mod 64 = k" by simp_all
    with assms m show "bit (b ! m) k \<longleftrightarrow> bit (b' ! m) k"
      unfolding bits_of_def set_eq_iff by (metis (mono_tags, lifting) mem_Collect_eq)
  qed
qed

lemma bitset_equals_iff: "bitset_equals b b' \<longleftrightarrow> b = b'"
  by (auto simp: bitset_equals_def list_all_iff intro: nth_equalityI)

interpretation slice: bitset_ops newBitset bitset_set bitset_clear bitset_get bitset_equals bitset_hash bits_of capacity
proof
  show "bits_of (newBitset n) = {}" "n \<le> capacity (newBitset n)" for n by (fact newBitset_bits)+
  show "\<exists>b'. bitset_set b i = Inr b' \<and> bits_of b' = insert i (bits_of b) \<and> capacity b' = capacity b"
    if "i < capacity b" for i b using that by (rule bitset_set_bits)
  show "\<exists>b'. bitset_clear b i = Inr b' \<and> bits_of b' = bits_of b - {i} \<and> capacity b' = capacity b"
    if "i < capacity b" for i b using that by (rule bitset_clear_bits)
  show "bitset_get b i = Inr (i \<in> bits_of b)" if "i < capacity b" for i b using that by (rule bitset_get_bits)
  show "bitset_set b i = Inl IndexOutOfRange \<and> bitset_clear b i = Inl IndexOutOfRange \<and> bitset_get b i = Inl IndexOutOfRange"
    if "capacity b \<le> i" for b i
    using that index_lt_capacity [of i b] by (auto simp: bitset_set_def bitset_clear_def bitset_get_def bitsetIndex_def)
  show "bitset_equals b b' \<longleftrightarrow> bits_of b = bits_of b'" if "capacity b = capacity b'" for b b'
    using that bits_of_eq [of b b'] by (auto simp: bitset_equals_iff capacity_def)
  show "bitset_hash b = bitset_hash b'" if "capacity b = capacity b'" "bits_of b = bits_of b'" for b b'
    using that bits_of_eq [of b b'] by (auto simp: capacity_def)
qed

section \<open>Counting\<close>

lemma OnesCount64_card: "OnesCount64 v = card {k. k < 64 \<and> bit v k}"
proof -
  have "distinct (filter (bit v) [0..<64])" by simp
  then have "OnesCount64 v = card (set (filter (bit v) [0..<64]))" by (simp only: OnesCount64_def distinct_card)
  also have "set (filter (bit v) [0..<64]) = {k. k < 64 \<and> bit v k}" by auto
  finally show ?thesis .
qed

lemma bits_of_snoc:
  "bits_of (b @ [v]) = bits_of b \<union> (\<lambda>k. 64 * length b + k) ` {k. k < 64 \<and> bit v k}"
proof (intro equalityI subsetI)
  fix i assume "i \<in> bits_of (b @ [v])"
  then have i: "i div 64 < Suc (length b)" "bit ((b @ [v]) ! (i div 64)) (i mod 64)" by (simp_all add: bits_of_def)
  show "i \<in> bits_of b \<union> (\<lambda>k. 64 * length b + k) ` {k. k < 64 \<and> bit v k}"
  proof (cases "i div 64 < length b")
    case False
    then have d: "i div 64 = length b" using i(1) by simp
    then have "i = 64 * length b + i mod 64" by (metis mult_div_mod_eq)
    moreover have "i mod 64 \<in> {k. k < 64 \<and> bit v k}" using i(2) d by simp
    ultimately show ?thesis by blast
  qed (use i in \<open>simp add: bits_of_def nth_append\<close>)
qed (auto simp: bits_of_def nth_append)

lemma popcnt_card: "popcnt b = card (bits_of b)"
proof (induction b rule: rev_induct)
  case Nil
  then show ?case by (simp add: popcnt_def bits_of_def)
next
  case (snoc v b)
  let ?new = "(\<lambda>k. 64 * length b + k) ` {k. k < 64 \<and> bit v k}"
  have sub: "bits_of b \<subseteq> {..<64 * length b}"
    using index_lt_capacity [of _ b] by (auto simp: bits_of_def capacity_def)
  then have "finite (bits_of b)" "bits_of b \<inter> ?new = {}" using finite_subset by auto
  then have "card (bits_of (b @ [v])) = card (bits_of b) + card ?new"
    unfolding bits_of_snoc by (intro card_Un_disjoint) auto
  also have "card ?new = OnesCount64 v" by (simp add: card_image OnesCount64_card)
  finally show ?case using snoc by (simp add: popcnt_def)
qed

lemma bits_of_finite: "finite (bits_of b)"
  by (rule finite_subset [of _ "{..<capacity b}"]) (auto simp: bits_of_def index_lt_capacity)

text \<open>C13: the 64-bit words of a bit set behave as a set of numbers: below the capacity, \<^verbatim>\<open>set\<close>, \<^verbatim>\<open>clear\<close> and
  \<^verbatim>\<open>get\<close> are insertion, removal and membership, \<^verbatim>\<open>popcnt\<close> is the cardinality, a new set for \<open>n\<close> bits
  is empty and has room for them, and two slices for the same number of bits are equal exactly when
  they stand for the same set, in which case their hashes agree.\<close>

theorem bitset_refines_set:
  "bits_of (newBitset n) = {} \<and> n \<le> capacity (newBitset n) \<and>
   (i < capacity b \<longrightarrow>
      (\<exists>b'. bitset_set b i = Inr b' \<and> bits_of b' = insert i (bits_of b) \<and> capacity b' = capacity b) \<and>
      (\<exists>b'. bitset_clear b i = Inr b' \<and> bits_of b' = bits_of b - {i} \<and> capacity b' = capacity b) \<and>
      bitset_get b i = Inr (i \<in> bits_of b)) \<and>
   popcnt b = card (bits_of b) \<and> bitset_clone b = b \<and>
   (capacity b = capacity c \<longrightarrow> (bitset_equals b c \<longleftrightarrow> bits_of b = bits_of c) \<and>
      (bits_of b = bits_of c \<longrightarrow> bitset_hash b = bitset_hash c))"
  using slice.new [of n] slice.add [of i b] slice.remove [of i b] slice.member [of i b] slice.same [of b c]
    slice.key [of b c] popcnt_card [of b]
  by (simp add: bitset_clone_def)

theorem bitset_refines_set_witness:
  "70 < capacity (newBitset 100) \<and> (\<exists>b. bitset_set (newBitset 100) 70 = Inr b \<and> bits_of b = {70}) \<and>
   bitset_equals (newBitset 100) (newBitset 70)"
proof -
  have c: "70 < capacity (newBitset 100)" "capacity (newBitset 100) = capacity (newBitset 70)"
    by (simp_all add: capacity_def newBitset_def)
  note t = bitset_refines_set [of 100 70 "newBitset 100" "newBitset 70"]
  have n: "bits_of (newBitset 100) = {}" "bits_of (newBitset 70) = {}"
    using t bitset_refines_set [of 70 0 "[]" "[]"] by iprover+
  have "\<exists>b. bitset_set (newBitset 100) 70 = Inr b \<and> bits_of b = insert 70 (bits_of (newBitset 100)) \<and>
      capacity b = capacity (newBitset 100)"
    using t c(1) by iprover
  moreover have "bitset_equals (newBitset 100) (newBitset 70) \<longleftrightarrow> bits_of (newBitset 100) = bits_of (newBitset 70)"
    using t c(2) by iprover
  ultimately show ?thesis using c(1) n by auto
qed

end
