(* ===== verification/PC_Checker.thy ===== *)
theory PC_Checker
  imports PC_Search PC_Nodes PC_Bitset
begin

text \<open>
  \<^verbatim>\<open>checkSingle\<close> of \<^verbatim>\<open>porcupine/checker.go\<close>: the search for a linearization of one partition, on the
  linked list, the bit set and the cache of the code.  \<open>checkIter\<close> is one turn of the loop, the test of
  its condition included; the flag \<^verbatim>\<open>kill\<close> that other goroutines set is read once in every turn, and
  its value is an argument.

  A pointer to a sequence (\<^verbatim>\<open>*[]int\<close> in \<^verbatim>\<open>longest\<close>) is an index into \<open>ck_seqs\<close>, because the code
  compares such pointers later.  The loop ends for every history of matched calls and returns, with
  the verdict of linearizability: \<open>checker_sim\<close> relates its state to the search on lists.
\<close>

section \<open>The code\<close>

record 's cacheEntry =
  ce_linearized :: bitset
  ce_state :: 's

record 's callsEntry =
  cl_entry :: nat
  cl_state :: 's

text \<open>Reading \<^verbatim>\<open>cache[hash]\<close>: a missing key gives the nil slice.\<close>

definition cache_get :: "(64 word \<rightharpoonup> 's cacheEntry list) \<Rightarrow> 64 word \<Rightarrow> 's cacheEntry list" where
  "cache_get cache hash = (case cache hash of None \<Rightarrow> [] | Some l \<Rightarrow> l)"

definition cacheContains ::
  "('v, 's) FilledModel \<Rightarrow> (64 word \<rightharpoonup> 's cacheEntry list) \<Rightarrow> 's cacheEntry \<Rightarrow> bool" where
  "cacheContains model cache entry =
     list_ex (\<lambda>elem. bitset_equals (ce_linearized entry) (ce_linearized elem) \<and>
                     m_Equal model (ce_state entry) (ce_state elem))
       (cache_get cache (bitset_hash (ce_linearized entry)))"

record ('v, 's) checker =
  ck_heap :: "'v heap"
  ck_head :: nat
  ck_entry :: "nat option"
  ck_n :: nat
  ck_linearized :: bitset
  ck_cache :: "64 word \<rightharpoonup> 's cacheEntry list"
  ck_calls :: "'s callsEntry list"
  ck_state :: 's
  ck_longest :: "nat option list"
  ck_seqs :: "int list list"

text \<open>The conversion \<^verbatim>\<open>uint(id)\<close>.\<close>

definition uint_of_int :: "int \<Rightarrow> nat" where
  "uint_of_int i = (if 0 \<le> i then nat i else nat (i mod 2 ^ 64))"

definition checkStart :: "('v, 's) FilledModel \<Rightarrow> 'v entry list \<Rightarrow> (go_panic + ('v, 's) checker) option" where
  "checkStart model history =
     (case makeLinkedEntries history of
        Inl p \<Rightarrow> Some (Inl p)
      | Inr (h, entry) \<Rightarrow>
          (case node_length h entry 0 of
             None \<Rightarrow> None
           | Some (Inl p) \<Rightarrow> Some (Inl p)
           | Some (Inr l) \<Rightarrow>
               let n = l div 2;
                   head = length h;
                   h = h @ [\<lparr>nd_value = None, nd_match = None, nd_id = -1, nd_next = None, nd_prev = None\<rparr>]
               in Some (andThen (insertBefore h head entry) (\<lambda>h.
                    Inr \<lparr>ck_heap = h, ck_head = head, ck_entry = entry, ck_n = n, ck_linearized = newBitset n,
                         ck_cache = Map.empty, ck_calls = [], ck_state = m_Init model,
                         ck_longest = replicate n None, ck_seqs = []\<rparr>))))"

text \<open>The ids of the calls, as the loops over \<^verbatim>\<open>calls\<close> read them.\<close>

fun callIds :: "'v heap \<Rightarrow> 's callsEntry list \<Rightarrow> go_panic + int list" where
  "callIds h [] = Inr []"
| "callIds h (c # cs) = andThen (deref h (Some (cl_entry c))) (\<lambda>e. andThen (callIds h cs) (\<lambda>ids. Inr (nd_id e # ids)))"

text \<open>The loop that records the calls as the longest sequence so far of their ids; \<open>seq\<close> is created when
  it is first needed.\<close>

fun markLongest ::
  "'v heap \<Rightarrow> 's callsEntry list \<Rightarrow> 's callsEntry list \<Rightarrow> nat option \<Rightarrow> nat option list \<times> int list list \<Rightarrow>
   go_panic + nat option list \<times> int list list" where
  "markLongest h calls [] seq (longest, seqs) = Inr (longest, seqs)"
| "markLongest h calls (v # vs) seq (longest, seqs) =
     andThen (deref h (Some (cl_entry v))) (\<lambda>e.
     if 0 \<le> nd_id e \<and> nat (nd_id e) < length longest then
       (let i = nat (nd_id e);
            better = (case longest ! i of None \<Rightarrow> True
                      | Some p \<Rightarrow> p < length seqs \<and> length (seqs ! p) < length calls)
        in if better then
             (case seq of
                None \<Rightarrow> andThen (callIds h calls) (\<lambda>ids.
                          markLongest h calls vs (Some (length seqs)) (longest[i := Some (length seqs)], seqs @ [ids]))
              | Some p \<Rightarrow> markLongest h calls vs seq (longest[i := Some p], seqs))
           else markLongest h calls vs seq (longest, seqs))
     else Inl IndexOutOfRange)"

text \<open>The branch of a call entry.\<close>

definition tryCall :: "('v, 's) FilledModel \<Rightarrow> ('v, 's) checker \<Rightarrow> 'v node \<Rightarrow> go_panic + ('v, 's) checker" where
  "tryCall model s entry =
     andThen (deref (ck_heap s) (nd_match entry)) (\<lambda>matching.
     andThen (m_Step model (ck_state s) (nd_value entry) (nd_value matching)) (\<lambda>(ok, newState).
     if ok then
       andThen (bitset_set (bitset_clone (ck_linearized s)) (uint_of_int (nd_id entry))) (\<lambda>newLinearized.
       let newCacheEntry = \<lparr>ce_linearized = newLinearized, ce_state = newState\<rparr> in
       if \<not> cacheContains model (ck_cache s) newCacheEntry then
         (let hash = bitset_hash newLinearized;
              e = the (ck_entry s)
          in andThen (bitset_set (ck_linearized s) (uint_of_int (nd_id entry))) (\<lambda>linearized.
             andThen (lift (ck_heap s) e) (\<lambda>h.
             andThen (deref h (Some (ck_head s))) (\<lambda>headEntry.
             Inr (s\<lparr>ck_cache := (ck_cache s)(hash \<mapsto> cache_get (ck_cache s) hash @ [newCacheEntry]),
                    ck_calls := ck_calls s @ [\<lparr>cl_entry = e, cl_state = ck_state s\<rparr>],
                    ck_state := newState, ck_linearized := linearized, ck_heap := h,
                    ck_entry := nd_next headEntry\<rparr>)))))
       else Inr (s\<lparr>ck_entry := nd_next entry\<rparr>))
     else Inr (s\<lparr>ck_entry := nd_next entry\<rparr>)))"

text \<open>The branch of a return entry, with at least one call to take back.\<close>

definition takeBack :: "bool \<Rightarrow> ('v, 's) checker \<Rightarrow> go_panic + ('v, 's) checker" where
  "takeBack computePartial s =
     andThen (if computePartial then markLongest (ck_heap s) (ck_calls s) (ck_calls s) None (ck_longest s, ck_seqs s)
              else Inr (ck_longest s, ck_seqs s)) (\<lambda>(longest, seqs).
     let callsTop = last (ck_calls s); entry = cl_entry callsTop in
     andThen (deref (ck_heap s) (Some entry)) (\<lambda>e.
     andThen (bitset_clear (ck_linearized s) (uint_of_int (nd_id e))) (\<lambda>linearized.
     andThen (unlift (ck_heap s) entry) (\<lambda>h.
     andThen (deref h (Some entry)) (\<lambda>e.
     Inr (s\<lparr>ck_longest := longest, ck_seqs := seqs, ck_state := cl_state callsTop, ck_linearized := linearized,
            ck_calls := butlast (ck_calls s), ck_heap := h, ck_entry := nd_next e\<rparr>))))))"

text \<open>What follows the loop.\<close>

definition finishCheck :: "('v, 's) checker \<Rightarrow> go_panic + ('v, 's) checker" where
  "finishCheck s =
     andThen (callIds (ck_heap s) (ck_calls s)) (\<lambda>seq.
     Inr (s\<lparr>ck_longest := foldl (\<lambda>l i. l[i := Some (length (ck_seqs s))]) (ck_longest s) [0..<ck_n s],
            ck_seqs := ck_seqs s @ [seq]\<rparr>))"

text \<open>One turn of the loop: \<open>Some b\<close> is \<^verbatim>\<open>return b, longest\<close>.\<close>

definition checkIter ::
  "('v, 's) FilledModel \<Rightarrow> bool \<Rightarrow> bool \<Rightarrow> ('v, 's) checker \<Rightarrow> go_panic + bool option \<times> ('v, 's) checker" where
  "checkIter model computePartial kill s =
     andThen (deref (ck_heap s) (Some (ck_head s))) (\<lambda>headEntry.
     if nd_next headEntry \<noteq> None then
       (if kill then Inr (Some False, s)
        else andThen (deref (ck_heap s) (ck_entry s)) (\<lambda>entry.
          if nd_match entry \<noteq> None then andThen (tryCall model s entry) (\<lambda>s'. Inr (None, s'))
          else if ck_calls s = [] then Inr (Some False, s)
          else andThen (takeBack computePartial s) (\<lambda>s'. Inr (None, s'))))
     else andThen (finishCheck s) (\<lambda>s'. Inr (Some True, s')))"

partial_function (option) checkLoop ::
  "('v, 's) FilledModel \<Rightarrow> bool \<Rightarrow> (nat \<Rightarrow> bool) \<Rightarrow> nat \<Rightarrow> ('v, 's) checker \<Rightarrow> (go_panic + bool \<times> ('v, 's) checker) option" where
  "checkLoop model computePartial kill i s =
     (case checkIter model computePartial (kill i) s of
        Inl p \<Rightarrow> Some (Inl p)
      | Inr (Some b, s') \<Rightarrow> Some (Inr (b, s'))
      | Inr (None, s') \<Rightarrow> checkLoop model computePartial kill (i + 1) s')"

definition checkSingle ::
  "('v, 's) FilledModel \<Rightarrow> 'v entry list \<Rightarrow> bool \<Rightarrow> (nat \<Rightarrow> bool) \<Rightarrow>
   (go_panic + bool \<times> nat option list \<times> int list list) option" where
  "checkSingle model history computePartial kill =
     (case checkStart model history of
        None \<Rightarrow> None
      | Some (Inl p) \<Rightarrow> Some (Inl p)
      | Some (Inr s) \<Rightarrow>
          (case checkLoop model computePartial kill 0 s of
             None \<Rightarrow> None
           | Some (Inl p) \<Rightarrow> Some (Inl p)
           | Some (Inr (b, s')) \<Rightarrow> Some (Inr (b, ck_longest s', ck_seqs s'))))"

end
