(* ===== verification/PC_Correct.thy ===== *)
theory PC_Correct
  imports PC_Checker
begin

text \<open>
  Why \<^verbatim>\<open>checkSingle\<close> is right: its state on the linked list, the bit set and the cache simulates the
  search on lists, turn by turn.  From that follow its verdict, the end of its loop, the absence of
  panics, and what the recorded sequences are.
\<close>

section \<open>Entries and their nodes\<close>

definition numbered :: "'v entry list \<Rightarrow> bool" where
  "numbered H \<longleftrightarrow> history_ok H \<and> set (call_ids H) = {0..<int (length H div 2)}"

definition steps_ok :: "('v, 's) FilledModel \<Rightarrow> 'v entry list \<Rightarrow> bool" where
  "steps_ok M H \<longleftrightarrow> (\<forall>s. \<forall>i \<in> set (call_ids H). \<exists>r. m_Step M s (fst (op_values H i)) (snd (op_values H i)) = Inr r)"

lemma entries_distinct:
  assumes "distinct (call_ids H)" and "distinct (return_ids H)"
  shows "distinct (map (\<lambda>e. (e_kind e, e_id e)) H)"
  using assms
proof (induction H)
  case (Cons x H)
  have d: "distinct (call_ids H)" "distinct (return_ids H)"
    using Cons.prems by (simp_all add: call_ids_def return_ids_def split: if_splits)
  have "(e_kind x, e_id x) \<notin> (\<lambda>e. (e_kind e, e_id e)) ` set H"
  proof
    assume "(e_kind x, e_id x) \<in> (\<lambda>e. (e_kind e, e_id e)) ` set H"
    then obtain e where "e \<in> set H" "e_kind e = e_kind x" "e_id e = e_id x" by auto
    then show False
      using Cons.prems set_call_ids [of "e_id x" H] set_return_ids [of "e_id x" H]
      by (cases "e_kind x") (auto simp: call_ids_def return_ids_def)
  qed
  then show ?case using Cons.IH [OF d] by simp
qed simp

lemma entry_unique:
  assumes "history_ok H" and "a < length H" and "b < length H"
    and "e_kind (rev H ! a) = e_kind (rev H ! b)" and "e_id (rev H ! a) = e_id (rev H ! b)"
  shows "a = b"
proof -
  have "distinct (map (\<lambda>e. (e_kind e, e_id e)) (rev H))"
    using entries_distinct [of H] assms(1) by (simp add: history_ok_def rev_map [symmetric])
  then show ?thesis using assms(2-5) by (simp add: distinct_conv_nth) (metis length_rev nth_map)
qed

lemma rev_match:
  assumes "history_ok H" and "a < length H" and "is_call (rev H ! a)"
  shows "\<exists>b < a. is_return (rev H ! b) \<and> e_id (rev H ! b) = e_id (rev H ! a)"
proof -
  let ?i = "length H - Suc a"
  have e: "rev H ! a = H ! ?i" using assms(2) by (simp add: rev_nth)
  have "H = take ?i H @ H ! ?i # drop (Suc ?i) H" using assms(2) by (simp add: id_take_nth_drop)
  then obtain r where r: "r \<in> set (drop (Suc ?i) H)" "is_return r" "e_id r = e_id (H ! ?i)"
    using history_ok_call [of "take ?i H" "H ! ?i" "drop (Suc ?i) H"] assms e by auto
  then obtain k where k: "k < length (drop (Suc ?i) H)" "r = drop (Suc ?i) H ! k" by (metis in_set_conv_nth)
  then have k': "Suc ?i + k < length H" "r = H ! (Suc ?i + k)" by simp_all
  then have "rev H ! (length H - Suc (Suc ?i + k)) = r" by (simp add: rev_nth)
  moreover have "length H - Suc (Suc ?i + k) < a" using assms(2) k'(1) by linarith
  ultimately show ?thesis using r e by metis
qed

lemma op_value_at:
  assumes "history_ok H" and "a < length H"
  shows "op_value H (e_kind (rev H ! a)) (e_id (rev H ! a)) = e_value (rev H ! a)"
proof -
  let ?e = "rev H ! a" and ?P = "\<lambda>e. e_kind e = e_kind (rev H ! a) \<and> e_id e = e_id (rev H ! a)"
  have e: "?e \<in> set H" using assms(2) by (metis length_rev nth_mem set_rev)
  then obtain f where f: "find ?P H = Some f" by (cases "find ?P H") (auto simp: find_None_iff)
  then have "f \<in> set H" "?P f" by (auto simp: find_Some_iff)
  then obtain b where "b < length H" "f = rev H ! b" by (metis in_set_conv_nth length_rev set_rev)
  then have "f = ?e" using entry_unique [OF assms(1)] assms(2) \<open>?P f\<close> by metis
  then show ?thesis using f by (simp add: op_value_def)
qed

section \<open>The list in the heap\<close>

definition nodes_ok :: "'v entry list \<Rightarrow> 'v heap \<Rightarrow> bool" where
  "nodes_ok H h \<longleftrightarrow> length h = Suc (length H) \<and> (\<forall>a < length H. node_of h (rev H) a)"

definition in_heap :: "'v entry list \<Rightarrow> 'v heap \<Rightarrow> nat list \<Rightarrow> bool" where
  "in_heap H h as \<longleftrightarrow> nodes_ok H h \<and> dll h (length H) as \<and> history_ok (map (nth (rev H)) as)"

lemma nodes_ok_static: "nodes_ok H h \<Longrightarrow> same_static h h' \<Longrightarrow> nodes_ok H h'"
  by (auto simp: nodes_ok_def same_static_def node_of_def)

lemma in_heap_lt:
  assumes "in_heap H h as" and "a \<in> set as"
  shows "a < length H"
  using assms by (auto simp: in_heap_def dll_def nodes_ok_def less_Suc_eq)

lemma in_heap_node:
  assumes "in_heap H h as" and "a \<in> set as"
  shows "nd_value (h ! a) = e_value (rev H ! a)" and "nd_id (h ! a) = e_id (rev H ! a)" and "deref h (Some a) = Inr (h ! a)"
    and "is_return (rev H ! a) \<Longrightarrow> nd_match (h ! a) = None"
  using in_heap_lt [OF assms] assms(1) by (auto simp: in_heap_def nodes_ok_def node_of_def deref_def)

lemma call_match:
  assumes H: "history_ok H" and h: "in_heap H h (as @ a # bs)" and a: "is_call (rev H ! a)"
  shows "\<exists>ys m zs. bs = ys @ m # zs \<and> nd_match (h ! a) = Some m \<and> is_return (rev H ! m) \<and> e_id (rev H ! m) = e_id (rev H ! a)"
proof -
  have lt: "a < length H" using in_heap_lt [OF h, of a] by simp
  have "history_ok (map (nth (rev H)) as @ rev H ! a # map (nth (rev H)) bs)" using h by (simp add: in_heap_def)
  from history_ok_call [OF this a] obtain b where b: "b \<in> set bs" "is_return (rev H ! b)" "e_id (rev H ! b) = e_id (rev H ! a)"
    by auto
  have n: "node_of h (rev H) a" using h lt by (simp add: in_heap_def nodes_ok_def)
  then have "nd_match (h ! a) \<noteq> None" using rev_match [OF H lt a] a by (auto simp: node_of_def)
  then obtain m where m: "nd_match (h ! a) = Some m" by blast
  then have m': "m < a" "is_return (rev H ! m)" "e_id (rev H ! m) = e_id (rev H ! a)" using n a by (auto simp: node_of_def)
  have "b < length H" using in_heap_lt [OF h, of b] b(1) by simp
  then have "m = b" using entry_unique [OF H, of m b] m' b lt by simp
  then obtain ys zs where "bs = ys @ m # zs" using b(1) by (meson split_list)
  then show ?thesis using m m' by blast
qed

text \<open>Taking the call and its return out of the addresses drops the operation from the entries.\<close>

lemma drop_op_addresses:
  assumes H: "history_ok H" and h: "in_heap H h (as @ a # ys @ m # zs)" and a: "is_call (rev H ! a)"
    and m: "is_return (rev H ! m)" "e_id (rev H ! m) = e_id (rev H ! a)"
  shows "drop_op (e_id (rev H ! a)) (map (nth (rev H)) (as @ ys @ m # zs)) = map (nth (rev H)) (as @ ys @ zs)"
proof -
  have d: "distinct (as @ a # ys @ m # zs)" using h by (simp add: in_heap_def dll_def)
  have "e_id (rev H ! x) \<noteq> e_id (rev H ! a)" if x: "x \<in> set (as @ ys @ zs)" for x
  proof
    assume e: "e_id (rev H ! x) = e_id (rev H ! a)"
    have "x < length H" "a < length H" "m < length H" using in_heap_lt [OF h] x by auto
    then have "x = a \<or> x = m" using entry_unique [OF H, of x a] entry_unique [OF H, of x m] e a m by (cases "e_kind (rev H ! x)") auto
    with d x show False by auto
  qed
  then have "drop_op (e_id (rev H ! a)) (map (nth (rev H)) xs) = map (nth (rev H)) xs" if "set xs \<subseteq> set (as @ ys @ zs)" for xs
    using that unfolding drop_ops_def by (auto simp: filter_id_conv)
  note keep = this
  have "drop_op (e_id (rev H ! a)) (map (nth (rev H)) as) = map (nth (rev H)) as"
    "drop_op (e_id (rev H ! a)) (map (nth (rev H)) ys) = map (nth (rev H)) ys"
    "drop_op (e_id (rev H ! a)) (map (nth (rev H)) zs) = map (nth (rev H)) zs"
    by (rule keep, force)+
  then show ?thesis using m by simp
qed

lemma in_heap_lift:
  assumes H: "history_ok H" and h: "in_heap H h (as @ a # bs)" and a: "is_call (rev H ! a)"
  shows "\<exists>h' cs. lift h a = Inr h' \<and> unlift h' a = Inr h \<and> in_heap H h' cs \<and>
    map (nth (rev H)) cs = drop_op (e_id (rev H ! a)) (map (nth (rev H)) (as @ bs))"
proof -
  from call_match [OF assms] obtain ys m zs where m: "bs = ys @ m # zs" "nd_match (h ! a) = Some m"
    "is_return (rev H ! m)" "e_id (rev H ! m) = e_id (rev H ! a)" by blast
  have d: "dll h (length H) (as @ a # ys @ m # zs)" using h m(1) by (simp add: in_heap_def)
  from lift_dll [OF d m(2)] obtain h' where h': "lift h a = Inr h'" "dll h' (length H) (as @ ys @ zs)"
    "same_static h h'" "unlift h' a = Inr h" by blast
  have e: "map (nth (rev H)) (as @ ys @ zs) = drop_op (e_id (rev H ! a)) (map (nth (rev H)) (as @ bs))"
    using drop_op_addresses [OF H h [unfolded m(1)] a m(3,4)] m(1) by simp
  have "drop_op (e_id (rev H ! a)) (map (nth (rev H)) (as @ bs)) = drop_op (e_id (rev H ! a)) (map (nth (rev H)) (as @ a # bs))"
    by simp
  then have "history_ok (map (nth (rev H)) (as @ ys @ zs))"
    using e h history_ok_drop by (metis in_heap_def)
  then have "in_heap H h' (as @ ys @ zs)" using h' nodes_ok_static [OF _ h'(3)] h by (simp add: in_heap_def)
  then show ?thesis using h' e by blast
qed

section \<open>The simulation\<close>

fun calls_sim :: "'v entry list \<Rightarrow> 'v heap \<Rightarrow> 's callsEntry list \<Rightarrow> ('v, 's) frame list \<Rightarrow> bool" where
  "calls_sim H h [] [] \<longleftrightarrow> True"
| "calls_sim H h (c # cs) ((pre, e, post, t) # fs) \<longleftrightarrow>
     cl_state c = t \<and> rev H ! cl_entry c = e \<and>
     (\<exists>h' as bs. unlift h (cl_entry c) = Inr h' \<and> in_heap H h' (as @ cl_entry c # bs) \<and>
        map (nth (rev H)) as = pre \<and> map (nth (rev H)) bs = post \<and> calls_sim H h' cs fs)"
| "calls_sim H h _ _ \<longleftrightarrow> False"

definition pointer_sim :: "'v entry list \<Rightarrow> ('v, 's) checker \<Rightarrow> ('v, 's) search \<Rightarrow> bool" where
  "pointer_sim H s a \<longleftrightarrow> (\<exists>as bs. in_heap H (ck_heap s) (as @ bs) \<and> map (nth (rev H)) as = before a \<and>
     map (nth (rev H)) bs = after a \<and> ck_entry s = next_of bs)"

definition room :: "nat \<Rightarrow> nat" where
  "room n = capacity (newBitset n)"

definition bits_sim :: "('v, 's) checker \<Rightarrow> ('v, 's) search \<Rightarrow> bool" where
  "bits_sim s a \<longleftrightarrow> capacity (ck_linearized s) = room (ck_n s) \<and> int ` bits_of (ck_linearized s) = chosen (frames a)"

definition cached :: "(64 word \<rightharpoonup> 's cacheEntry list) \<Rightarrow> 's cacheEntry set" where
  "cached c = (\<Union>k. set (cache_get c k))"

definition cache_sim :: "('v, 's) checker \<Rightarrow> ('v, 's) search \<Rightarrow> bool" where
  "cache_sim s a \<longleftrightarrow>
     (\<forall>k. \<forall>e \<in> set (cache_get (ck_cache s) k).
        k = bitset_hash (ce_linearized e) \<and> capacity (ce_linearized e) = room (ck_n s)) \<and>
     seen a = (\<lambda>e. (int ` bits_of (ce_linearized e), ce_state e)) ` cached (ck_cache s)"

definition longest_ok :: "('v, 's) FilledModel \<Rightarrow> 'v entry list \<Rightarrow> nat option list \<Rightarrow> int list list \<Rightarrow> bool" where
  "longest_ok M H longest seqs \<longleftrightarrow> length longest = length H div 2 \<and>
     (\<forall>i p. i < length longest \<and> longest ! i = Some p \<longrightarrow> p < length seqs \<and> int i \<in> set (seqs ! p)) \<and>
     (\<forall>q \<in> set seqs. partial_linearization (m_Step M) (m_Init M) H q)"

definition checker_sim :: "('v, 's) FilledModel \<Rightarrow> 'v entry list \<Rightarrow> ('v, 's) checker \<Rightarrow> ('v, 's) search \<Rightarrow> bool" where
  "checker_sim M H s a \<longleftrightarrow> ck_head s = length H \<and> ck_n s = length H div 2 \<and> ck_state s = cur a \<and>
     pointer_sim H s a \<and> calls_sim H (ck_heap s) (rev (ck_calls s)) (frames a) \<and> bits_sim s a \<and> cache_sim s a \<and>
     longest_ok M H (ck_longest s) (ck_seqs s)"

subsection \<open>The cache\<close>

lemma int_image_eq: "int ` A = int ` B \<longleftrightarrow> A = B"
  by (simp add: inj_image_eq_iff)

lemma cacheContains_iff:
  assumes c: "cache_sim s a" and b: "capacity B = room (ck_n s)"
  shows "cacheContains M (ck_cache s) \<lparr>ce_linearized = B, ce_state = t\<rparr> \<longleftrightarrow> is_seen M (int ` bits_of B) t a"
proof -
  have k: "k = bitset_hash (ce_linearized e)" "capacity (ce_linearized e) = room (ck_n s)"
    if "e \<in> set (cache_get (ck_cache s) k)" for k e using c that by (auto simp: cache_sim_def)
  have eq: "bitset_equals B (ce_linearized e) \<longleftrightarrow> bits_of B = bits_of (ce_linearized e)"
    and hash: "bits_of B = bits_of (ce_linearized e) \<Longrightarrow> bitset_hash B = bitset_hash (ce_linearized e)"
    if "e \<in> set (cache_get (ck_cache s) k)" for k e
    using slice.same [of B "ce_linearized e"] slice.key [of B "ce_linearized e"] k [OF that] b by simp_all
  have "cacheContains M (ck_cache s) \<lparr>ce_linearized = B, ce_state = t\<rparr> \<longleftrightarrow>
      (\<exists>e \<in> set (cache_get (ck_cache s) (bitset_hash B)). bits_of B = bits_of (ce_linearized e) \<and> m_Equal M t (ce_state e))"
    using eq by (simp add: cacheContains_def list_ex_iff)
  also have "\<dots> \<longleftrightarrow> (\<exists>e \<in> cached (ck_cache s). bits_of B = bits_of (ce_linearized e) \<and> m_Equal M t (ce_state e))"
    unfolding cached_def using k(1) hash by (metis (no_types, lifting) UN_iff UNIV_I)
  also have "\<dots> \<longleftrightarrow> is_seen M (int ` bits_of B) t a"
    using c by (auto simp: is_seen_def cache_sim_def int_image_eq)
  finally show ?thesis .
qed

lemma cache_get_update: "cache_get (c(k \<mapsto> l)) k' = (if k' = k then l else cache_get c k')"
  by (simp add: cache_get_def)

lemma cache_get_empty [simp]: "cache_get Map.empty k = []"
  by (simp add: cache_get_def)

lemma cached_update: "cached (c(k \<mapsto> cache_get c k @ [e])) = insert e (cached c)"
  unfolding cached_def by (auto simp: cache_get_update split: if_splits)

lemma cache_sim_update:
  assumes "cache_sim s a" and "capacity B = room (ck_n s)" and "ck_n s' = ck_n s"
    and "ck_cache s' = (ck_cache s)(bitset_hash B \<mapsto> cache_get (ck_cache s) (bitset_hash B) @ [\<lparr>ce_linearized = B, ce_state = t\<rparr>])"
    and "seen a' = insert (int ` bits_of B, t) (seen a)"
  shows "cache_sim s' a'"
  using assms(1-3,5) unfolding cache_sim_def assms(4) cached_update
  by (auto simp: cache_get_update split: if_splits)

subsection \<open>The calls\<close>

lemma calls_sim_ids:
  "calls_sim H h cs fs \<Longrightarrow> map (\<lambda>c. e_id (rev H ! cl_entry c)) cs = map frame_id fs \<and> (\<forall>c \<in> set cs. cl_entry c < length H)"
proof (induction H h cs fs rule: calls_sim.induct)
  case (2 H h c cs pre e post t fs)
  then obtain h' as bs where h': "in_heap H h' (as @ cl_entry c # bs)" "calls_sim H h' cs fs" by auto
  then have "cl_entry c < length H" using in_heap_lt by fastforce
  with 2 h' show ?case by auto
qed auto

lemma callIds_ok:
  assumes "nodes_ok H h" and "\<forall>c \<in> set cs. cl_entry c < length H"
  shows "callIds h cs = Inr (map (\<lambda>c. e_id (rev H ! cl_entry c)) cs)"
  using assms(2)
proof (induction cs)
  case (Cons c cs)
  then show ?case using assms(1) by (simp add: deref_def nodes_ok_def node_of_def)
qed simp

lemma longest_ok_update:
  assumes "longest_ok M H longest seqs" and "p < length seqs" and "int i \<in> set (seqs ! p)"
  shows "longest_ok M H (longest[i := Some p]) seqs"
proof -
  have "q < length seqs \<and> int j \<in> set (seqs ! q)" if "j < length longest" "longest[i := Some p] ! j = Some q" for j q
    using assms that by (cases "j = i") (auto simp: longest_ok_def)
  then show ?thesis using assms(1) unfolding longest_ok_def by (metis length_list_update)
qed

lemma longest_ok_append:
  assumes "longest_ok M H longest seqs" and "partial_linearization (m_Step M) (m_Init M) H ids"
  shows "longest_ok M H longest (seqs @ [ids])"
proof -
  have "p < length (seqs @ [ids]) \<and> int i \<in> set ((seqs @ [ids]) ! p)" if "i < length longest" "longest ! i = Some p" for i p
  proof -
    have "p < length seqs" "int i \<in> set (seqs ! p)" using assms(1) that unfolding longest_ok_def by blast+
    then show ?thesis by (simp add: nth_append)
  qed
  then show ?thesis using assms by (auto simp: longest_ok_def)
qed

lemma markLongest_ok:
  assumes h: "nodes_ok H h" and c: "\<forall>c \<in> set calls. cl_entry c < length H"
    and ids: "ids = map (\<lambda>c. e_id (rev H ! cl_entry c)) calls" "set ids \<subseteq> {0..<int (length H div 2)}"
    and part: "partial_linearization (m_Step M) (m_Init M) H ids"
    and "set vs \<subseteq> set calls" and "longest_ok M H longest seqs"
    and "\<And>p. seq = Some p \<Longrightarrow> p < length seqs \<and> seqs ! p = ids"
  shows "\<exists>l q. markLongest h calls vs seq (longest, seqs) = Inr (l, q) \<and> longest_ok M H l q"
  using assms(6-8)
proof (induction vs arbitrary: seq longest seqs)
  case (Cons v vs)
  let ?id = "e_id (rev H ! cl_entry v)"
  have v: "cl_entry v < length H" "?id \<in> set ids" "set vs \<subseteq> set calls" using Cons.prems(1) c ids(1) by auto
  then have e: "deref h (Some (cl_entry v)) = Inr (h ! cl_entry v)" "nd_id (h ! cl_entry v) = ?id"
    using h by (simp_all add: deref_def nodes_ok_def node_of_def)
  have n: "length longest = length H div 2" using Cons.prems(2) by (simp add: longest_ok_def)
  have "?id \<in> {0..<int (length H div 2)}" using v(2) ids(2) by blast
  then have i: "0 \<le> ?id" "nat ?id < length longest" "int (nat ?id) \<in> set ids" using v(2) n by auto
  define better where "better = (case longest ! nat ?id of None \<Rightarrow> True | Some p \<Rightarrow> p < length seqs \<and> length (seqs ! p) < length calls)"
  show ?case
  proof (cases better)
    case False
    then have "markLongest h calls (v # vs) seq (longest, seqs) = markLongest h calls vs seq (longest, seqs)"
      using e i by (simp add: better_def)
    then show ?thesis using Cons.IH [OF v(3) Cons.prems(2,3)] by simp
  next
    case b: True
    show ?thesis
    proof (cases seq)
      case None
      let ?q = "seqs @ [ids]" and ?l = "longest[nat ?id := Some (length seqs)]"
      have "markLongest h calls (v # vs) seq (longest, seqs) = markLongest h calls vs (Some (length seqs)) (?l, ?q)"
        using e i None b callIds_ok [OF h c] ids(1) by (simp add: better_def)
      moreover have "longest_ok M H ?l ?q"
        by (rule longest_ok_update [OF longest_ok_append [OF Cons.prems(2) part]]) (use i in simp_all)
      ultimately show ?thesis using Cons.IH [OF v(3), of ?l ?q "Some (length seqs)"] by simp
    next
      case (Some p)
      let ?l = "longest[nat ?id := Some p]"
      have "markLongest h calls (v # vs) seq (longest, seqs) = markLongest h calls vs seq (?l, seqs)"
        using e i Some b by (simp add: better_def)
      moreover have "longest_ok M H ?l seqs"
        by (rule longest_ok_update [OF Cons.prems(2)]) (use i Cons.prems(3) [OF Some] in simp_all)
      ultimately show ?thesis using Cons.IH [OF v(3) _ Cons.prems(3), of ?l] by simp
    qed
  qed
qed simp

section \<open>One turn of the loop\<close>

lemma head_next:
  assumes "in_heap H h as"
  shows "deref h (Some (length H)) = Inr (h ! length H)" and "nd_next (h ! length H) = next_of as"
  using assms dll_next [of h "length H" as] by (simp_all add: in_heap_def nodes_ok_def deref_def next_of_def)

lemma node_next:
  assumes "in_heap H h (as @ b # bs)"
  shows "nd_next (h ! b) = next_of bs"
  using assms dll_middle(3) by (auto simp: in_heap_def next_of_def)

lemma map_Cons_split: "map f bs = e # rest \<Longrightarrow> \<exists>b bs'. bs = b # bs' \<and> f b = e \<and> map f bs' = rest"
  by (cases bs) auto

lemma current_entry:
  assumes "pointer_sim H s a" and "after a = e # rest"
  shows "\<exists>as b bs. in_heap H (ck_heap s) (as @ b # bs) \<and> map (nth (rev H)) as = before a \<and> rev H ! b = e \<and>
    map (nth (rev H)) bs = rest \<and> ck_entry s = Some b"
proof -
  from assms(1) obtain as bs where a: "in_heap H (ck_heap s) (as @ bs)" "map (nth (rev H)) as = before a"
    "map (nth (rev H)) bs = after a" "ck_entry s = next_of bs" unfolding pointer_sim_def by blast
  from map_Cons_split [OF a(3) [unfolded assms(2)]] obtain b bs' where "bs = b # bs'" "rev H ! b = e"
    "map (nth (rev H)) bs' = rest" by blast
  then show ?thesis using a by (intro exI [of _ as] exI [of _ b] exI [of _ bs']) (simp add: next_of_def)
qed

lemma sim_skip:
  assumes "checker_sim M H s a" and "in_heap H (ck_heap s) (as @ b # bs)" and "map (nth (rev H)) as = before a"
    and "rev H ! b # map (nth (rev H)) bs = after a"
  shows "checker_sim M H (s\<lparr>ck_entry := nd_next (ck_heap s ! b)\<rparr>) (skip a)"
proof -
  have "after a \<noteq> []" "hd (after a) = rev H ! b" "tl (after a) = map (nth (rev H)) bs" using assms(4) by (metis list.distinct(1) list.sel)+
  then have "pointer_sim H (s\<lparr>ck_entry := nd_next (ck_heap s ! b)\<rparr>) (skip a)"
    unfolding pointer_sim_def using assms(2,3) node_next [OF assms(2)]
    by (intro exI [of _ "as @ [b]"] exI [of _ bs]) (simp add: skip_def)
  then show ?thesis
    using assms(1) by (simp add: checker_sim_def bits_sim_def cache_sim_def skip_def)
qed

lemma numbered_id:
  assumes "numbered H" and "b < length H"
  shows "0 \<le> e_id (rev H ! b)" and "uint_of_int (e_id (rev H ! b)) < room (length H div 2)"
    and "int (uint_of_int (e_id (rev H ! b))) = e_id (rev H ! b)"
proof -
  have "rev H ! b \<in> set H" using assms(2) by (metis length_rev nth_mem set_rev)
  then have "e_id (rev H ! b) \<in> {0..<int (length H div 2)}"
    using assms(1) history_ok_ids unfolding numbered_def by blast
  moreover have "length H div 2 \<le> room (length H div 2)" unfolding room_def by (rule newBitset_bits)
  ultimately show "0 \<le> e_id (rev H ! b)" "uint_of_int (e_id (rev H ! b)) < room (length H div 2)"
    "int (uint_of_int (e_id (rev H ! b))) = e_id (rev H ! b)"
    by (auto simp: uint_of_int_def)
qed

lemma call_values:
  assumes H: "history_ok H" and h: "in_heap H h (as @ b # bs)" and b: "is_call (rev H ! b)"
  shows "\<exists>m. nd_match (h ! b) = Some m \<and> deref h (Some m) = Inr (h ! m) \<and>
    op_values H (e_id (rev H ! b)) = (nd_value (h ! b), nd_value (h ! m))"
proof -
  from call_match [OF assms] obtain ys m zs where m: "bs = ys @ m # zs" "nd_match (h ! b) = Some m"
    "is_return (rev H ! m)" "e_id (rev H ! m) = e_id (rev H ! b)" by blast
  note lt = in_heap_lt [OF h, of b] in_heap_lt [OF h, of m]
  have "op_value H callEntry (e_id (rev H ! b)) = nd_value (h ! b)"
    using op_value_at [OF H, of b] lt in_heap_node(1) [OF h, of b] b by simp
  moreover have "op_value H returnEntry (e_id (rev H ! b)) = nd_value (h ! m)"
    using op_value_at [OF H, of m] lt in_heap_node(1) [OF h, of m] m by simp
  ultimately show ?thesis using m in_heap_node(3) [OF h, of m] by (simp add: op_values_def)
qed

lemma sim_push:
  assumes sim: "checker_sim M H s a" and H: "numbered H"
    and h: "in_heap H (ck_heap s) (as @ b # bs)" and as: "map (nth (rev H)) as = before a"
    and bs: "rev H ! b # map (nth (rev H)) bs = after a" and b: "is_call (rev H ! b)"
    and B: "bitset_set (ck_linearized s) (uint_of_int (e_id (rev H ! b))) = Inr B"
  shows "\<exists>h'. lift (ck_heap s) b = Inr h' \<and> deref h' (Some (ck_head s)) = Inr (h' ! ck_head s) \<and>
    checker_sim M H (s\<lparr>ck_cache := (ck_cache s)(bitset_hash B \<mapsto> cache_get (ck_cache s) (bitset_hash B) @
          [\<lparr>ce_linearized = B, ce_state = t\<rparr>]),
        ck_calls := ck_calls s @ [\<lparr>cl_entry = b, cl_state = ck_state s\<rparr>], ck_state := t, ck_linearized := B,
        ck_heap := h', ck_entry := nd_next (h' ! ck_head s)\<rparr>) (push t a)"
proof -
  let ?e = "rev H ! b" and ?i = "uint_of_int (e_id (rev H ! b))"
  have lt: "b < length H" using in_heap_lt [OF h, of b] by simp
  note id = numbered_id [OF H lt]
  have sim': "ck_head s = length H" "ck_n s = length H div 2" "ck_state s = cur a" "bits_sim s a" "cache_sim s a"
    "calls_sim H (ck_heap s) (rev (ck_calls s)) (frames a)" "longest_ok M H (ck_longest s) (ck_seqs s)"
    using sim by (simp_all add: checker_sim_def)
  have hist: "history_ok H" using H by (simp add: numbered_def)
  from in_heap_lift [OF hist h b] obtain h' cs where h': "lift (ck_heap s) b = Inr h'" "unlift h' b = Inr (ck_heap s)"
    "in_heap H h' cs" "map (nth (rev H)) cs = drop_op (e_id ?e) (map (nth (rev H)) (as @ bs))" by blast
  note head = head_next [OF h'(3)]
  have e: "hd (after a) = ?e" "tl (after a) = map (nth (rev H)) bs" using bs by (metis list.sel)+
  have p: "frames (push t a) = (before a, ?e, map (nth (rev H)) bs, cur a) # frames a" "before (push t a) = []"
    "after (push t a) = map (nth (rev H)) cs" "cur (push t a) = t"
    "seen (push t a) = insert (insert (e_id ?e) (chosen (frames a)), t) (seen a)"
    unfolding push_def e Let_def h'(4) map_append as by simp_all
  have cap: "capacity (ck_linearized s) = room (length H div 2)" and chosen: "int ` bits_of (ck_linearized s) = chosen (frames a)"
    using sim'(2,4) by (simp_all add: bits_sim_def)
  have B': "bits_of B = insert ?i (bits_of (ck_linearized s))" "capacity B = room (length H div 2)"
    using bitset_set_bits [of ?i "ck_linearized s"] B id(2) cap by auto
  then have ids: "int ` bits_of B = insert (e_id ?e) (chosen (frames a))" using chosen id(3) by simp
  let ?s = "s\<lparr>ck_cache := (ck_cache s)(bitset_hash B \<mapsto> cache_get (ck_cache s) (bitset_hash B) @
        [\<lparr>ce_linearized = B, ce_state = t\<rparr>]),
      ck_calls := ck_calls s @ [\<lparr>cl_entry = b, cl_state = ck_state s\<rparr>], ck_state := t, ck_linearized := B,
      ck_heap := h', ck_entry := nd_next (h' ! ck_head s)\<rparr>"
  have "pointer_sim H ?s (push t a)"
    unfolding pointer_sim_def using h'(3) head sim'(1) p(2,3) by (intro exI [of _ "[]"] exI [of _ cs]) simp
  moreover have "calls_sim H h' (\<lparr>cl_entry = b, cl_state = ck_state s\<rparr> # rev (ck_calls s)) (frames (push t a))"
    using h'(2) h as sim'(3,6) by (auto simp: p(1))
  moreover have "bits_sim ?s (push t a)" using B'(2) ids sim'(2) by (simp add: bits_sim_def p(1))
  moreover have "cache_sim ?s (push t a)"
    by (rule cache_sim_update [OF sim'(5), of B]) (use B'(2) sim'(2) p(5) ids in simp_all)
  ultimately have "checker_sim M H ?s (push t a)" using sim' p(4) by (simp add: checker_sim_def)
  then show ?thesis using h'(1) head(1) sim'(1) by simp
qed

text \<open>A call entry.\<close>

lemma call_turn:
  assumes sim: "checker_sim M H s a" and hist: "history_ok H" and e: "after a = e # rest" "is_call e"
  shows "\<exists>as b bs m. in_heap H (ck_heap s) (as @ b # bs) \<and> map (nth (rev H)) as = before a \<and>
    rev H ! b # map (nth (rev H)) bs = after a \<and> rev H ! b = e \<and> ck_entry s = Some b \<and> nd_id (ck_heap s ! b) = e_id e \<and>
    nd_match (ck_heap s ! b) = Some m \<and> deref (ck_heap s) (Some m) = Inr (ck_heap s ! m) \<and>
    op_values H (e_id e) = (nd_value (ck_heap s ! b), nd_value (ck_heap s ! m)) \<and>
    checkIter M cp False s = andThen (tryCall M s (ck_heap s ! b)) (\<lambda>s'. Inr (None, s'))"
proof -
  have ps: "pointer_sim H s a" and head: "ck_head s = length H" using sim by (simp_all add: checker_sim_def)
  from current_entry [OF ps e(1)] obtain as b bs where h: "in_heap H (ck_heap s) (as @ b # bs)"
    and as: "map (nth (rev H)) as = before a" and b: "rev H ! b = e" and bs: "map (nth (rev H)) bs = rest"
    and entry: "ck_entry s = Some b" by blast
  let ?n = "ck_heap s ! b"
  from call_values [OF hist h] e(2) obtain m where m: "nd_match ?n = Some m" "deref (ck_heap s) (Some m) = Inr (ck_heap s ! m)"
    and v: "op_values H (e_id e) = (nd_value ?n, nd_value (ck_heap s ! m))" unfolding b by blast
  have nb: "deref (ck_heap s) (ck_entry s) = Inr ?n" "nd_id ?n = e_id e"
    using in_heap_node [OF h, of b] entry b by simp_all
  have hn: "deref (ck_heap s) (Some (ck_head s)) = Inr (ck_heap s ! ck_head s)" "nd_next (ck_heap s ! ck_head s) \<noteq> None"
    using head_next [OF h] head by (cases as; simp add: next_of_def)+
  have iter: "checkIter M cp False s = andThen (tryCall M s ?n) (\<lambda>s'. Inr (None, s'))"
    using hn nb m(1) by (simp add: checkIter_def)
  have "rev H ! b # map (nth (rev H)) bs = after a" using b bs e(1) by simp
  then show ?thesis using h as b entry nb(2) m v iter by blast
qed

lemma iter_call:
  assumes sim: "checker_sim M H s a" and H: "numbered H" and M: "steps_ok M H"
    and e: "after a = e # rest" "is_call e"
  shows "\<exists>s' a'. checkIter M cp False s = Inr (None, s') \<and> search_step M (op_values H) a = More a' \<and> checker_sim M H s' a'"
proof -
  have hist: "history_ok H" using H by (simp add: numbered_def)
  have n: "ck_n s = length H div 2" "ck_state s = cur a" "bits_sim s a" "cache_sim s a" using sim by (simp_all add: checker_sim_def)
  from call_turn [OF sim hist e] obtain as b bs m where h: "in_heap H (ck_heap s) (as @ b # bs)"
    and as: "map (nth (rev H)) as = before a" and bs: "rev H ! b # map (nth (rev H)) bs = after a" and b: "rev H ! b = e"
    and entry: "ck_entry s = Some b" "nd_id (ck_heap s ! b) = e_id e" "nd_match (ck_heap s ! b) = Some m"
      "deref (ck_heap s) (Some m) = Inr (ck_heap s ! m)"
    and v: "op_values H (e_id e) = (nd_value (ck_heap s ! b), nd_value (ck_heap s ! m))"
    and iter: "checkIter M cp False s = andThen (tryCall M s (ck_heap s ! b)) (\<lambda>s'. Inr (None, s'))" by blast
  have lt: "b < length H" using in_heap_lt [OF h, of b] by simp
  have "e_id e \<in> set (call_ids H)"
    using history_ok_ids [OF hist, of e] b lt by (metis length_rev nth_mem set_rev)
  then obtain ok t where step: "m_Step M (cur a) (nd_value (ck_heap s ! b)) (nd_value (ck_heap s ! m)) = Inr (ok, t)"
    using M v unfolding steps_ok_def by (metis fst_conv snd_conv surj_pair)
  have cap: "uint_of_int (e_id e) < capacity (ck_linearized s)" "capacity (ck_linearized s) = room (ck_n s)"
    using numbered_id(2) [OF H lt] n b by (simp_all add: bits_sim_def)
  then obtain B where B: "bitset_set (ck_linearized s) (uint_of_int (e_id e)) = Inr B"
    "bits_of B = insert (uint_of_int (e_id e)) (bits_of (ck_linearized s))" "capacity B = room (ck_n s)"
    using bitset_set_bits by metis
  have "int ` bits_of B = insert (e_id e) (chosen (frames a))"
    using B(2) n(3) numbered_id(3) [OF H lt] b by (simp add: bits_sim_def)
  then have seen: "cacheContains M (ck_cache s) \<lparr>ce_linearized = B, ce_state = t\<rparr> \<longleftrightarrow>
      is_seen M (insert (e_id e) (chosen (frames a))) t a"
    using cacheContains_iff [OF n(4) B(3)] by simp
  show ?thesis
  proof (cases "ok \<and> \<not> is_seen M (insert (e_id e) (chosen (frames a))) t a")
    case False
    then have "tryCall M s (ck_heap s ! b) = Inr (s\<lparr>ck_entry := nd_next (ck_heap s ! b)\<rparr>)"
      using entry step n(2) B(1) seen by (auto simp: tryCall_def bitset_clone_def)
    moreover have "search_step M (op_values H) a = More (PC_Search.skip a)"
      using e step v False by (cases ok) (simp_all add: search_step_def)
    ultimately show ?thesis using iter sim_skip [OF sim h as bs] by simp
  next
    case True
    from sim_push [OF sim H h as bs, of B t] e(2) B(1) b obtain h' s' where p: "lift (ck_heap s) b = Inr h'"
      "deref h' (Some (ck_head s)) = Inr (h' ! ck_head s)"
      "s' = s\<lparr>ck_cache := (ck_cache s)(bitset_hash B \<mapsto> cache_get (ck_cache s) (bitset_hash B) @
          [\<lparr>ce_linearized = B, ce_state = t\<rparr>]),
        ck_calls := ck_calls s @ [\<lparr>cl_entry = b, cl_state = ck_state s\<rparr>], ck_state := t, ck_linearized := B,
        ck_heap := h', ck_entry := nd_next (h' ! ck_head s)\<rparr>" "checker_sim M H s' (push t a)" by auto
    have "tryCall M s (ck_heap s ! b) = Inr s'"
      using entry step n(2) True B(1) seen p by (simp add: tryCall_def bitset_clone_def Let_def)
    moreover have "search_step M (op_values H) a = More (push t a)"
      using e step v True by (simp add: search_step_def)
    ultimately show ?thesis using iter p(4) by simp
  qed
qed

text \<open>A return entry: the last call is taken back.\<close>

lemma return_turn:
  assumes sim: "checker_sim M H s a" and e: "after a = e # rest" "is_return e"
  shows "checkIter M cp False s =
    (if ck_calls s = [] then Inr (Some False, s) else andThen (takeBack cp s) (\<lambda>s'. Inr (None, s')))"
proof -
  have ps: "pointer_sim H s a" and head: "ck_head s = length H" using sim by (simp_all add: checker_sim_def)
  from current_entry [OF ps e(1)] obtain as b bs where h: "in_heap H (ck_heap s) (as @ b # bs)"
    and b: "rev H ! b = e" and entry: "ck_entry s = Some b" by blast
  have "deref (ck_heap s) (ck_entry s) = Inr (ck_heap s ! b)" "nd_match (ck_heap s ! b) = None"
    using in_heap_node [OF h, of b] entry b e(2) by simp_all
  moreover have "deref (ck_heap s) (Some (ck_head s)) = Inr (ck_heap s ! ck_head s)" "nd_next (ck_heap s ! ck_head s) \<noteq> None"
    using head_next [OF h] head by (cases as; simp add: next_of_def)+
  ultimately show ?thesis by (simp add: checkIter_def)
qed

lemma sim_path:
  assumes sim: "checker_sim M H s a" and inv: "search_inv M (op_values H) H a" and H: "numbered H"
  shows "map (\<lambda>c. e_id (rev H ! cl_entry c)) (ck_calls s) = path_ids (frames a)"
    and "\<forall>c \<in> set (ck_calls s). cl_entry c < length H"
    and "partial_linearization (m_Step M) (m_Init M) H (path_ids (frames a))"
    and "nodes_ok H (ck_heap s)" and "ck_calls s = [] \<longleftrightarrow> frames a = []"
proof -
  have "calls_sim H (ck_heap s) (rev (ck_calls s)) (frames a)" using sim by (simp add: checker_sim_def)
  from calls_sim_ids [OF this] have c: "map (\<lambda>c. e_id (rev H ! cl_entry c)) (rev (ck_calls s)) = map frame_id (frames a)"
    "\<forall>c \<in> set (rev (ck_calls s)). cl_entry c < length H" by blast+
  show "map (\<lambda>c. e_id (rev H ! cl_entry c)) (ck_calls s) = path_ids (frames a)"
    unfolding path_ids_def c(1) [symmetric] by (simp add: rev_map)
  show "\<forall>c \<in> set (ck_calls s). cl_entry c < length H" using c(2) by simp
  have "frames_ok M (op_values H) H (frames a) (before a @ after a) (cur a)" using inv by (simp add: search_inv_def)
  from frames_ok_partial [OF this] H show "partial_linearization (m_Step M) (m_Init M) H (path_ids (frames a))"
    by (simp add: numbered_def)
  show "nodes_ok H (ck_heap s)" using sim by (auto simp: checker_sim_def pointer_sim_def in_heap_def)
  show "ck_calls s = [] \<longleftrightarrow> frames a = []" using arg_cong [OF c(1), of length] by auto
qed

lemma takeBack_marks:
  assumes sim: "checker_sim M H s a" and inv: "search_inv M (op_values H) H a" and H: "numbered H"
  shows "\<exists>l q. (if cp then markLongest (ck_heap s) (ck_calls s) (ck_calls s) None (ck_longest s, ck_seqs s)
      else Inr (ck_longest s, ck_seqs s)) = Inr (l, q) \<and> longest_ok M H l q"
proof -
  note p = sim_path [OF sim inv H]
  have l: "longest_ok M H (ck_longest s) (ck_seqs s)" using sim by (simp add: checker_sim_def)
  have "set (path_ids (frames a)) \<subseteq> {0..<int (length H div 2)}"
    using p(3) H by (auto simp: partial_linearization_def numbered_def)
  then show ?thesis using markLongest_ok [OF p(4,2) p(1) [symmetric] _ p(3) order_refl l, of None] l by simp
qed

lemma takeBack_sim:
  assumes sim: "checker_sim M H s a" and inv: "search_inv M (op_values H) H a" and H: "numbered H"
    and f: "frames a = (pre, c, post, t) # fs"
  shows "\<exists>s'. takeBack cp s = Inr s' \<and> checker_sim M H s' (a\<lparr>frames := fs, before := pre @ [c], after := post, cur := t\<rparr>)"
proof -
  from takeBack_marks [OF sim inv H, of cp] obtain l q where
    l: "(if cp then markLongest (ck_heap s) (ck_calls s) (ck_calls s) None (ck_longest s, ck_seqs s)
      else Inr (ck_longest s, ck_seqs s)) = Inr (l, q)" "longest_ok M H l q" by blast
  have "ck_calls s \<noteq> []" using sim_path(5) [OF sim inv H] f by simp
  then obtain cs top where cs: "ck_calls s = cs @ [top]" by (metis append_butlast_last_id)
  let ?b = "cl_entry top"
  have "calls_sim H (ck_heap s) (top # rev cs) ((pre, c, post, t) # fs)" using sim f cs by (simp add: checker_sim_def)
  then obtain h' as bs where top: "cl_state top = t" "rev H ! ?b = c" "unlift (ck_heap s) ?b = Inr h'"
    "in_heap H h' (as @ ?b # bs)" "map (nth (rev H)) as = pre" "map (nth (rev H)) bs = post" "calls_sim H h' (rev cs) fs" by auto
  have lt: "?b < length H" using in_heap_lt [OF top(4), of ?b] by simp
  have id: "deref (ck_heap s) (Some ?b) = Inr (ck_heap s ! ?b)" "nd_id (ck_heap s ! ?b) = e_id c"
    using sim_path(4) [OF sim inv H] lt top(2) by (auto simp: nodes_ok_def node_of_def deref_def)
  have bits: "bits_sim s a" "ck_n s = length H div 2" using sim by (simp_all add: checker_sim_def)
  note num = numbered_id [OF H lt, unfolded top(2)]
  then obtain B where B: "bitset_clear (ck_linearized s) (uint_of_int (e_id c)) = Inr B"
    "bits_of B = bits_of (ck_linearized s) - {uint_of_int (e_id c)}" "capacity B = room (ck_n s)"
    using bitset_clear_bits [of "uint_of_int (e_id c)" "ck_linearized s"] bits by (auto simp: bits_sim_def)
  have "frames_ok M (op_values H) H fs (pre @ c # post) t" using inv f by (simp add: search_inv_def)
  then have "e_id c \<notin> chosen fs" by (rule frames_ok_fresh)
  moreover have "int ` bits_of B = int ` bits_of (ck_linearized s) - {e_id c}"
    unfolding B(2) image_set_diff [OF inj_of_nat] using num(3) by simp
  ultimately have ids: "int ` bits_of B = chosen fs" using bits(1) f by (simp add: bits_sim_def)
  let ?s = "s\<lparr>ck_longest := l, ck_seqs := q, ck_state := t, ck_linearized := B, ck_calls := cs, ck_heap := h',
    ck_entry := nd_next (h' ! ?b)\<rparr>"
  have "takeBack cp s = Inr ?s"
    using l(1) cs id B(1) top(1,3) in_heap_node(3) [OF top(4), of ?b] by (simp add: takeBack_def)
  moreover have "pointer_sim H ?s (a\<lparr>frames := fs, before := pre @ [c], after := post, cur := t\<rparr>)"
    unfolding pointer_sim_def using top node_next [OF top(4)] by (intro exI [of _ "as @ [?b]"] exI [of _ bs]) simp
  ultimately show ?thesis
    using sim l(2) top(7) B(3) ids by (intro exI [of _ ?s]) (simp add: checker_sim_def bits_sim_def cache_sim_def)
qed

text \<open>The end of the list: the operation sequence is complete.\<close>

lemma foldl_set_all: "foldl (\<lambda>l i. l[i := x]) xs [0..<k] = replicate (min k (length xs)) x @ drop k xs"
proof (induction k)
  case (Suc k)
  show ?case
  proof (cases "k < length xs")
    case True
    have d: "drop k xs = xs ! k # drop (Suc k) xs" using Cons_nth_drop_Suc [OF True] by simp
    have "foldl (\<lambda>l i. l[i := x]) xs [0..<Suc k] = (replicate (min k (length xs)) x @ drop k xs)[k := x]"
      using Suc by simp
    also have "\<dots> = replicate k x @ x # drop (Suc k) xs" unfolding d using True by (simp add: list_update_append)
    also have "\<dots> = replicate (min (Suc k) (length xs)) x @ drop (Suc k) xs"
      using True by (simp add: replicate_append_same [symmetric])
    finally show ?thesis .
  qed (use Suc in \<open>simp add: list_update_beyond\<close>)
qed simp

lemma finish_turn:
  assumes sim: "checker_sim M H s a" and inv: "search_inv M (op_values H) H a" and H: "numbered H" and a: "after a = []"
  shows "\<exists>s'. checkIter M cp k s = Inr (Some True, s') \<and> longest_ok M H (ck_longest s') (ck_seqs s') \<and>
    linearization (m_Step M) (m_Init M) H (path_ids (frames a))"
proof -
  have hist: "history_ok H" using H by (simp add: numbered_def)
  have lin: "lin_from (m_Step M) (op_values H) H (m_Init M) (path_ids (frames a))" by (rule search_true [OF inv a hist])
  then have lin': "linearization (m_Step M) (m_Init M) H (path_ids (frames a))"
    unfolding linearization_def lin_from_iff [OF hist] .
  have "before a = []" by (rule search_end [OF inv a hist])
  then obtain h: "in_heap H (ck_heap s) []" and head: "ck_head s = length H" and n: "ck_n s = length H div 2"
    and l: "longest_ok M H (ck_longest s) (ck_seqs s)"
    using sim a by (auto simp: checker_sim_def pointer_sim_def)
  note p = sim_path [OF sim inv H]
  let ?q = "path_ids (frames a)" and ?p = "length (ck_seqs s)"
  have len: "length (ck_longest s) = ck_n s" using l n by (simp add: longest_ok_def)
  define s' where "s' = s\<lparr>ck_longest := replicate (ck_n s) (Some ?p), ck_seqs := ck_seqs s @ [?q]\<rparr>"
  have "finishCheck s = Inr s'"
    using callIds_ok [OF p(4,2)] p(1) len by (simp add: finishCheck_def s'_def foldl_set_all)
  then have "checkIter M cp k s = Inr (Some True, s')"
    using head_next [OF h] head by (simp add: checkIter_def next_of_def)
  moreover have "int i \<in> set ?q" if "i < ck_n s" for i
    using lin' H n that by (auto simp: linearization_def numbered_def)
  then have "longest_ok M H (ck_longest s') (ck_seqs s')"
    using l n linearization_partial [OF lin'] by (auto simp: longest_ok_def s'_def)
  ultimately show ?thesis using lin' by blast
qed

section \<open>The loop\<close>

text \<open>\<open>check_inv\<close> is the invariant of the loop, and \<open>c\<close> a bound on the turns to come.\<close>

definition check_inv :: "('v, 's) FilledModel \<Rightarrow> 'v entry list \<Rightarrow> ('v, 's) checker \<Rightarrow> nat \<Rightarrow> bool" where
  "check_inv M H s c \<longleftrightarrow> (\<exists>a. checker_sim M H s a \<and> search_inv M (op_values H) H a \<and> search_cost a = c)"

definition verdict_ok ::
  "('v, 's) FilledModel \<Rightarrow> 'v entry list \<Rightarrow> bool \<Rightarrow> bool \<Rightarrow> nat option list \<Rightarrow> int list list \<Rightarrow> bool" where
  "verdict_ok M H killed b longest seqs \<longleftrightarrow>
     (b \<longrightarrow> linearizable (m_Step M) (m_Init M) H) \<and> (\<not> b \<longrightarrow> \<not> linearizable (m_Step M) (m_Init M) H \<or> killed) \<and>
     longest_ok M H longest seqs"

lemma killed_turn:
  assumes sim: "checker_sim M H s a" and "after a \<noteq> []"
  shows "checkIter M cp True s = Inr (Some False, s)"
proof -
  have ps: "pointer_sim H s a" and head: "ck_head s = length H" using sim by (simp_all add: checker_sim_def)
  obtain e rest where e: "after a = e # rest" using assms(2) by (cases "after a") auto
  from current_entry [OF ps e] obtain as b bs where h: "in_heap H (ck_heap s) (as @ b # bs)" by blast
  have "deref (ck_heap s) (Some (ck_head s)) = Inr (ck_heap s ! ck_head s)" "nd_next (ck_heap s ! ck_head s) \<noteq> None"
    using head_next [OF h] head by (cases as; simp add: next_of_def)+
  then show ?thesis by (simp add: checkIter_def)
qed

lemma unkilled_turn:
  assumes sim: "checker_sim M H s a" and inv: "search_inv M (op_values H) H a" and H: "numbered H"
    and M: "steps_ok M H" and e: "after a = e # rest"
  shows "(\<exists>s' a'. checkIter M cp False s = Inr (None, s') \<and> search_step M (op_values H) a = More a' \<and> checker_sim M H s' a') \<or>
    (checkIter M cp False s = Inr (Some False, s) \<and> search_step M (op_values H) a = Verdict False)"
proof (cases "e_kind e")
  case callEntry
  then show ?thesis using iter_call [OF sim H M e] by blast
next
  case returnEntry
  note turn = return_turn [OF sim e returnEntry, of cp]
  show ?thesis
  proof (cases "frames a")
    case Nil
    then have "search_step M (op_values H) a = Verdict False" using e returnEntry by (simp add: search_step_def)
    then show ?thesis using turn Nil sim_path(5) [OF sim inv H] by simp
  next
    case (Cons f fs)
    obtain pre c post t where f: "f = (pre, c, post, t)" by (cases f)
    from takeBack_sim [OF sim inv H Cons [unfolded f], of cp] obtain s' where s': "takeBack cp s = Inr s'"
      "checker_sim M H s' (a\<lparr>frames := fs, before := pre @ [c], after := post, cur := t\<rparr>)" by blast
    moreover have "search_step M (op_values H) a = More (a\<lparr>frames := fs, before := pre @ [c], after := post, cur := t\<rparr>)"
      using e returnEntry Cons f by (simp add: search_step_def)
    ultimately show ?thesis using turn Cons sim_path(5) [OF sim inv H] by auto
  qed
qed

lemma checkIter_turn:
  assumes "check_inv M H s c" and H: "numbered H" and M: "steps_ok M H" "equal_ok M"
  shows "\<exists>r s'. checkIter M cp k s = Inr (r, s') \<and>
    (case r of None \<Rightarrow> \<exists>c' < c. check_inv M H s' c' | Some b \<Rightarrow> verdict_ok M H k b (ck_longest s') (ck_seqs s'))"
proof -
  obtain a where sim: "checker_sim M H s a" and inv: "search_inv M (op_values H) H a" and c: "search_cost a = c"
    using assms(1) unfolding check_inv_def by blast
  have hist: "history_ok H" using H by (simp add: numbered_def)
  have l: "longest_ok M H (ck_longest s) (ck_seqs s)" using sim by (simp add: checker_sim_def)
  show ?thesis
  proof (cases "after a")
    case Nil
    then show ?thesis
      using finish_turn [OF sim inv H Nil, of cp k] by (auto simp: verdict_ok_def linearizable_def)
  next
    case (Cons e rest)
    show ?thesis
    proof (cases k)
      case True
      then show ?thesis using killed_turn [OF sim, of cp] Cons l by (simp add: verdict_ok_def)
    next
      case False
      from unkilled_turn [OF sim inv H M(1) Cons, of cp] consider
        (more) s' a' where "checkIter M cp False s = Inr (None, s')" "search_step M (op_values H) a = More a'" "checker_sim M H s' a'"
      | (no) "checkIter M cp False s = Inr (Some False, s)" "search_step M (op_values H) a = Verdict False" by blast
      then show ?thesis
      proof cases
        case more
        then have "check_inv M H s' (search_cost a')" using search_inv_step [OF inv M(2) more(2)] unfolding check_inv_def by blast
        moreover have "search_cost a' < c" using search_step_cost [OF inv hist more(2)] c by simp
        ultimately show ?thesis using more(1) False by auto
      next
        case no
        then show ?thesis using search_verdict [OF inv hist no(2)] l False by (simp add: verdict_ok_def)
      qed
    qed
  qed
qed

lemma checkLoop_ends:
  assumes "check_inv M H s c" and H: "numbered H" and M: "steps_ok M H" "equal_ok M"
  shows "\<exists>b s'. checkLoop M cp kill i s = Some (Inr (b, s')) \<and>
    verdict_ok M H (\<exists>j. kill j) b (ck_longest s') (ck_seqs s')"
  using assms(1)
proof (induction c arbitrary: s i rule: less_induct)
  case (less c)
  from checkIter_turn [OF less.prems H M, of cp "kill i"] obtain r s' where r: "checkIter M cp (kill i) s = Inr (r, s')"
    "case r of None \<Rightarrow> \<exists>c' < c. check_inv M H s' c' | Some b \<Rightarrow> verdict_ok M H (kill i) b (ck_longest s') (ck_seqs s')" by blast
  show ?case
  proof (cases r)
    case None
    then obtain c' where "c' < c" "check_inv M H s' c'" using r(2) by auto
    then show ?thesis using less.IH [of c' s' "i + 1"] r(1) None by (simp add: checkLoop.simps [of M cp kill i])
  next
    case (Some b)
    then show ?thesis using r by (auto simp: checkLoop.simps [of M cp kill i] verdict_ok_def)
  qed
qed

lemma map_rev_upt: "map (nth (rev H)) (rev [0..<length H]) = H"
  by (metis length_rev map_nth rev_map rev_rev_ident)

lemma checkStart_ok:
  assumes H: "numbered H"
  shows "\<exists>s. checkStart M H = Some (Inr s) \<and> checker_sim M H s (search_init M H)"
proof -
  from makeLinkedEntries_ok [of H] obtain h root where h: "makeLinkedEntries H = Inr (h, root)"
    "list_of h root (length H)" "\<forall>a < length H. node_of h (rev H) a" by blast
  let ?x = "\<lparr>nd_value = None, nd_match = None, nd_id = -1, nd_next = None, nd_prev = None\<rparr>"
  from list_of_snoc [OF h(2), of ?x] obtain h' where h': "insertBefore (h @ [?x]) (length H) root = Inr h'"
    "list_of h' (Some (length H)) (Suc (length H))" "same_static (h @ [?x]) h'" by auto
  have len: "length h = length H" using h(2) by (simp add: list_of_def)
  have nodes: "nodes_ok H h'"
    using h(3) h'(3) len by (auto simp: nodes_ok_def same_static_def node_of_def nth_append)
  have "dll h' (length H) (rev [0..<length H])" using h'(2) by (simp add: list_of_def)
  then have heap: "in_heap H h' (rev [0..<length H])"
    unfolding in_heap_def map_rev_upt using nodes H by (simp add: numbered_def)
  have root: "root = next_of (rev [0..<length H])"
    using h(2) by (cases "length H") (simp_all add: list_of_def next_of_def)
  define s where "s = \<lparr>ck_heap = h', ck_head = length H, ck_entry = root, ck_n = length H div 2,
    ck_linearized = newBitset (length H div 2), ck_cache = Map.empty, ck_calls = [], ck_state = m_Init M,
    ck_longest = replicate (length H div 2) None, ck_seqs = []\<rparr>"
  have "checkStart M H = Some (Inr s)"
    using h(1) node_length_list [OF h(2)] h'(1) len by (simp add: checkStart_def s_def Let_def)
  moreover have "pointer_sim H s (search_init M H)"
    unfolding pointer_sim_def using heap root map_rev_upt [of H]
    by (intro exI [of _ "[]"] exI [of _ "rev [0..<length H]"]) (simp add: s_def search_init_def)
  ultimately show ?thesis
    by (intro exI [of _ s]) (simp add: checker_sim_def bits_sim_def cache_sim_def longest_ok_def cached_def
        s_def search_init_def room_def newBitset_bits)
qed

lemma checkStart_inv:
  assumes "numbered H"
  shows "\<exists>s c. checkStart M H = Some (Inr s) \<and> check_inv M H s c"
  using checkStart_ok [OF assms, of M] search_inv_init [of M "op_values H" H] unfolding check_inv_def by blast

text \<open>C6: \<^verbatim>\<open>checkSingle\<close> decides linearizability.  For a history in which every operation has one call and a
  later return, numbered from 0, and a model whose steps do not panic on its values and whose equality
  relates states with the same behaviour, the function returns, without a panic; it returns true only
  for a linearizable history, and false only for one that is not or when it was told to stop.  The
  sequence it records for an operation contains the operation and is a legal run of the model that
  respects the order of real time.\<close>

theorem checkSingle_correct:
  assumes "numbered H" and "steps_ok M H" and "equal_ok M"
  shows "\<exists>b longest seqs. checkSingle M H computePartial kill = Some (Inr (b, longest, seqs)) \<and>
    (b \<longrightarrow> linearizable (m_Step M) (m_Init M) H) \<and>
    (\<not> b \<longrightarrow> \<not> linearizable (m_Step M) (m_Init M) H \<or> (\<exists>i. kill i)) \<and>
    length longest = length H div 2 \<and>
    (\<forall>i p. i < length longest \<and> longest ! i = Some p \<longrightarrow>
       p < length seqs \<and> int i \<in> set (seqs ! p) \<and> partial_linearization (m_Step M) (m_Init M) H (seqs ! p))"
proof -
  from checkStart_inv [OF assms(1), of M] obtain s c where s: "checkStart M H = Some (Inr s)" "check_inv M H s c" by blast
  from checkLoop_ends [OF s(2) assms] obtain b s' where
    "checkLoop M computePartial kill 0 s = Some (Inr (b, s'))" "verdict_ok M H (\<exists>j. kill j) b (ck_longest s') (ck_seqs s')" by blast
  then show ?thesis using s(1) by (auto simp: checkSingle_def verdict_ok_def longest_ok_def)
qed

definition ex_echo :: "(nat, unit) FilledModel" where
  "ex_echo = \<lparr>m_Partition = NoPartition, m_PartitionEvent = NoPartitionEvent, m_Init = (),
     m_Step = (\<lambda>s i out. Inr (i = out, s)), m_Equal = ShallowEqual,
     m_DescribeOperation = (\<lambda>i out. Inr []), m_DescribeState = (\<lambda>s. Inr [])\<rparr>"

definition ex_history :: "nat entry list" where
  "ex_history = [\<lparr>e_kind = callEntry, e_value = Some 5, e_id = 0, e_time = 1, e_clientId = 0\<rparr>,
     \<lparr>e_kind = callEntry, e_value = Some 7, e_id = 1, e_time = 2, e_clientId = 1\<rparr>,
     \<lparr>e_kind = returnEntry, e_value = Some 7, e_id = 1, e_time = 3, e_clientId = 1\<rparr>,
     \<lparr>e_kind = returnEntry, e_value = Some 6, e_id = 0, e_time = 4, e_clientId = 0\<rparr>]"

theorem checkSingle_correct_witness:
  "numbered ex_history \<and> steps_ok ex_echo ex_history \<and> equal_ok ex_echo \<and>
   (\<exists>longest seqs. checkSingle ex_echo ex_history True (\<lambda>i. False) = Some (Inr (False, longest, seqs)))"
proof -
  have H: "numbered ex_history"
    by (auto simp: numbered_def history_ok_def ex_history_def call_ids_def return_ids_def)
  have M: "steps_ok ex_echo ex_history" "equal_ok ex_echo"
    by (simp_all add: steps_ok_def ex_echo_def ShallowEqual_ok)
  have v: "op_values ex_history 0 = (Some 5, Some 6)" by (simp add: op_values_def op_value_def ex_history_def)
  have run: "legal_run (m_Step ex_echo) s (map (op_values ex_history) seq) = None" if "0 \<in> set seq" for s seq
    using that by (induction seq arbitrary: s) (auto simp: v, auto simp: ex_echo_def split: bool.split)
  have "\<not> linearizable (m_Step ex_echo) (m_Init ex_echo) ex_history"
    using run H by (auto simp: linearizable_def linearization_def numbered_def ex_history_def)
  then show ?thesis using checkSingle_correct [OF H M, of True "\<lambda>i. False"] H M by auto
qed

end
