(* ===== verification/PC_Entries.thy ===== *)
theory PC_Entries
  imports PC_Correct
begin

text \<open>
  How \<^verbatim>\<open>porcupine/checker.go\<close> turns operations and events into entries: \<^verbatim>\<open>makeEntries\<close> with its sort by
  time, \<^verbatim>\<open>renumber\<close> and \<^verbatim>\<open>convertEntries\<close>.  \<^verbatim>\<open>sort.Sort\<close> is not stable, so its result is any
  permutation in which no later entry is less than an earlier one; \<open>srt\<close> is the choice it makes.
\<close>

section \<open>Operations\<close>

definition byTime_Len :: "'v entry list \<Rightarrow> nat" where
  "byTime_Len a = length a"

definition byTime_Swap :: "'v entry list \<Rightarrow> nat \<Rightarrow> nat \<Rightarrow> 'v entry list" where
  "byTime_Swap a i j = a[i := a ! j, j := a ! i]"

definition byTime_Less :: "'v entry list \<Rightarrow> nat \<Rightarrow> nat \<Rightarrow> bool" where
  "byTime_Less a i j =
     (if e_time (a ! i) \<noteq> e_time (a ! j) then e_time (a ! i) < e_time (a ! j)
      else e_kind (a ! i) = callEntry \<and> e_kind (a ! j) = returnEntry)"

fun makeEntriesLoop :: "int \<Rightarrow> 'v Operation list \<Rightarrow> 'v entry list" where
  "makeEntriesLoop n [] = []"
| "makeEntriesLoop n (elem # history) =
     \<lparr>e_kind = callEntry, e_value = Op_Input elem, e_id = n, e_time = Op_Call elem, e_clientId = Op_ClientId elem\<rparr> #
     \<lparr>e_kind = returnEntry, e_value = Op_Output elem, e_id = n, e_time = Op_Return elem, e_clientId = Op_ClientId elem\<rparr> #
     makeEntriesLoop (n + 1) history"

definition makeEntries :: "('v entry list \<Rightarrow> 'v entry list) \<Rightarrow> 'v Operation list \<Rightarrow> 'v entry list" where
  "makeEntries srt history = srt (makeEntriesLoop 0 history)"

text \<open>What \<^verbatim>\<open>sort.Sort\<close> guarantees.\<close>

definition sorts :: "('v entry list \<Rightarrow> 'v entry list) \<Rightarrow> bool" where
  "sorts srt \<longleftrightarrow> (\<forall>es. mset (srt es) = mset es \<and>
     (\<forall>i j. i < j \<and> j < length (srt es) \<longrightarrow> \<not> byTime_Less (srt es) j i))"

lemma byTime_Swap_mset: "i < length a \<Longrightarrow> j < length a \<Longrightarrow> mset (byTime_Swap a i j) = mset a"
  unfolding byTime_Swap_def by (rule mset_swap)

section \<open>Events\<close>

fun renumberLoop :: "(int \<rightharpoonup> int) \<Rightarrow> int \<Rightarrow> 'v Event list \<Rightarrow> 'v Event list" where
  "renumberLoop m n [] = []"
| "renumberLoop m n (v # events) =
     (case m (Ev_Id v) of
        Some r \<Rightarrow> v\<lparr>Ev_Id := r\<rparr> # renumberLoop m n events
      | None \<Rightarrow> v\<lparr>Ev_Id := n\<rparr> # renumberLoop (m(Ev_Id v \<mapsto> n)) (n + 1) events)"

definition renumber :: "'v Event list \<Rightarrow> 'v Event list" where
  "renumber events = renumberLoop Map.empty 0 events"

fun convertLoop :: "int \<Rightarrow> 'v Event list \<Rightarrow> 'v entry list" where
  "convertLoop i [] = []"
| "convertLoop i (elem # events) =
     (let kind = (if Ev_Kind elem = ReturnEvent then returnEntry else callEntry)
      in \<lparr>e_kind = kind, e_value = Ev_Value elem, e_id = Ev_Id elem, e_time = i, e_clientId = Ev_ClientId elem\<rparr> #
         convertLoop (i + 1) events)"

definition convertEntries :: "'v Event list \<Rightarrow> 'v entry list" where
  "convertEntries events = convertLoop 0 events"

section \<open>Linearizability of operations\<close>

text \<open>Operation \<open>a\<close> precedes \<open>b\<close> if it returned before \<open>b\<close> was called.\<close>

definition ops_linearizable :: "('v, 's) step_fun \<Rightarrow> 's \<Rightarrow> 'v Operation list \<Rightarrow> bool" where
  "ops_linearizable step s ops \<longleftrightarrow> (\<exists>seq. distinct seq \<and> set seq = {0..<int (length ops)} \<and>
     legal_run step s (map (\<lambda>i. (Op_Input (ops ! nat i), Op_Output (ops ! nat i))) seq) \<noteq> None \<and>
     sorted_wrt (\<lambda>a b. \<not> Op_Return (ops ! nat b) < Op_Call (ops ! nat a)) seq)"

definition ops_ok :: "'v Operation list \<Rightarrow> bool" where
  "ops_ok ops \<longleftrightarrow> (\<forall>x \<in> set ops. Op_Call x \<le> Op_Return x)"

lemma entries_of_ops:
  "x \<in> set (makeEntriesLoop k ops) \<longleftrightarrow> (\<exists>i < length ops. e_id x = k + int i \<and> e_clientId x = Op_ClientId (ops ! i) \<and>
     ((e_kind x = callEntry \<and> e_value x = Op_Input (ops ! i) \<and> e_time x = Op_Call (ops ! i)) \<or>
      (e_kind x = returnEntry \<and> e_value x = Op_Output (ops ! i) \<and> e_time x = Op_Return (ops ! i))))"
proof (induction ops arbitrary: k)
  case (Cons y ops)
  let ?P = "\<lambda>i. e_id x = k + int i \<and> e_clientId x = Op_ClientId ((y # ops) ! i) \<and>
     ((e_kind x = callEntry \<and> e_value x = Op_Input ((y # ops) ! i) \<and> e_time x = Op_Call ((y # ops) ! i)) \<or>
      (e_kind x = returnEntry \<and> e_value x = Op_Output ((y # ops) ! i) \<and> e_time x = Op_Return ((y # ops) ! i)))"
  have "(\<exists>i < length (y # ops). ?P i) \<longleftrightarrow> ?P 0 \<or> (\<exists>i < length ops. ?P (Suc i))"
    by (simp only: length_Cons Ex_less_Suc2)
  moreover have "?P 0 \<longleftrightarrow> x = \<lparr>e_kind = callEntry, e_value = Op_Input y, e_id = k, e_time = Op_Call y, e_clientId = Op_ClientId y\<rparr> \<or>
      x = \<lparr>e_kind = returnEntry, e_value = Op_Output y, e_id = k, e_time = Op_Return y, e_clientId = Op_ClientId y\<rparr>"
    by (cases x) auto
  moreover have "(\<exists>i < length ops. ?P (Suc i)) \<longleftrightarrow> x \<in> set (makeEntriesLoop (k + 1) ops)"
    unfolding Cons.IH by (simp add: add.assoc)
  ultimately show ?case by auto
qed simp

lemma entries_ids: "map e_id (filter (\<lambda>e. e_kind e = k) (makeEntriesLoop i ops)) = map (\<lambda>j. i + int j) [0..<length ops]"
proof (induction ops arbitrary: i)
  case (Cons x ops)
  have "map (\<lambda>j. i + int j) [0..<length (x # ops)] = i # map (\<lambda>j. i + 1 + int j) [0..<length ops]"
    unfolding length_Cons upt_conv_Cons [OF zero_less_Suc] map_Suc_upt [symmetric] by (simp add: comp_def add.assoc)
  then show ?case using Cons.IH [of "i + 1"] by (cases k) simp_all
qed simp

lemma entries_call_ids: "call_ids (makeEntriesLoop 0 ops) = map int [0..<length ops]"
  "return_ids (makeEntriesLoop 0 ops) = map int [0..<length ops]"
  by (simp_all add: call_ids_def return_ids_def entries_ids)

lemma sorts_less:
  assumes "sorts srt" and "srt es = xs @ a # ys @ b # zs"
  shows "e_time a < e_time b \<or> (e_time a = e_time b \<and> \<not> (is_return a \<and> is_call b))"
proof -
  let ?i = "length xs" and ?j = "length xs + Suc (length ys)"
  have "(srt es) ! ?i = a" "(srt es) ! ?j = b" "?j < length (srt es)" unfolding assms(2) by (simp_all add: nth_append)
  moreover have "\<not> byTime_Less (srt es) ?j ?i" using assms(1) calculation(3) unfolding sorts_def by auto
  ultimately show ?thesis by (auto simp: byTime_Less_def split: if_splits)
qed

lemma sorted_wrt_splits: "(\<And>xs a ys b zs. H = xs @ a # ys @ b # zs \<Longrightarrow> P a b) \<Longrightarrow> sorted_wrt P H"
proof (induction H)
  case (Cons x H)
  have "P x b" if "b \<in> set H" for b
  proof -
    obtain ys zs where "H = ys @ b # zs" using \<open>b \<in> set H\<close> by (meson split_list)
    then show ?thesis using Cons.prems [of "[]" x ys b zs] by simp
  qed
  moreover have "sorted_wrt P H"
  proof (rule Cons.IH)
    fix xs a ys b zs assume "H = xs @ a # ys @ b # zs"
    then show "P a b" using Cons.prems [of "x # xs" a ys b zs] by simp
  qed
  ultimately show ?case by simp
qed simp

lemma mset_call_ids: "mset H = mset H' \<Longrightarrow> mset (call_ids H) = mset (call_ids H') \<and> mset (return_ids H) = mset (return_ids H')"
  by (simp add: call_ids_def return_ids_def)

lemma makeEntries_mset: "sorts srt \<Longrightarrow> mset (makeEntries srt ops) = mset (makeEntriesLoop 0 ops)"
  by (simp add: sorts_def makeEntries_def)

lemma makeEntries_set: "sorts srt \<Longrightarrow> set (makeEntries srt ops) = set (makeEntriesLoop 0 ops)"
  using makeEntries_mset mset_eq_setD by blast

lemma makeEntries_ids:
  assumes "sorts srt"
  shows "set (call_ids (makeEntries srt ops)) = {0..<int (length ops)}" "distinct (call_ids (makeEntries srt ops))"
    "set (return_ids (makeEntries srt ops)) = {0..<int (length ops)}" "distinct (return_ids (makeEntries srt ops))"
    "length (makeEntries srt ops) = 2 * length ops"
proof -
  note m = mset_call_ids [OF makeEntries_mset [OF assms], of ops, unfolded entries_call_ids]
  have s: "set (map int [0..<length ops]) = {0..<int (length ops)}" "distinct (map int [0..<length ops])"
    by (auto simp: distinct_map image_int_atLeastLessThan)
  show "set (call_ids (makeEntries srt ops)) = {0..<int (length ops)}" "set (return_ids (makeEntries srt ops)) = {0..<int (length ops)}"
    using m s(1) by (metis mset_eq_setD)+
  show "distinct (call_ids (makeEntries srt ops))" "distinct (return_ids (makeEntries srt ops))"
    using m s(2) by (metis mset_eq_imp_distinct_iff)+
  have "length (makeEntriesLoop k ops) = 2 * length ops" for k by (induction ops arbitrary: k) simp_all
  then show "length (makeEntries srt ops) = 2 * length ops" using makeEntries_mset [OF assms, of ops] by (metis size_mset)
qed

lemma makeEntries_entry:
  assumes "sorts srt" and "x \<in> set (makeEntries srt ops)"
  shows "0 \<le> e_id x" "nat (e_id x) < length ops"
    "is_call x \<Longrightarrow> e_time x = Op_Call (ops ! nat (e_id x)) \<and> e_value x = Op_Input (ops ! nat (e_id x))"
    "is_return x \<Longrightarrow> e_time x = Op_Return (ops ! nat (e_id x)) \<and> e_value x = Op_Output (ops ! nat (e_id x))"
  using assms(2) unfolding makeEntries_set [OF assms(1)] entries_of_ops by auto

lemma makeEntries_has:
  assumes "sorts srt" and "i \<in> {0..<int (length ops)}"
  shows "\<exists>c \<in> set (makeEntries srt ops). is_call c \<and> e_id c = i"
    "\<exists>r \<in> set (makeEntries srt ops). is_return r \<and> e_id r = i"
  unfolding set_call_ids [symmetric] set_return_ids [symmetric] makeEntries_ids [OF assms(1)] by (fact assms(2))+

lemma makeEntries_numbered:
  assumes "sorts srt" and "ops_ok ops"
  shows "numbered (makeEntries srt ops)"
proof -
  let ?H = "makeEntries srt ops"
  note ids = makeEntries_ids [OF assms(1), of ops]
  have "\<not> (is_return a \<and> is_call b \<and> e_id a = e_id b)" if "?H = xs @ a # ys @ b # zs" for xs a ys b zs
  proof
    assume ab: "is_return a \<and> is_call b \<and> e_id a = e_id b"
    have mem: "a \<in> set ?H" "b \<in> set ?H" using that by simp_all
    have t: "e_time a < e_time b" using sorts_less [OF assms(1) that [unfolded makeEntries_def]] ab by blast
    have "e_time b = Op_Call (ops ! nat (e_id a))" "e_time a = Op_Return (ops ! nat (e_id a))"
      using makeEntries_entry [OF assms(1) mem(1)] makeEntries_entry [OF assms(1) mem(2)] ab by simp_all
    moreover have "ops ! nat (e_id a) \<in> set ops" using makeEntries_entry(2) [OF assms(1) mem(1)] by simp
    ultimately show False using assms(2) t by (auto simp: ops_ok_def)
  qed
  then have "sorted_wrt (\<lambda>a b. \<not> (is_return a \<and> is_call b \<and> e_id a = e_id b)) ?H"
    by (rule sorted_wrt_splits)
  then show ?thesis using ids by (simp add: numbered_def history_ok_def)
qed

lemma makeEntries_prec:
  assumes "sorts srt" and "a \<in> {0..<int (length ops)}" and "b \<in> {0..<int (length ops)}"
  shows "prec (makeEntries srt ops) a b \<longleftrightarrow> Op_Return (ops ! nat a) < Op_Call (ops ! nat b)"
proof
  let ?H = "makeEntries srt ops"
  assume "prec ?H a b"
  then obtain xs r ys c zs where H: "?H = xs @ r # ys @ c # zs" "is_return r" "e_id r = a" "is_call c" "e_id c = b"
    unfolding prec_def by blast
  then have "r \<in> set ?H" "c \<in> set ?H" by simp_all
  then have "e_time r = Op_Return (ops ! nat a)" "e_time c = Op_Call (ops ! nat b)"
    using makeEntries_entry [OF assms(1)] H(2-5) by blast+
  then show "Op_Return (ops ! nat a) < Op_Call (ops ! nat b)"
    using sorts_less [OF assms(1) H(1) [unfolded makeEntries_def]] H(2,4) by auto
next
  let ?H = "makeEntries srt ops"
  assume lt: "Op_Return (ops ! nat a) < Op_Call (ops ! nat b)"
  obtain r c where rc: "r \<in> set ?H" "is_return r" "e_id r = a" "c \<in> set ?H" "is_call c" "e_id c = b"
    using makeEntries_has(2) [OF assms(1,2)] makeEntries_has(1) [OF assms(1,3)] by auto
  have t: "e_time r = Op_Return (ops ! nat a)" "e_time c = Op_Call (ops ! nat b)"
    using makeEntries_entry [OF assms(1) rc(1)] makeEntries_entry [OF assms(1) rc(4)] rc by simp_all
  obtain xs ys where H: "?H = xs @ r # ys" using rc(1) by (meson split_list)
  then consider "c \<in> set xs" | "c \<in> set ys" using rc by auto
  then show "prec ?H a b"
  proof cases
    case 1
    then obtain us vs where "xs = us @ c # vs" by (meson split_list)
    then have "srt (makeEntriesLoop 0 ops) = us @ c # vs @ r # ys" using H by (simp add: makeEntries_def)
    from sorts_less [OF assms(1) this] t lt show ?thesis by auto
  next
    case 2
    then obtain us vs where "ys = us @ c # vs" by (meson split_list)
    then have "?H = xs @ r # us @ c # vs" using H by simp
    then show ?thesis unfolding prec_def using rc by blast
  qed
qed

lemma makeEntries_values:
  assumes "sorts srt" and "i \<in> {0..<int (length ops)}"
  shows "op_values (makeEntries srt ops) i = (Op_Input (ops ! nat i), Op_Output (ops ! nat i))"
proof -
  let ?H = "makeEntries srt ops"
  have v: "op_value ?H k i = e_value x" if x: "x \<in> set ?H" "e_kind x = k" "e_id x = i"
    and u: "\<And>y. y \<in> set ?H \<Longrightarrow> e_kind y = k \<Longrightarrow> e_id y = i \<Longrightarrow> e_value y = e_value x" for k x
  proof -
    obtain f where f: "find (\<lambda>e. e_kind e = k \<and> e_id e = i) ?H = Some f"
      using x by (cases "find (\<lambda>e. e_kind e = k \<and> e_id e = i) ?H") (auto simp: find_None_iff)
    then have "f \<in> set ?H" "e_kind f = k" "e_id f = i" by (auto simp: find_Some_iff)
    then show ?thesis using f u by (simp add: op_value_def)
  qed
  obtain c r where cr: "c \<in> set ?H" "is_call c" "e_id c = i" "r \<in> set ?H" "is_return r" "e_id r = i"
    using makeEntries_has [OF assms] by auto
  have "op_value ?H callEntry i = Op_Input (ops ! nat i)"
    using v [OF cr(1-3)] makeEntries_entry(3) [OF assms(1)] cr by (metis (no_types, lifting))
  moreover have "op_value ?H returnEntry i = Op_Output (ops ! nat i)"
    using v [OF cr(4-6)] makeEntries_entry(4) [OF assms(1)] cr by (metis (no_types, lifting))
  ultimately show ?thesis by (simp add: op_values_def)
qed

lemma makeEntries_linearizable:
  assumes "sorts srt"
  shows "linearizable step s (makeEntries srt ops) \<longleftrightarrow> ops_linearizable step s ops"
proof -
  have "linearization step s (makeEntries srt ops) seq \<longleftrightarrow> distinct seq \<and> set seq = {0..<int (length ops)} \<and>
     legal_run step s (map (\<lambda>i. (Op_Input (ops ! nat i), Op_Output (ops ! nat i))) seq) \<noteq> None \<and>
     sorted_wrt (\<lambda>a b. \<not> Op_Return (ops ! nat b) < Op_Call (ops ! nat a)) seq" for seq
  proof (cases "set seq = {0..<int (length ops)}")
    case True
    then have "map (op_values (makeEntries srt ops)) seq = map (\<lambda>i. (Op_Input (ops ! nat i), Op_Output (ops ! nat i))) seq"
      using makeEntries_values [OF assms] by (intro map_cong) auto
    moreover have "sorted_wrt (\<lambda>a b. \<not> prec (makeEntries srt ops) b a) seq \<longleftrightarrow>
        sorted_wrt (\<lambda>a b. \<not> Op_Return (ops ! nat b) < Op_Call (ops ! nat a)) seq"
      using makeEntries_prec [OF assms] True by (intro iffI; elim sorted_wrt_mono_rel [rotated]) blast+
    ultimately show ?thesis unfolding linearization_def makeEntries_ids(1) [OF assms] by (simp only:)
  qed (simp add: linearization_def makeEntries_ids(1) [OF assms])
  then show ?thesis by (simp add: linearizable_def ops_linearizable_def)
qed

section \<open>Renumbering\<close>

definition rename :: "(int \<Rightarrow> int) \<Rightarrow> 'v entry list \<Rightarrow> 'v entry list" where
  "rename f H = map (\<lambda>e. e\<lparr>e_id := f (e_id e)\<rparr>) H"

lemma renumberLoop_map:
  assumes "inj_on m (dom m)" and "ran m = {0..<n}" and "0 \<le> n"
  shows "\<exists>m' k. m \<subseteq>\<^sub>m m' \<and> dom m' = dom m \<union> Ev_Id ` set evs \<and> inj_on m' (dom m') \<and> ran m' = {0..<k} \<and>
    renumberLoop m n evs = map (\<lambda>e. e\<lparr>Ev_Id := the (m' (Ev_Id e))\<rparr>) evs"
  using assms
proof (induction evs arbitrary: m n)
  case Nil
  then show ?case by (intro exI [of _ m] exI [of _ n]) simp
next
  case (Cons v evs)
  show ?case
  proof (cases "m (Ev_Id v)")
    case (Some r)
    from Cons.IH [OF Cons.prems] obtain m' k where m': "m \<subseteq>\<^sub>m m'" "dom m' = dom m \<union> Ev_Id ` set evs"
      "inj_on m' (dom m')" "ran m' = {0..<k}" "renumberLoop m n evs = map (\<lambda>e. e\<lparr>Ev_Id := the (m' (Ev_Id e))\<rparr>) evs" by blast
    have "m' (Ev_Id v) = Some r" using m'(1) Some by (simp add: map_le_def domIff) (metis domI)
    then show ?thesis using m' Some by (intro exI [of _ m'] exI [of _ k]) (auto simp: domI)
  next
    case None
    let ?m = "m(Ev_Id v \<mapsto> n)"
    have "m x \<noteq> Some n" for x using Cons.prems(2) ranI [of m x n] by auto
    then have i: "inj_on ?m (dom ?m)" using Cons.prems(1) None by (auto simp: inj_on_def dom_def)
    have r: "ran ?m = {0..<n + 1}" using Cons.prems(2,3) None by (auto simp: ran_map_upd)
    have "0 \<le> n + 1" using Cons.prems(3) by simp
    from Cons.IH [OF i r this] obtain m' k where m': "?m \<subseteq>\<^sub>m m'" "dom m' = dom ?m \<union> Ev_Id ` set evs"
      "inj_on m' (dom m')" "ran m' = {0..<k}" "renumberLoop ?m (n + 1) evs = map (\<lambda>e. e\<lparr>Ev_Id := the (m' (Ev_Id e))\<rparr>) evs"
      by blast
    have "m' (Ev_Id v) = Some n" using m'(1) by (simp add: map_le_def)
    moreover have "m \<subseteq>\<^sub>m m'" by (rule map_le_trans [OF _ m'(1)]) (use None in \<open>auto simp: map_le_def\<close>)
    ultimately show ?thesis using m' None by (intro exI [of _ m'] exI [of _ k]) auto
  qed
qed

lemma convertLoop_map: "convertLoop i (map (\<lambda>e. e\<lparr>Ev_Id := f (Ev_Id e)\<rparr>) evs) = rename f (convertLoop i evs)"
  by (induction evs arbitrary: i) (simp_all add: rename_def Let_def)

lemma convertLoop_ids: "e_id ` set (convertLoop i evs) = Ev_Id ` set evs"
  by (induction evs arbitrary: i) (simp_all add: Let_def)

lemma renumber_rename:
  "\<exists>f k. inj_on f (e_id ` set (convertEntries evs)) \<and> f ` e_id ` set (convertEntries evs) = {0..<k} \<and>
     convertEntries (renumber evs) = rename f (convertEntries evs)"
proof -
  from renumberLoop_map [of Map.empty 0 evs] obtain m k where m: "dom m = Ev_Id ` set evs" "inj_on m (dom m)" "ran m = {0..<k}"
    "renumber evs = map (\<lambda>e. e\<lparr>Ev_Id := the (m (Ev_Id e))\<rparr>) evs" by (auto simp: renumber_def)
  let ?f = "\<lambda>i. the (m i)"
  have ids: "e_id ` set (convertEntries evs) = dom m" by (simp add: convertEntries_def convertLoop_ids m(1))
  have "inj_on ?f (dom m)" using m(2) by (auto simp: inj_on_def dom_def)
  moreover have "?f ` dom m = {0..<k}" unfolding m(3) [symmetric] by (force simp: ran_def dom_def)
  moreover have "convertEntries (renumber evs) = rename ?f (convertEntries evs)"
    unfolding convertEntries_def m(4) by (rule convertLoop_map)
  ultimately show ?thesis unfolding ids by blast
qed

lemma rename_ids: "call_ids (rename f H) = map f (call_ids H)" "return_ids (rename f H) = map f (return_ids H)"
  by (simp_all add: rename_def call_ids_def return_ids_def filter_map comp_def)

lemma rename_split:
  assumes "rename f H = xs @ r # zs"
  shows "\<exists>xs' r' zs'. H = xs' @ r' # zs' \<and> r = r'\<lparr>e_id := f (e_id r')\<rparr> \<and> zs = rename f zs' \<and> xs = rename f xs'"
  using assms unfolding rename_def map_eq_append_conv Cons_eq_map_conv map_eq_Cons_conv by blast

lemma rename_prec:
  assumes f: "inj_on f (e_id ` set H)" and ab: "a \<in> e_id ` set H" "b \<in> e_id ` set H"
  shows "prec (rename f H) (f a) (f b) \<longleftrightarrow> prec H a b"
proof
  assume "prec (rename f H) (f a) (f b)"
  then obtain xs r ys c zs where H: "rename f H = xs @ r # ys @ c # zs" "is_return r" "e_id r = f a" "is_call c" "e_id c = f b"
    unfolding prec_def by blast
  from rename_split [OF H(1)] obtain xs' r' H' where H': "H = xs' @ r' # H'" "r = r'\<lparr>e_id := f (e_id r')\<rparr>" "rename f H' = ys @ c # zs" by metis
  from rename_split [OF H'(3)] obtain ys' c' zs' where H'': "H' = ys' @ c' # zs'" "c = c'\<lparr>e_id := f (e_id c')\<rparr>" by blast
  have mem: "r' \<in> set H" "c' \<in> set H" using H'(1) H''(1) by simp_all
  have "e_id r' = a" "e_id c' = b" using inj_onD [OF f] H(3,5) H'(2) H''(2) mem ab by auto
  moreover have "is_return r'" "is_call c'" using H(2,4) H'(2) H''(2) by simp_all
  ultimately show "prec H a b" unfolding prec_def using H'(1) H''(1) by blast
next
  assume "prec H a b"
  then obtain xs r ys c zs where H: "H = xs @ r # ys @ c # zs" "is_return r" "e_id r = a" "is_call c" "e_id c = b"
    unfolding prec_def by blast
  have "rename f H = rename f xs @ r\<lparr>e_id := f a\<rparr> # rename f ys @ c\<lparr>e_id := f b\<rparr> # rename f zs"
    using H by (simp add: rename_def)
  then show "prec (rename f H) (f a) (f b)"
    unfolding prec_def using H(2,4)
    by (intro exI [of _ "rename f xs"] exI [of _ "r\<lparr>e_id := f a\<rparr>"] exI [of _ "rename f ys"]
        exI [of _ "c\<lparr>e_id := f b\<rparr>"] exI [of _ "rename f zs"]) simp
qed

lemma rename_values:
  assumes f: "inj_on f (e_id ` set H)" and i: "i \<in> e_id ` set H"
  shows "op_values (rename f H) (f i) = op_values H i"
proof -
  have "find (\<lambda>e. e_kind e = k \<and> e_id e = f i) (rename f L) =
      map_option (\<lambda>e. e\<lparr>e_id := f (e_id e)\<rparr>) (find (\<lambda>e. e_kind e = k \<and> e_id e = i) L)" if "set L \<subseteq> set H" for k L
    using that
  proof (induction L)
    case (Cons x L)
    have "f (e_id x) = f i \<longleftrightarrow> e_id x = i" using inj_onD [OF f, of "e_id x" i] i Cons.prems by auto
    then show ?case using Cons by (simp add: rename_def)
  qed (simp add: rename_def)
  then show ?thesis by (simp add: op_values_def op_value_def split: option.split)
qed

lemma rename_history_ok:
  assumes "inj_on f (e_id ` set H)" and "history_ok H"
  shows "history_ok (rename f H)"
proof -
  have ids: "set (call_ids H) \<subseteq> e_id ` set H" "set (return_ids H) \<subseteq> e_id ` set H" by (auto simp: call_ids_def return_ids_def)
  have "sorted_wrt (\<lambda>a b. \<not> (is_return a \<and> is_call b \<and> e_id a = e_id b)) (rename f H)"
    unfolding rename_def sorted_wrt_map
  proof (rule sorted_wrt_mono_rel [rotated])
    show "sorted_wrt (\<lambda>a b. \<not> (is_return a \<and> is_call b \<and> e_id a = e_id b)) H" using assms(2) by (simp add: history_ok_def)
    fix a b assume "a \<in> set H" "b \<in> set H" "\<not> (is_return a \<and> is_call b \<and> e_id a = e_id b)"
    then show "\<not> (is_return (a\<lparr>e_id := f (e_id a)\<rparr>) \<and> is_call (b\<lparr>e_id := f (e_id b)\<rparr>) \<and>
        e_id (a\<lparr>e_id := f (e_id a)\<rparr>) = e_id (b\<lparr>e_id := f (e_id b)\<rparr>))"
      using inj_onD [OF assms(1), of "e_id a" "e_id b"] by auto
  qed
  then show ?thesis
    using assms(2) inj_on_subset [OF assms(1) ids(1)] inj_on_subset [OF assms(1) ids(2)]
    by (simp add: history_ok_def rename_ids distinct_map)
qed

lemma rename_linearization:
  assumes f: "inj_on f (e_id ` set H)" and seq: "set seq \<subseteq> e_id ` set H"
  shows "linearization step s (rename f H) (map f seq) \<longleftrightarrow> linearization step s H seq"
proof -
  have ids: "set (call_ids H) \<subseteq> e_id ` set H" by (auto simp: call_ids_def)
  have "map (op_values (rename f H)) (map f seq) = map (op_values H) seq"
    using rename_values [OF f] seq by (simp add: subset_iff)
  moreover have "sorted_wrt (\<lambda>a b. \<not> prec (rename f H) b a) (map f seq) \<longleftrightarrow> sorted_wrt (\<lambda>a b. \<not> prec H b a) seq"
  proof -
    have p: "prec (rename f H) (f b) (f a) \<longleftrightarrow> prec H b a" if "a \<in> set seq" "b \<in> set seq" for a b
      using rename_prec [OF f] seq that by (meson subsetD)
    show ?thesis unfolding sorted_wrt_map by (intro iffI; elim sorted_wrt_mono_rel [rotated]) (simp_all add: p)
  qed
  moreover have "distinct (map f seq) \<longleftrightarrow> distinct seq" using inj_on_subset [OF f seq] by (simp add: distinct_map)
  moreover have "set (map f seq) = set (call_ids (rename f H)) \<longleftrightarrow> set seq = set (call_ids H)"
    unfolding rename_ids set_map using inj_on_image_eq_iff [OF f seq ids] .
  ultimately show ?thesis unfolding linearization_def by (simp only:)
qed

lemma rename_linearizable:
  assumes f: "inj_on f (e_id ` set H)"
  shows "linearizable step s (rename f H) \<longleftrightarrow> linearizable step s H"
proof
  assume "linearizable step s (rename f H)"
  then obtain q where q: "linearization step s (rename f H) q" by (auto simp: linearizable_def)
  then have "set q = f ` set (call_ids H)" by (simp add: linearization_def rename_ids)
  then have "q \<in> lists (f ` set (call_ids H))" by auto
  then obtain seq where seq: "q = map f seq" "set seq \<subseteq> set (call_ids H)" unfolding lists_image by auto
  have "set seq \<subseteq> e_id ` set H" using seq(2) by (auto simp: call_ids_def)
  from rename_linearization [OF f this, of step s] q seq(1) have "linearization step s H seq" by simp
  then show "linearizable step s H" by (auto simp: linearizable_def)
next
  assume "linearizable step s H"
  then obtain seq where seq: "linearization step s H seq" by (auto simp: linearizable_def)
  then have "set seq \<subseteq> e_id ` set H" by (auto simp: linearization_def call_ids_def)
  from rename_linearization [OF f this, of step s] seq have "linearization step s (rename f H) (map f seq)" by simp
  then show "linearizable step s (rename f H)" unfolding linearizable_def by (rule exI)
qed

definition events_ok :: "'v Event list \<Rightarrow> bool" where
  "events_ok evs \<longleftrightarrow> history_ok (convertEntries evs)"

lemma renumber_numbered:
  assumes "events_ok evs"
  shows "numbered (convertEntries (renumber evs))"
proof -
  let ?H = "convertEntries evs"
  have H: "history_ok ?H" using assms by (simp add: events_ok_def)
  from renumber_rename [of evs] obtain f k where f: "inj_on f (e_id ` set ?H)" "f ` e_id ` set ?H = {0..<k}"
    "convertEntries (renumber evs) = rename f ?H" by blast
  have ids: "set (call_ids ?H) = e_id ` set ?H" using history_ok_ids [OF H] by (auto simp: call_ids_def)
  have "length (filter is_call ?H) + length (filter is_return ?H) = length ?H"
    using sum_length_filter_compl [of is_call ?H] by simp
  moreover have "length (call_ids ?H) = card (set (call_ids ?H))" "length (return_ids ?H) = card (set (call_ids ?H))"
    using H distinct_card by (metis history_ok_def)+
  ultimately have "card (e_id ` set ?H) = length ?H div 2" unfolding ids by (simp add: call_ids_def return_ids_def)
  moreover have "card {0..<k} = card (e_id ` set ?H)" unfolding f(2) [symmetric] by (rule card_image [OF f(1)])
  ultimately have "{0..<k} = {0..<int (length ?H div 2)}" by (cases "0 \<le> k") auto
  then show ?thesis
    unfolding numbered_def f(3) rename_ids set_map ids f(2) using rename_history_ok [OF f(1) H] by (simp add: rename_def)
qed

lemma renumber_linearizable: "linearizable step s (convertEntries (renumber evs)) \<longleftrightarrow> linearizable step s (convertEntries evs)"
  using renumber_rename [of evs] rename_linearizable by metis

text \<open>C29: renumbering the events of a history keeps what is asked of it.  When every operation has one call event
  and a later return event, \<^verbatim>\<open>renumber\<close> followed by \<^verbatim>\<open>convertEntries\<close> gives entries numbered from 0
  without gaps, each operation with one call and a later return, and that history is linearizable
  exactly when the one with the original ids is.\<close>

theorem renumber_equivalent:
  assumes "events_ok evs"
  shows "numbered (convertEntries (renumber evs)) \<and>
    (linearizable step s (convertEntries (renumber evs)) \<longleftrightarrow> linearizable step s (convertEntries evs))"
  by (intro conjI renumber_numbered [OF assms] renumber_linearizable)

definition ex_events :: "nat Event list" where
  "ex_events = [\<lparr>Ev_ClientId = 0, Ev_Kind = CallEvent, Ev_Value = Some 5, Ev_Id = 17\<rparr>,
     \<lparr>Ev_ClientId = 1, Ev_Kind = CallEvent, Ev_Value = Some 6, Ev_Id = 4\<rparr>,
     \<lparr>Ev_ClientId = 1, Ev_Kind = ReturnEvent, Ev_Value = Some 6, Ev_Id = 4\<rparr>,
     \<lparr>Ev_ClientId = 0, Ev_Kind = ReturnEvent, Ev_Value = Some 7, Ev_Id = 17\<rparr>]"

theorem renumber_equivalent_witness:
  "events_ok ex_events \<and> numbered (convertEntries (renumber ex_events)) \<and>
   map e_id (convertEntries (renumber ex_events)) = [0, 1, 1, 0]"
proof -
  have ok: "events_ok ex_events"
    by (auto simp: events_ok_def history_ok_def ex_events_def convertEntries_def call_ids_def return_ids_def)
  have "map e_id (convertEntries (renumber ex_events)) = [0, 1, 1, 0]"
    by (simp add: ex_events_def renumber_def convertEntries_def)
  then show ?thesis using ok renumber_equivalent [OF ok, of "m_Step ex_echo" "()"] by simp
qed

end
