(* ===== verification/PC_Parallel.thy ===== *)
theory PC_Parallel
  imports PC_Entries
begin

text \<open>
  \<^verbatim>\<open>checkParallel\<close> of \<^verbatim>\<open>porcupine/checker.go\<close>: one goroutine per partition, which runs \<^verbatim>\<open>checkSingle\<close>
  and sends its verdict on a buffered channel, and the main goroutine, which receives the verdicts
  until one is negative, all have come, or the timer fires.  The goroutines interleave turn by turn;
  in each turn of its loop a checker reads the shared flag \<^verbatim>\<open>kill\<close>.  A panic in a goroutine ends the
  program (\<open>Crashed\<close>).
\<close>

section \<open>State and steps\<close>

datatype ('v, 's) thread =
    Starting "'v entry list"
  | Running "('v, 's) checker"
  | Finished bool "nat option list" "int list list"

datatype main_phase =
    Waiting nat bool
  | Draining nat bool bool
  | Returned CheckResult "int list list list option"
  | Crashed go_panic

record ('v, 's) par =
  pr_threads :: "('v, 's) thread list"
  pr_results :: "bool list"
  pr_kill :: bool
  pr_main :: main_phase

definition par_init :: "'v entry list list \<Rightarrow> ('v, 's) par" where
  "par_init history = \<lparr>pr_threads = map Starting history, pr_results = [], pr_kill = False, pr_main = Waiting 0 True\<rparr>"

text \<open>The verdict, from whether every result received was positive and whether the timer fired.\<close>

definition checkVerdict :: "bool \<Rightarrow> bool \<Rightarrow> CheckResult" where
  "checkVerdict ok timedOut = (if \<not> ok then Illegal else if timedOut then Unknown else Ok)"

text \<open>What follows the loop over the results.\<close>

definition afterLoop :: "bool \<Rightarrow> nat \<Rightarrow> bool \<Rightarrow> bool \<Rightarrow> main_phase" where
  "afterLoop computeInfo cnt ok timedOut =
     (if computeInfo then Draining cnt ok timedOut else Returned (checkVerdict ok timedOut) None)"

text \<open>One result received in the loop.\<close>

definition receiveResult :: "bool \<Rightarrow> nat \<Rightarrow> bool \<Rightarrow> bool \<Rightarrow> bool list \<Rightarrow> ('v, 's) par \<Rightarrow> ('v, 's) par" where
  "receiveResult computeInfo cnt ok result rest S =
     (let S = S\<lparr>pr_results := rest\<rparr>;
          cnt = cnt + 1;
          ok = (ok \<and> result)
      in if \<not> ok \<and> \<not> computeInfo then S\<lparr>pr_kill := True, pr_main := afterLoop computeInfo cnt ok False\<rparr>
         else if cnt \<ge> length (pr_threads S) then S\<lparr>pr_main := afterLoop computeInfo cnt ok False\<rparr>
         else S\<lparr>pr_main := Waiting cnt ok\<rparr>)"

text \<open>The distinct sequences of a partition, in the order \<open>ks\<close> in which the range loop visits the set of
  pointers.\<close>

definition partials :: "('v, 's) thread \<Rightarrow> nat list \<Rightarrow> int list list \<Rightarrow> bool" where
  "partials th ks pl \<longleftrightarrow> (\<exists>b longest seqs. th = Finished b longest seqs \<and>
     distinct ks \<and> set ks = {p. Some p \<in> set longest} \<and> pl = map (\<lambda>p. seqs ! p) ks)"

inductive par_step :: "('v, 's) FilledModel \<Rightarrow> bool \<Rightarrow> int \<Rightarrow> ('v, 's) par \<Rightarrow> ('v, 's) par \<Rightarrow> bool"
  for M computeInfo timeout where
  start:
    "i < length (pr_threads S) \<Longrightarrow> pr_threads S ! i = Starting h \<Longrightarrow> checkStart M h = Some (Inr s) \<Longrightarrow>
     par_step M computeInfo timeout S (S\<lparr>pr_threads := (pr_threads S)[i := Running s]\<rparr>)"
| start_panic:
    "i < length (pr_threads S) \<Longrightarrow> pr_threads S ! i = Starting h \<Longrightarrow> checkStart M h = Some (Inl p) \<Longrightarrow>
     par_step M computeInfo timeout S (S\<lparr>pr_main := Crashed p\<rparr>)"
| turn:
    "i < length (pr_threads S) \<Longrightarrow> pr_threads S ! i = Running s \<Longrightarrow>
     checkIter M computeInfo (pr_kill S) s = Inr (None, s') \<Longrightarrow>
     par_step M computeInfo timeout S (S\<lparr>pr_threads := (pr_threads S)[i := Running s']\<rparr>)"
| send:
    "i < length (pr_threads S) \<Longrightarrow> pr_threads S ! i = Running s \<Longrightarrow>
     checkIter M computeInfo (pr_kill S) s = Inr (Some b, s') \<Longrightarrow>
     par_step M computeInfo timeout S
       (S\<lparr>pr_threads := (pr_threads S)[i := Finished b (ck_longest s') (ck_seqs s')], pr_results := pr_results S @ [b]\<rparr>)"
| turn_panic:
    "i < length (pr_threads S) \<Longrightarrow> pr_threads S ! i = Running s \<Longrightarrow>
     checkIter M computeInfo (pr_kill S) s = Inl p \<Longrightarrow> par_step M computeInfo timeout S (S\<lparr>pr_main := Crashed p\<rparr>)"
| receive:
    "pr_main S = Waiting cnt ok \<Longrightarrow> pr_results S = result # rest \<Longrightarrow>
     par_step M computeInfo timeout S (receiveResult computeInfo cnt ok result rest S)"
| timer:
    "pr_main S = Waiting cnt ok \<Longrightarrow> 0 < timeout \<Longrightarrow>
     par_step M computeInfo timeout S (S\<lparr>pr_kill := True, pr_main := afterLoop computeInfo cnt ok True\<rparr>)"
| drain:
    "pr_main S = Draining cnt ok timedOut \<Longrightarrow> cnt < length (pr_threads S) \<Longrightarrow> pr_results S = result # rest \<Longrightarrow>
     par_step M computeInfo timeout S (S\<lparr>pr_results := rest, pr_main := Draining (cnt + 1) ok timedOut\<rparr>)"
| collect:
    "pr_main S = Draining cnt ok timedOut \<Longrightarrow> \<not> cnt < length (pr_threads S) \<Longrightarrow>
     length info = length (pr_threads S) \<Longrightarrow>
     (\<forall>i < length info. \<exists>ks. partials (pr_threads S ! i) ks (info ! i)) \<Longrightarrow>
     par_step M computeInfo timeout S (S\<lparr>pr_main := Returned (checkVerdict ok timedOut) (Some info)\<rparr>)"

inductive par_reach :: "('v, 's) FilledModel \<Rightarrow> bool \<Rightarrow> int \<Rightarrow> 'v entry list list \<Rightarrow> ('v, 's) par \<Rightarrow> bool"
  for M computeInfo timeout history where
  init: "par_reach M computeInfo timeout history (par_init history)"
| step: "par_reach M computeInfo timeout history S \<Longrightarrow> par_step M computeInfo timeout S S' \<Longrightarrow>
     par_reach M computeInfo timeout history S'"

text \<open>\<open>checkParallel\<close> may return \<open>res\<close> and the partial linearizations \<open>info\<close>.\<close>

definition checkParallel ::
  "('v, 's) FilledModel \<Rightarrow> 'v entry list list \<Rightarrow> bool \<Rightarrow> int \<Rightarrow> CheckResult \<Rightarrow> int list list list option \<Rightarrow> bool" where
  "checkParallel M history computeInfo timeout res info \<longleftrightarrow>
     (\<exists>S. par_reach M computeInfo timeout history S \<and> pr_main S = Returned res info)"

section \<open>Invariant\<close>

definition histories_ok :: "('v, 's) FilledModel \<Rightarrow> 'v entry list list \<Rightarrow> bool" where
  "histories_ok M hs \<longleftrightarrow> equal_ok M \<and> (\<forall>h \<in> set hs. numbered h \<and> steps_ok M h)"

abbreviation lin :: "('v, 's) FilledModel \<Rightarrow> 'v entry list \<Rightarrow> bool" where
  "lin M h \<equiv> linearizable (m_Step M) (m_Init M) h"

fun thread_ok :: "('v, 's) FilledModel \<Rightarrow> bool \<Rightarrow> 'v entry list \<Rightarrow> ('v, 's) thread \<Rightarrow> bool" where
  "thread_ok M killed h (Starting h') \<longleftrightarrow> h' = h"
| "thread_ok M killed h (Running s) \<longleftrightarrow> (\<exists>c. check_inv M h s c)"
| "thread_ok M killed h (Finished b longest seqs) \<longleftrightarrow> verdict_ok M h killed b longest seqs"

fun verdict_of :: "('v, 's) thread \<Rightarrow> bool list" where
  "verdict_of (Finished b longest seqs) = [b]"
| "verdict_of _ = []"

definition verdicts :: "('v, 's) thread list \<Rightarrow> bool multiset" where
  "verdicts ths = mset (concat (map verdict_of ths))"

definition sound :: "('v, 's) FilledModel \<Rightarrow> 'v entry list list \<Rightarrow> bool \<Rightarrow> bool \<Rightarrow> bool" where
  "sound M hs ok timedOut \<longleftrightarrow> (\<not> ok \<longrightarrow> (\<exists>h \<in> set hs. \<not> lin M h)) \<and> (ok \<and> \<not> timedOut \<longrightarrow> (\<forall>h \<in> set hs. lin M h))"

fun main_ok :: "('v, 's) FilledModel \<Rightarrow> bool \<Rightarrow> int \<Rightarrow> 'v entry list list \<Rightarrow> ('v, 's) par \<Rightarrow> main_phase \<Rightarrow> bool" where
  "main_ok M computeInfo timeout hs S (Waiting cnt ok) \<longleftrightarrow>
     \<not> pr_kill S \<and> (cnt < length hs \<or> hs = []) \<and>
     (\<exists>R. R + mset (pr_results S) = verdicts (pr_threads S) \<and> size R = cnt \<and> (ok \<longleftrightarrow> False \<notin># R))"
| "main_ok M computeInfo timeout hs S (Draining cnt ok timedOut) \<longleftrightarrow>
     computeInfo \<and> sound M hs ok timedOut \<and> (timedOut \<longrightarrow> 0 < timeout) \<and> cnt \<le> length hs \<and>
     cnt + length (pr_results S) = size (verdicts (pr_threads S))"
| "main_ok M computeInfo timeout hs S (Returned res info) \<longleftrightarrow>
     (\<exists>ok timedOut. sound M hs ok timedOut \<and> (timedOut \<longrightarrow> 0 < timeout) \<and> res = checkVerdict ok timedOut) \<and>
     (case info of None \<Rightarrow> \<not> computeInfo
      | Some pls \<Rightarrow> length pls = length hs \<and>
          (\<forall>i < length hs. \<forall>q \<in> set (pls ! i). partial_linearization (m_Step M) (m_Init M) (hs ! i) q))"
| "main_ok M computeInfo timeout hs S (Crashed p) \<longleftrightarrow> False"

definition par_inv :: "('v, 's) FilledModel \<Rightarrow> bool \<Rightarrow> int \<Rightarrow> 'v entry list list \<Rightarrow> ('v, 's) par \<Rightarrow> bool" where
  "par_inv M computeInfo timeout hs S \<longleftrightarrow> length (pr_threads S) = length hs \<and>
     (\<forall>i < length hs. thread_ok M (pr_kill S) (hs ! i) (pr_threads S ! i)) \<and>
     main_ok M computeInfo timeout hs S (pr_main S)"

lemma verdicts_update:
  assumes "i < length ths" and "verdict_of (ths ! i) = []"
  shows "verdicts (ths[i := th]) = verdicts ths + mset (verdict_of th)"
proof -
  have "verdicts ths = mset (concat (map verdict_of (take i ths))) + mset (concat (map verdict_of (drop (Suc i) ths)))"
    unfolding verdicts_def using assms by (subst id_take_nth_drop [OF assms(1)]) simp
  then show ?thesis using assms(1) by (simp add: verdicts_def upd_conv_take_nth_drop)
qed

lemma size_verdicts: "size (verdicts ths) \<le> length ths"
proof (induction ths)
  case (Cons x xs)
  then show ?case by (cases x) (simp_all add: verdicts_def)
qed (simp add: verdicts_def)

lemma verdicts_all:
  assumes "size (verdicts ths) = length ths" and "i < length ths"
  shows "\<exists>b longest seqs. ths ! i = Finished b longest seqs"
proof (rule ccontr)
  assume a: "\<nexists>b longest seqs. ths ! i = Finished b longest seqs"
  then have v: "verdict_of (ths ! i) = []" by (cases "ths ! i") auto
  have "size (verdicts (ths[i := Finished True [] []])) = Suc (length ths)"
    using verdicts_update [OF assms(2) v, of "Finished True [] []"] assms(1) by simp
  then show False using size_verdicts [of "ths[i := Finished True [] []]"] by simp
qed

lemma verdicts_mem: "b \<in># verdicts ths \<longleftrightarrow> (\<exists>i < length ths. \<exists>longest seqs. ths ! i = Finished b longest seqs)"
proof -
  have "b \<in># verdicts ths \<longleftrightarrow> (\<exists>th \<in> set ths. b \<in> set (verdict_of th))" by (auto simp: verdicts_def)
  also have "\<dots> \<longleftrightarrow> (\<exists>th \<in> set ths. \<exists>longest seqs. th = Finished b longest seqs)"
  proof (rule bex_cong [OF refl])
    fix th :: "('a, 'b) thread"
    show "b \<in> set (verdict_of th) \<longleftrightarrow> (\<exists>longest seqs. th = Finished b longest seqs)" by (cases th) auto
  qed
  finally show ?thesis by (metis in_set_conv_nth)
qed

lemma thread_ok_kill: "thread_ok M killed h th \<Longrightarrow> thread_ok M True h th"
  by (cases th) (auto simp: verdict_ok_def)

text \<open>What the results received so far show.\<close>

lemma received_sound:
  assumes th: "\<forall>i < length hs. thread_ok M False (hs ! i) (ths ! i)" and len: "length ths = length hs"
    and R: "R + X = verdicts ths"
  shows "False \<in># R \<Longrightarrow> \<exists>h \<in> set hs. \<not> lin M h" and "False \<notin># R \<Longrightarrow> length hs \<le> size R \<Longrightarrow> \<forall>h \<in> set hs. lin M h"
proof -
  assume "False \<in># R"
  then have "False \<in># verdicts ths" using R by (metis UnCI set_mset_union)
  then obtain i l q where i: "i < length hs" "ths ! i = Finished False l q" unfolding verdicts_mem using len by metis
  then have "\<not> lin M (hs ! i)" using th by (metis thread_ok.simps(3) verdict_ok_def)
  then show "\<exists>h \<in> set hs. \<not> lin M h" using i(1) nth_mem by blast
next
  assume F: "False \<notin># R" and n: "length hs \<le> size R"
  have "size (R + X) \<le> length hs" unfolding R using size_verdicts [of ths] len by simp
  then have "size R + size X \<le> length hs" by simp
  then have sz: "size R = length hs" and "size X = 0" using n by linarith+
  then have X: "X = {#}" by simp
  have v: "verdicts ths = R" using R X by simp
  have "lin M (hs ! i)" if i: "i < length hs" for i
  proof -
    obtain b l q where b: "ths ! i = Finished b l q" using verdicts_all [of ths i] v sz len i by auto
    then have "b \<in># R" using verdicts_mem [of b ths] v len i by auto
    then have b1: "b" using F by (cases b) auto
    have "thread_ok M False (hs ! i) (Finished b l q)" using th i b by metis
    then show ?thesis using b1 by (simp add: verdict_ok_def)
  qed
  then show "\<forall>h \<in> set hs. lin M h" by (metis in_set_conv_nth)
qed

lemma main_ok_threads:
  assumes "main_ok M ci t hs S ph" and "pr_kill S' = pr_kill S" and "mset (pr_results S') = mset (pr_results S) + X"
    and "verdicts (pr_threads S') = verdicts (pr_threads S) + X"
  shows "main_ok M ci t hs S' ph"
proof (cases ph)
  case (Waiting cnt ok)
  then obtain R where "R + mset (pr_results S) = verdicts (pr_threads S)" "size R = cnt" "ok \<longleftrightarrow> False \<notin># R"
    "\<not> pr_kill S" "cnt < length hs \<or> hs = []" using assms(1) by auto
  then show ?thesis unfolding Waiting main_ok.simps using assms(2-4) by (metis add.assoc)
next
  case (Draining cnt ok to)
  have "length (pr_results S') = length (pr_results S) + size X" by (metis assms(3) size_mset size_union)
  then show ?thesis using assms(1,4) Draining by simp
qed (use assms(1) in simp_all)

lemma thread_step_inv:
  assumes inv: "par_inv M ci t hs S" and i: "i < length (pr_threads S)" and v: "verdict_of (pr_threads S ! i) = []"
    and th: "thread_ok M (pr_kill S) (hs ! i) th"
  shows "par_inv M ci t hs (S\<lparr>pr_threads := (pr_threads S)[i := th], pr_results := pr_results S @ verdict_of th\<rparr>)"
proof -
  let ?S = "S\<lparr>pr_threads := (pr_threads S)[i := th], pr_results := pr_results S @ verdict_of th\<rparr>"
  have "main_ok M ci t hs S (pr_main S)" using inv by (simp add: par_inv_def)
  then have "main_ok M ci t hs ?S (pr_main S)"
    by (rule main_ok_threads [where X = "mset (verdict_of th)"]) (simp_all add: verdicts_update [OF i v])
  then show ?thesis using inv th i by (auto simp: par_inv_def nth_list_update)
qed

lemma leave_loop:
  assumes "par_inv M ci t hs S" and "sound M hs ok to" and "to \<longrightarrow> 0 < t" and "cnt \<le> length hs"
    and "cnt + length (pr_results S') = size (verdicts (pr_threads S'))"
    and "pr_threads S' = pr_threads S" and "pr_kill S \<longrightarrow> pr_kill S'" and "pr_main S' = afterLoop ci cnt ok to"
  shows "par_inv M ci t hs S'"
proof -
  have "\<forall>i < length hs. thread_ok M (pr_kill S') (hs ! i) (pr_threads S' ! i)"
    using assms(1,6,7) thread_ok_kill unfolding par_inv_def by (metis (full_types))
  moreover have "main_ok M ci t hs S' (pr_main S')"
    using assms(2-5) unfolding assms(8) afterLoop_def by auto
  ultimately show ?thesis using assms(1,6) by (simp add: par_inv_def)
qed

lemma waiting_inv:
  assumes inv: "par_inv M ci t hs S" and w: "pr_main S = Waiting cnt ok"
  shows "\<exists>R. \<not> pr_kill S \<and> R + mset (pr_results S) = verdicts (pr_threads S) \<and> size R = cnt \<and> (ok \<longleftrightarrow> False \<notin># R)"
    and "length (pr_threads S) = length hs" and "\<forall>i < length hs. thread_ok M False (hs ! i) (pr_threads S ! i)"
    and "cnt < length hs \<or> hs = []"
proof -
  have m: "main_ok M ci t hs S (Waiting cnt ok)" and th: "\<forall>i < length hs. thread_ok M (pr_kill S) (hs ! i) (pr_threads S ! i)"
    and len: "length (pr_threads S) = length hs" using inv unfolding par_inv_def w by iprover+
  from m [unfolded main_ok.simps] have k: "\<not> pr_kill S" and c: "cnt < length hs \<or> hs = []"
    and R: "\<exists>R. R + mset (pr_results S) = verdicts (pr_threads S) \<and> size R = cnt \<and> (ok \<longleftrightarrow> False \<notin># R)" by iprover+
  show "\<exists>R. \<not> pr_kill S \<and> R + mset (pr_results S) = verdicts (pr_threads S) \<and> size R = cnt \<and> (ok \<longleftrightarrow> False \<notin># R)"
    using k R by iprover
  show "length (pr_threads S) = length hs" "cnt < length hs \<or> hs = []" by (fact len, fact c)
  show "\<forall>i < length hs. thread_ok M False (hs ! i) (pr_threads S ! i)" using th k by simp
qed

lemma receive_inv:
  assumes inv: "par_inv M ci t hs S" and w: "pr_main S = Waiting cnt ok" and r: "pr_results S = result # rest"
  shows "par_inv M ci t hs (receiveResult ci cnt ok result rest S)"
proof -
  let ?ths = "pr_threads S"
  note len = waiting_inv(2) [OF inv w] and th = waiting_inv(3) [OF inv w]
  from waiting_inv(1) [OF inv w] obtain R where k: "\<not> pr_kill S"
    and R: "R + mset (pr_results S) = verdicts ?ths" "size R = cnt" "ok \<longleftrightarrow> False \<notin># R" by blast
  let ?R = "add_mset result R"
  have R': "?R + mset rest = verdicts ?ths" "size ?R = cnt + 1" "ok \<and> result \<longleftrightarrow> False \<notin># ?R"
    using R r by auto
  note snd = received_sound [OF th len R'(1)]
  have "size (verdicts ?ths) \<le> length hs" using size_verdicts [of ?ths] len by simp
  then have le: "cnt + 1 \<le> length hs" using R' by (metis add_leE size_union)
  have sz: "cnt + 1 + length rest = size (verdicts ?ths)" using R'(1,2) by (metis size_mset size_union)
  have sound: "sound M hs (ok \<and> result) False" if "\<not> (ok \<and> result) \<or> length hs \<le> cnt + 1"
    using snd R'(2,3) that unfolding sound_def by auto
  consider (stop) "\<not> (ok \<and> result) \<and> \<not> ci \<or> length hs \<le> cnt + 1" | (more) "ok \<and> result \<or> ci" "cnt + 1 < length hs" by linarith
  then show ?thesis
  proof cases
    case stop
    let ?S = "receiveResult ci cnt ok result rest S"
    have S: "pr_main ?S = afterLoop ci (cnt + 1) (ok \<and> result) False" "pr_threads ?S = ?ths" "pr_results ?S = rest"
      using stop len by (auto simp: receiveResult_def Let_def)
    have "sound M hs (ok \<and> result) False" using stop by (intro sound) blast
    then show ?thesis by (rule leave_loop [OF inv, where cnt = "cnt + 1"]) (use S le sz k in simp_all)
  next
    case more
    have "main_ok M ci t hs (S\<lparr>pr_results := rest, pr_main := Waiting (cnt + 1) (ok \<and> result)\<rparr>) (Waiting (cnt + 1) (ok \<and> result))"
      unfolding main_ok.simps using k more(2) R' by (intro conjI exI [of _ ?R]) simp_all
    moreover have "receiveResult ci cnt ok result rest S = S\<lparr>pr_results := rest, pr_main := Waiting (cnt + 1) (ok \<and> result)\<rparr>"
      using more len by (auto simp: receiveResult_def Let_def)
    ultimately show ?thesis using len th k by (simp add: par_inv_def)
  qed
qed

lemma timer_inv:
  assumes inv: "par_inv M ci t hs S" and w: "pr_main S = Waiting cnt ok" and "0 < t"
  shows "par_inv M ci t hs (S\<lparr>pr_kill := True, pr_main := afterLoop ci cnt ok True\<rparr>)"
proof -
  note len = waiting_inv(2) [OF inv w] and th = waiting_inv(3) [OF inv w]
  from waiting_inv(1) [OF inv w] obtain R where
    R: "R + mset (pr_results S) = verdicts (pr_threads S)" "size R = cnt" "ok \<longleftrightarrow> False \<notin># R" by blast
  have sz: "cnt + length (pr_results S) = size (verdicts (pr_threads S))" using R by (metis size_mset size_union)
  then have le: "cnt \<le> length hs" using size_verdicts [of "pr_threads S"] len by simp
  have "sound M hs ok True" using received_sound(1) [OF th len R(1)] R(3) by (auto simp: sound_def)
  then show ?thesis by (rule leave_loop [OF inv]) (use assms(3) le sz in simp_all)
qed

lemma collect_inv:
  assumes inv: "par_inv M ci t hs S" and w: "pr_main S = Draining cnt ok to" and len: "length info = length (pr_threads S)"
    and info: "\<forall>i < length info. \<exists>ks. partials (pr_threads S ! i) ks (info ! i)"
  shows "par_inv M ci t hs (S\<lparr>pr_main := Returned (checkVerdict ok to) (Some info)\<rparr>)"
proof -
  have n: "length info = length hs" using inv len by (simp add: par_inv_def)
  have "partial_linearization (m_Step M) (m_Init M) (hs ! i) q" if i: "i < length hs" and q: "q \<in> set (info ! i)" for i q
  proof -
    obtain ks b l seqs where p: "pr_threads S ! i = Finished b l seqs" "set ks = {p. Some p \<in> set l}" "info ! i = map (nth seqs) ks"
      using info i n unfolding partials_def by metis
    have "thread_ok M (pr_kill S) (hs ! i) (pr_threads S ! i)" using inv i by (simp add: par_inv_def)
    then have l: "longest_ok M (hs ! i) l seqs" using p(1) by (simp add: verdict_ok_def)
    obtain k where "Some k \<in> set l" "q = seqs ! k" using q p(2,3) by auto
    then have "q \<in> set seqs" using l unfolding longest_ok_def by (metis in_set_conv_nth nth_mem)
    then show ?thesis using l by (simp add: longest_ok_def)
  qed
  then show ?thesis using inv w n by (auto simp: par_inv_def)
qed

lemma par_inv_step:
  assumes inv: "par_inv M ci t hs S" and ok: "histories_ok M hs" and step: "par_step M ci t S S'"
  shows "par_inv M ci t hs S'"
proof -
  have h: "numbered (hs ! i)" "steps_ok M (hs ! i)" "equal_ok M" "thread_ok M (pr_kill S) (hs ! i) (pr_threads S ! i)"
    if "i < length (pr_threads S)" for i
    using ok inv that by (simp_all add: histories_ok_def par_inv_def)
  from step show ?thesis
  proof cases
    case (start i h s)
    have "\<exists>c. check_inv M (hs ! i) s c"
      using checkStart_inv [OF h(1) [OF start(2)], of M] h(4) [OF start(2)] start(3,4) by auto
    then show ?thesis using thread_step_inv [OF inv start(2), of "Running s"] start by simp
  next
    case (start_panic i h p)
    then show ?thesis using checkStart_inv [OF h(1) [OF start_panic(2)], of M] h(4) [OF start_panic(2)] by auto
  next
    case (turn i s s')
    then obtain c where "check_inv M (hs ! i) s c" using h(4) [OF turn(2)] by auto
    from checkIter_turn [OF this h(1-3) [OF turn(2)], of ci "pr_kill S"] turn(4) have "\<exists>c. check_inv M (hs ! i) s' c" by auto
    then show ?thesis using thread_step_inv [OF inv turn(2), of "Running s'"] turn by simp
  next
    case (send i s b s')
    then obtain c where "check_inv M (hs ! i) s c" using h(4) [OF send(2)] by auto
    from checkIter_turn [OF this h(1-3) [OF send(2)], of ci "pr_kill S"] send(4)
    have "verdict_ok M (hs ! i) (pr_kill S) b (ck_longest s') (ck_seqs s')" by auto
    then show ?thesis using thread_step_inv [OF inv send(2), of "Finished b (ck_longest s') (ck_seqs s')"] send by simp
  next
    case (turn_panic i s p)
    then obtain c where "check_inv M (hs ! i) s c" using h(4) [OF turn_panic(2)] by auto
    from checkIter_turn [OF this h(1-3) [OF turn_panic(2)], of ci "pr_kill S"] turn_panic(4) show ?thesis by auto
  next
    case (drain cnt ok to r rest)
    then show ?thesis using inv by (auto simp: par_inv_def)
  qed (use receive_inv [OF inv] timer_inv [OF inv] collect_inv [OF inv] in blast)+
qed

lemma par_inv_init: "par_inv M ci t hs (par_init hs)"
proof -
  have v: "verdicts (map Starting hs) = {#}" by (induction hs) (simp_all add: verdicts_def)
  have "main_ok M ci t hs (par_init hs) (Waiting 0 True)"
    unfolding main_ok.simps by (intro conjI exI [of _ "{#}"]) (auto simp: par_init_def v)
  then show ?thesis by (simp add: par_inv_def par_init_def)
qed

lemma par_reach_inv: "par_reach M ci t hs S \<Longrightarrow> histories_ok M hs \<Longrightarrow> par_inv M ci t hs S"
  by (induction rule: par_reach.induct) (auto intro: par_inv_init par_inv_step)

section \<open>The end of the run\<close>

text \<open>A bound on the steps to come: the turns of the checkers, and the phases of the main goroutine.\<close>

definition turns :: "('v, 's) FilledModel \<Rightarrow> 'v entry list \<Rightarrow> ('v, 's) checker \<Rightarrow> nat" where
  "turns M h s = (LEAST c. check_inv M h s c)"

fun thread_cost :: "('v, 's) FilledModel \<Rightarrow> 'v entry list \<Rightarrow> ('v, 's) thread \<Rightarrow> nat" where
  "thread_cost M h (Starting h') = (case checkStart M h of Some (Inr s) \<Rightarrow> Suc (Suc (turns M h s)) | _ \<Rightarrow> 0)"
| "thread_cost M h (Running s) = Suc (turns M h s)"
| "thread_cost M h (Finished b longest seqs) = 0"

fun main_cost :: "nat \<Rightarrow> main_phase \<Rightarrow> nat" where
  "main_cost n (Waiting cnt ok) = (n - cnt) + n + 2"
| "main_cost n (Draining cnt ok timedOut) = (n - cnt) + 1"
| "main_cost n _ = 0"

definition par_cost :: "('v, 's) FilledModel \<Rightarrow> 'v entry list list \<Rightarrow> ('v, 's) par \<Rightarrow> nat" where
  "par_cost M hs S = (\<Sum>i < length hs. thread_cost M (hs ! i) (pr_threads S ! i)) + main_cost (length hs) (pr_main S)"

lemma turns_less:
  assumes "check_inv M h s c" and "\<And>c. check_inv M h s c \<Longrightarrow> \<exists>c' < c. check_inv M h s' c'"
  shows "turns M h s' < turns M h s"
proof -
  have "check_inv M h s (turns M h s)" unfolding turns_def using assms(1) by (rule LeastI)
  then obtain c' where "c' < turns M h s" "check_inv M h s' c'" using assms(2) by blast
  then show ?thesis unfolding turns_def using Least_le [of "check_inv M h s'" c'] by simp
qed

lemma thread_cost_update:
  assumes "i < length hs" and "length ths = length hs" and "thread_cost M (hs ! i) th < thread_cost M (hs ! i) (ths ! i)"
  shows "(\<Sum>j < length hs. thread_cost M (hs ! j) (ths[i := th] ! j)) < (\<Sum>j < length hs. thread_cost M (hs ! j) (ths ! j))"
proof (rule sum_strict_mono_ex1)
  show "\<forall>j \<in> {..<length hs}. thread_cost M (hs ! j) (ths[i := th] ! j) \<le> thread_cost M (hs ! j) (ths ! j)"
    using assms by (auto simp: nth_list_update)
  show "\<exists>j \<in> {..<length hs}. thread_cost M (hs ! j) (ths[i := th] ! j) < thread_cost M (hs ! j) (ths ! j)"
    using assms by (intro bexI [of _ i]) simp_all
qed simp

lemma receive_cost:
  assumes inv: "par_inv M ci t hs S" and w: "pr_main S = Waiting cnt ok" and r: "pr_results S = result # rest"
  shows "par_cost M hs (receiveResult ci cnt ok result rest S) < par_cost M hs S"
proof -
  note len = waiting_inv(2) [OF inv w]
  from waiting_inv(1) [OF inv w] obtain R where "R + mset (pr_results S) = verdicts (pr_threads S)" by blast
  then have "size (verdicts (pr_threads S)) \<noteq> 0" using r by (metis mset.simps(2) size_eq_0_iff_empty union_mset_add_mset_right
        add_mset_not_empty)
  then have "hs \<noteq> []" using size_verdicts [of "pr_threads S"] len by auto
  then have "cnt < length hs" using waiting_inv(4) [OF inv w] by blast
  moreover have "pr_threads (receiveResult ci cnt ok result rest S) = pr_threads S" by (simp add: receiveResult_def Let_def)
  moreover have "main_cost (length hs) (pr_main (receiveResult ci cnt ok result rest S)) \<le> (length hs - (cnt + 1)) + length hs + 2"
    by (auto simp: receiveResult_def Let_def afterLoop_def)
  ultimately show ?thesis using w by (simp add: par_cost_def)
qed

lemma par_step_cost:
  assumes inv: "par_inv M ci t hs S" and ok: "histories_ok M hs" and step: "par_step M ci t S S'"
  shows "par_cost M hs S' < par_cost M hs S"
proof -
  have len: "length (pr_threads S) = length hs" using inv by (simp add: par_inv_def)
  have h: "numbered (hs ! i)" "steps_ok M (hs ! i)" "equal_ok M" "thread_ok M (pr_kill S) (hs ! i) (pr_threads S ! i)"
    if "i < length (pr_threads S)" for i
    using ok inv that by (simp_all add: histories_ok_def par_inv_def)
  have thread: "par_cost M hs (S\<lparr>pr_threads := (pr_threads S)[i := th], pr_results := rs\<rparr>) < par_cost M hs S"
    if "i < length (pr_threads S)" "thread_cost M (hs ! i) th < thread_cost M (hs ! i) (pr_threads S ! i)" for i th rs
    using thread_cost_update [of i hs "pr_threads S" M th] that len by (simp add: par_cost_def)
  from step show ?thesis
  proof cases
    case (start i h' s)
    have "thread_ok M (pr_kill S) (hs ! i) (Starting h')" using h(4) [OF start(2)] start(3) by simp
    then show ?thesis using thread [OF start(2), of "Running s" "pr_results S"] start by simp
  next
    case (turn i s s')
    then obtain c where c: "check_inv M (hs ! i) s c" using h(4) [OF turn(2)] by auto
    have "turns M (hs ! i) s' < turns M (hs ! i) s"
      by (rule turns_less [OF c]) (use checkIter_turn [OF _ h(1-3) [OF turn(2)], of s _ ci "pr_kill S"] turn(4) in fastforce)
    then show ?thesis using thread [OF turn(2), of "Running s'" "pr_results S"] turn by simp
  next
    case (send i s b s')
    then show ?thesis using thread [OF send(2), of "Finished b (ck_longest s') (ck_seqs s')" "pr_results S @ [b]"] by simp
  next
    case (receive cnt okk result rest)
    then show ?thesis using receive_cost [OF inv] by blast
  next
    case (timer cnt okk)
    then show ?thesis by (simp add: par_cost_def afterLoop_def)
  next
    case (drain cnt okk to r rest)
    then show ?thesis using len by (simp add: par_cost_def)
  next
    case (collect cnt okk to info)
    then show ?thesis by (simp add: par_cost_def)
  next
    case (start_panic i h p)
    then show ?thesis using par_inv_step [OF inv ok step] by (simp add: par_inv_def)
  next
    case (turn_panic i s p)
    then show ?thesis using par_inv_step [OF inv ok step] by (simp add: par_inv_def)
  qed
qed

lemma verdicts_complete:
  "(\<And>i. i < length ths \<Longrightarrow> \<exists>b longest seqs. ths ! i = Finished b longest seqs) \<Longrightarrow> size (verdicts ths) = length ths"
proof (induction ths)
  case (Cons x xs)
  obtain b l q where "x = Finished b l q" using Cons.prems [of 0] by auto
  moreover have "size (verdicts xs) = length xs" by (rule Cons.IH) (use Cons.prems [of "Suc _"] in auto)
  ultimately show ?case by (simp add: verdicts_def)
qed (simp add: verdicts_def)

lemma collect_possible:
  assumes "\<And>i. i < length ths \<Longrightarrow> \<exists>b longest seqs. ths ! i = Finished b longest seqs"
  shows "\<exists>info. length info = length ths \<and> (\<forall>i < length info. \<exists>ks. partials (ths ! i) ks (info ! i))"
proof -
  have "\<exists>pl ks. partials (ths ! i) ks pl" if i: "i < length ths" for i
  proof -
    obtain b l q where f: "ths ! i = Finished b l q" using assms [OF i] by blast
    have "finite {p. Some p \<in> set l}" by (rule finite_subset [of _ "the ` set l"]) force+
    then obtain ks where "set ks = {p. Some p \<in> set l}" "distinct ks" using finite_distinct_list by blast
    then show ?thesis unfolding partials_def f by blast
  qed
  then obtain pl where "\<forall>i < length ths. \<exists>ks. partials (ths ! i) ks (pl i)" by metis
  then show ?thesis by (intro exI [of _ "map pl [0..<length ths]"]) simp
qed

lemma thread_progress:
  assumes inv: "par_inv M ci t hs S" and ok: "histories_ok M hs" and i: "i < length (pr_threads S)"
    and nf: "\<nexists>b longest seqs. pr_threads S ! i = Finished b longest seqs"
  shows "\<exists>S'. par_step M ci t S S'"
proof -
  have h: "numbered (hs ! i)" "steps_ok M (hs ! i)" "equal_ok M" "thread_ok M (pr_kill S) (hs ! i) (pr_threads S ! i)"
    using ok inv i by (simp_all add: histories_ok_def par_inv_def)
  show ?thesis
  proof (cases "pr_threads S ! i")
    case (Starting h')
    obtain s where "checkStart M (hs ! i) = Some (Inr s)" using checkStart_inv [OF h(1), of M] by blast
    moreover have "h' = hs ! i" using h(4) Starting by simp
    ultimately show ?thesis using par_step.start [OF i Starting] by blast
  next
    case (Running s)
    then obtain c where "check_inv M (hs ! i) s c" using h(4) by auto
    from checkIter_turn [OF this h(1-3), of ci "pr_kill S"] obtain r s' where "checkIter M ci (pr_kill S) s = Inr (r, s')" by blast
    then show ?thesis using par_step.turn [OF i Running] par_step.send [OF i Running] by (cases r) blast+
  next
    case (Finished b l q)
    then show ?thesis using nf by blast
  qed
qed

lemma par_progress:
  assumes inv: "par_inv M ci t hs S" and ok: "histories_ok M hs" and ne: "hs \<noteq> []"
  shows "(\<exists>S'. par_step M ci t S S') \<or> (\<exists>res info. pr_main S = Returned res info)"
proof (cases "\<forall>i < length (pr_threads S). \<exists>b longest seqs. pr_threads S ! i = Finished b longest seqs")
  case False
  then show ?thesis using thread_progress [OF inv ok] by blast
next
  case True
  have len: "length (pr_threads S) = length hs" using inv by (simp add: par_inv_def)
  have all: "size (verdicts (pr_threads S)) = length hs" using verdicts_complete [of "pr_threads S"] True len by simp
  show ?thesis
  proof (cases "pr_main S")
    case (Waiting cnt okk)
    from waiting_inv(1) [OF inv Waiting] obtain R where R: "R + mset (pr_results S) = verdicts (pr_threads S)" "size R = cnt" by blast
    have "cnt + length (pr_results S) = length hs" using R all by (metis size_mset size_union)
    moreover have "cnt < length hs" using waiting_inv(4) [OF inv Waiting] ne by blast
    ultimately obtain r rest where "pr_results S = r # rest" by (cases "pr_results S") auto
    then show ?thesis using par_step.receive [OF Waiting] by blast
  next
    case (Draining cnt okk to)
    then have sz: "cnt + length (pr_results S) = length hs" using inv all by (simp add: par_inv_def)
    show ?thesis
    proof (cases "cnt < length (pr_threads S)")
      case c: True
      then obtain r rest where "pr_results S = r # rest" using sz len by (cases "pr_results S") auto
      then show ?thesis using par_step.drain [OF Draining c] by blast
    next
      case c: False
      obtain info where "length info = length (pr_threads S)" "\<forall>i < length info. \<exists>ks. partials (pr_threads S ! i) ks (info ! i)"
        using collect_possible [of "pr_threads S"] True by blast
      then show ?thesis using par_step.collect [OF Draining c] by blast
    qed
  next
    case (Crashed p)
    then show ?thesis using inv by (simp add: par_inv_def)
  qed blast
qed

lemma par_returns:
  assumes "par_reach M ci t hs S" and ok: "histories_ok M hs" and ne: "hs \<noteq> []"
  shows "\<exists>res info. checkParallel M hs ci t res info"
  using assms(1)
proof (induction "par_cost M hs S" arbitrary: S rule: less_induct)
  case less
  have inv: "par_inv M ci t hs S" by (rule par_reach_inv [OF less.prems ok])
  from par_progress [OF inv ok ne] show ?case
  proof
    assume "\<exists>S'. par_step M ci t S S'"
    then obtain S' where s: "par_step M ci t S S'" by blast
    show ?thesis by (rule less.hyps [OF par_step_cost [OF inv ok s] par_reach.step [OF less.prems s]])
  next
    assume "\<exists>res info. pr_main S = Returned res info"
    then show ?thesis using less.prems unfolding checkParallel_def by blast
  qed
qed

text \<open>The verdict of a run, and the partial linearizations it returns.\<close>

lemma checkParallel_sound:
  assumes ok: "histories_ok M hs" and res: "checkParallel M hs ci t res info"
  shows "(res = Ok \<longrightarrow> (\<forall>h \<in> set hs. lin M h)) \<and> (res = Illegal \<longrightarrow> (\<exists>h \<in> set hs. \<not> lin M h)) \<and> (res = Unknown \<longrightarrow> 0 < t) \<and>
    (case info of None \<Rightarrow> \<not> ci
     | Some pls \<Rightarrow> length pls = length hs \<and>
         (\<forall>i < length hs. \<forall>q \<in> set (pls ! i). partial_linearization (m_Step M) (m_Init M) (hs ! i) q))"
proof -
  obtain S where S: "par_reach M ci t hs S" "pr_main S = Returned res info" using res unfolding checkParallel_def by blast
  have m: "main_ok M ci t hs S (Returned res info)" using par_reach_inv [OF S(1) ok] S(2) by (simp add: par_inv_def)
  then obtain okk to where "sound M hs okk to" "to \<longrightarrow> 0 < t" "res = checkVerdict okk to" by auto
  then have "(res = Ok \<longrightarrow> (\<forall>h \<in> set hs. lin M h)) \<and> (res = Illegal \<longrightarrow> (\<exists>h \<in> set hs. \<not> lin M h)) \<and> (res = Unknown \<longrightarrow> 0 < t)"
    by (cases okk; cases to) (simp_all add: sound_def checkVerdict_def)
  then show ?thesis using m by simp
qed

text \<open>C30: \<^verbatim>\<open>checkParallel\<close> ends, whatever the goroutines' interleaving and whether or not the timer fires.  With at
  least one partition, and histories and a model as in \<^verbatim>\<open>checkSingle\<close>'s theorem, no run goes on for
  ever, and a state in which nothing can move is one in which the main goroutine has returned: the
  channel never blocks it, and no goroutine panics.\<close>

theorem checkParallel_ends:
  assumes "histories_ok M hs" and "hs \<noteq> []"
  shows "(\<nexists>f. f 0 = par_init hs \<and> (\<forall>i. par_step M computeInfo timeout (f i) (f (Suc i)))) \<and>
    (\<forall>S. par_reach M computeInfo timeout hs S \<longrightarrow>
       (\<exists>S'. par_step M computeInfo timeout S S') \<or> (\<exists>res info. pr_main S = Returned res info))"
proof (intro conjI allI impI notI)
  assume "\<exists>f. f 0 = par_init hs \<and> (\<forall>i. par_step M computeInfo timeout (f i) (f (Suc i)))"
  then obtain f where f: "f 0 = par_init hs" "\<And>i. par_step M computeInfo timeout (f i) (f (Suc i))" by blast
  have reach: "par_reach M computeInfo timeout hs (f i)" for i
    by (induction i) (auto simp: f(1) intro: par_reach.intros f(2))
  have "par_cost M hs (f (Suc i)) < par_cost M hs (f i)" for i
    by (rule par_step_cost [OF par_reach_inv [OF reach assms(1)] assms(1) f(2)])
  then have "(f (Suc i), f i) \<in> measure (par_cost M hs)" for i by simp
  then show False using wf_measure [of "par_cost M hs"] unfolding wf_iff_no_infinite_down_chain by blast
next
  fix S assume "par_reach M computeInfo timeout hs S"
  from par_progress [OF par_reach_inv [OF this assms(1)] assms]
  show "(\<exists>S'. par_step M computeInfo timeout S S') \<or> (\<exists>res info. pr_main S = Returned res info)" .
qed

theorem checkParallel_ends_witness:
  "histories_ok ex_echo [ex_history] \<and> par_reach ex_echo True 0 [ex_history] (par_init [ex_history]) \<and>
   (\<exists>S'. par_step ex_echo True 0 (par_init [ex_history]) S')"
proof -
  have ok: "histories_ok ex_echo [ex_history]"
    by (auto simp: histories_ok_def numbered_def history_ok_def ex_history_def call_ids_def return_ids_def
        steps_ok_def ex_echo_def ShallowEqual_ok)
  have reach: "par_reach ex_echo True 0 [ex_history] (par_init [ex_history])" by (rule par_reach.init)
  have "pr_main (par_init [ex_history] :: (nat, unit) par) = Waiting 0 True" by (simp add: par_init_def)
  then show ?thesis using checkParallel_ends [OF ok, of True 0] ok reach by fastforce
qed

text \<open>Without a partition and without a timeout the main goroutine waits for ever: no step is possible.\<close>

lemma no_partition_blocks: "\<not> par_step M computeInfo 0 (par_init []) S'"
  by (auto simp: par_init_def elim: par_step.cases)

lemma checkParallel_no_partition: "\<not> checkParallel M [] computeInfo 0 res info"
proof -
  have "S = par_init []" if "par_reach M computeInfo 0 [] S" for S
    using that by induction (simp_all add: no_partition_blocks)
  moreover have "pr_main (par_init []) \<noteq> Returned res info" by (simp add: par_init_def)
  ultimately show ?thesis unfolding checkParallel_def by metis
qed

end
