(* ===== verification/PC_Porcupine.thy ===== *)
theory PC_Porcupine
  imports PC_Parallel
begin

text \<open>
  The interface of package \<^verbatim>\<open>porcupine\<close> (\<^verbatim>\<open>porcupine.go\<close>, and \<^verbatim>\<open>checkOperations\<close> and \<^verbatim>\<open>checkEvents\<close> of
  \<^verbatim>\<open>checker.go\<close>).  A check may end in more than one way (the timer, the order of the goroutines), so
  each function is a relation between its arguments and a result it may return.  \<open>srt\<close> stands for
  \<^verbatim>\<open>sort.Sort\<close>, \<open>fv\<close> and \<open>fs\<close> for the verb \<^verbatim>\<open>%v\<close>.
\<close>

section \<open>Checks\<close>

record 'v linearizationInfo =
  li_history :: "'v entry list list"
  li_partialLinearizations :: "int list list list"

text \<open>The information is left at its zero value unless it was asked for.\<close>

definition make_info :: "'v entry list list \<Rightarrow> int list list list option \<Rightarrow> 'v linearizationInfo" where
  "make_info history pls = (case pls of
      None \<Rightarrow> \<lparr>li_history = [], li_partialLinearizations = []\<rparr>
    | Some p \<Rightarrow> \<lparr>li_history = history, li_partialLinearizations = p\<rparr>)"

definition checkEvents ::
  "('v any \<Rightarrow> string) \<Rightarrow> ('s \<Rightarrow> string) \<Rightarrow> ('v, 's) Model \<Rightarrow> 'v Event list \<Rightarrow> bool \<Rightarrow> int \<Rightarrow>
   CheckResult \<Rightarrow> 'v linearizationInfo \<Rightarrow> bool" where
  "checkEvents fv fs model history verbose timeout res info \<longleftrightarrow>
     (let model = fillDefault fv fs model
      in \<exists>partitions pls. m_PartitionEvent model history = Inr partitions \<and>
           (let l = map (\<lambda>subhistory. convertEntries (renumber subhistory)) partitions
            in checkParallel model l verbose timeout res pls \<and> info = make_info l pls))"

definition checkOperations ::
  "('v entry list \<Rightarrow> 'v entry list) \<Rightarrow> ('v any \<Rightarrow> string) \<Rightarrow> ('s \<Rightarrow> string) \<Rightarrow> ('v, 's) Model \<Rightarrow> 'v Operation list \<Rightarrow> bool \<Rightarrow> int \<Rightarrow>
   CheckResult \<Rightarrow> 'v linearizationInfo \<Rightarrow> bool" where
  "checkOperations srt fv fs model history verbose timeout res info \<longleftrightarrow>
     (let model = fillDefault fv fs model
      in \<exists>partitions pls. m_Partition model history = Inr partitions \<and>
           (let l = map (makeEntries srt) partitions
            in checkParallel model l verbose timeout res pls \<and> info = make_info l pls))"

definition CheckOperations where
  "CheckOperations srt fv fs model history b \<longleftrightarrow>
     (\<exists>res info. checkOperations srt fv fs model history False 0 res info \<and> b = (res = Ok))"

definition CheckOperationsTimeout where
  "CheckOperationsTimeout srt fv fs model history timeout res \<longleftrightarrow>
     (\<exists>info. checkOperations srt fv fs model history False timeout res info)"

definition CheckOperationsVerbose where
  "CheckOperationsVerbose srt fv fs model history timeout res info \<longleftrightarrow>
     checkOperations srt fv fs model history True timeout res info"

definition CheckEvents where
  "CheckEvents fv fs model history b \<longleftrightarrow>
     (\<exists>res info. checkEvents fv fs model history False 0 res info \<and> b = (res = Ok))"

definition CheckEventsTimeout where
  "CheckEventsTimeout fv fs model history timeout res \<longleftrightarrow>
     (\<exists>info. checkEvents fv fs model history False timeout res info)"

definition CheckEventsVerbose where
  "CheckEventsVerbose fv fs model history timeout res info \<longleftrightarrow>
     checkEvents fv fs model history True timeout res info"

section \<open>Operations\<close>

definition op_steps_ok :: "('v, 's) step_fun \<Rightarrow> 'v Operation list \<Rightarrow> bool" where
  "op_steps_ok step ops \<longleftrightarrow> (\<forall>s. \<forall>x \<in> set ops. \<exists>r. step s (Op_Input x) (Op_Output x) = Inr r)"

definition parts_ok :: "('v, 's) FilledModel \<Rightarrow> 'v Operation list list \<Rightarrow> bool" where
  "parts_ok M parts \<longleftrightarrow> equal_ok M \<and> (\<forall>p \<in> set parts. ops_ok p \<and> op_steps_ok (m_Step M) p)"

lemma entries_steps_ok:
  assumes "sorts srt" and "op_steps_ok (m_Step M) ops"
  shows "steps_ok M (makeEntries srt ops)"
  unfolding steps_ok_def makeEntries_ids(1) [OF assms(1)]
proof (intro allI ballI)
  fix s and i :: int assume i: "i \<in> {0..<int (length ops)}"
  have "ops ! nat i \<in> set ops" using i by auto
  then show "\<exists>r. m_Step M s (fst (op_values (makeEntries srt ops) i)) (snd (op_values (makeEntries srt ops) i)) = Inr r"
    using assms(2) unfolding makeEntries_values [OF assms(1) i] op_steps_ok_def by simp
qed

lemma parts_histories_ok:
  assumes "sorts srt" and "parts_ok M parts"
  shows "histories_ok M (map (makeEntries srt) parts)"
  using assms by (auto simp: histories_ok_def parts_ok_def intro: makeEntries_numbered entries_steps_ok)

lemma checkOperations_result:
  assumes srt: "sorts srt" and M: "M = fillDefault fv fs model" and parts: "m_Partition M history = Inr parts"
    and ok: "parts_ok M parts" and res: "checkOperations srt fv fs model history verbose timeout res info"
  shows "res = Ok \<longrightarrow> (\<forall>p \<in> set parts. ops_linearizable (Step model) (Init model) p)"
    and "res = Illegal \<longrightarrow> (\<exists>p \<in> set parts. \<not> ops_linearizable (Step model) (Init model) p)"
    and "res = Unknown \<longrightarrow> 0 < timeout"
proof -
  let ?hs = "map (makeEntries srt) parts"
  obtain pls where c: "checkParallel M ?hs verbose timeout res pls"
    using res parts unfolding checkOperations_def Let_def M by auto
  have step: "m_Step M = Step model" "m_Init M = Init model" by (simp_all add: M fillDefault_def)
  note s = checkParallel_sound [OF parts_histories_ok [OF srt ok] c]
  show "res = Ok \<longrightarrow> (\<forall>p \<in> set parts. ops_linearizable (Step model) (Init model) p)"
    "res = Illegal \<longrightarrow> (\<exists>p \<in> set parts. \<not> ops_linearizable (Step model) (Init model) p)"
    "res = Unknown \<longrightarrow> 0 < timeout"
    using s makeEntries_linearizable [OF srt, of "Step model" "Init model"] unfolding step by simp_all
qed

lemma checkOperations_returns:
  assumes srt: "sorts srt" and M: "M = fillDefault fv fs model" and parts: "m_Partition M history = Inr parts" "parts \<noteq> []"
    and ok: "parts_ok M parts"
  shows "\<exists>res info. checkOperations srt fv fs model history verbose timeout res info"
proof -
  let ?hs = "map (makeEntries srt) parts"
  have "\<exists>res pls. checkParallel M ?hs verbose timeout res pls"
    by (rule par_returns [OF par_reach.init parts_histories_ok [OF srt ok]]) (use parts(2) in simp)
  then obtain res pls where "checkParallel M ?hs verbose timeout res pls" by blast
  then show ?thesis using parts(1) unfolding checkOperations_def Let_def M by blast
qed

lemma CheckOperations_decides:
  assumes "sorts srt" and "m_Partition (fillDefault fv fs model) history = Inr parts" and "parts \<noteq> []"
    and "parts_ok (fillDefault fv fs model) parts"
  shows "(\<exists>b. CheckOperations srt fv fs model history b) \<and>
    (\<forall>b. CheckOperations srt fv fs model history b \<longrightarrow>
       (b \<longleftrightarrow> (\<forall>p \<in> set parts. ops_linearizable (Step model) (Init model) p)))"
proof (intro conjI allI impI)
  show "\<exists>b. CheckOperations srt fv fs model history b"
    using checkOperations_returns [OF assms(1) refl assms(2-4)] unfolding CheckOperations_def by blast
next
  fix b assume "CheckOperations srt fv fs model history b"
  then obtain res info where c: "checkOperations srt fv fs model history False 0 res info" and b: "b = (res = Ok)"
    unfolding CheckOperations_def by blast
  note r = checkOperations_result [OF assms(1) refl assms(2,4) c]
  show "b \<longleftrightarrow> (\<forall>p \<in> set parts. ops_linearizable (Step model) (Init model) p)"
    unfolding b using r by (cases res) auto
qed

text \<open>C2: \<^verbatim>\<open>CheckOperations\<close> returns, and returns true exactly when every partition of the history is linearizable:
  there is an order of its operations that the model allows and in which no operation comes after one
  that was called only after it had returned.  This is for a history that the model's \<^verbatim>\<open>Partition\<close> splits
  into at least one part, operations called before they return, and a model that accepts their values.\<close>

theorem CheckOperations_correct:
  assumes "sorts srt" and "m_Partition (fillDefault fv fs model) history = Inr parts" and "parts \<noteq> []"
    and "parts_ok (fillDefault fv fs model) parts"
  shows "(\<exists>b. CheckOperations srt fv fs model history b) \<and>
    (\<forall>b. CheckOperations srt fv fs model history b \<longrightarrow>
       (b \<longleftrightarrow> (\<forall>p \<in> set parts. ops_linearizable (Step model) (Init model) p)))"
  by (rule CheckOperations_decides [OF assms])

definition ex_register :: "(nat, nat) Model" where
  "ex_register = \<lparr>Partition = None, PartitionEvent = None, Init = 0,
     Step = (\<lambda>s i out. Inr (case i of None \<Rightarrow> (out = Some s, s) | Some n \<Rightarrow> (True, n))),
     Equal = None, DescribeOperation = None, DescribeState = None\<rparr>"

definition ex_ops :: "nat Operation list" where
  "ex_ops = [\<lparr>Op_ClientId = 0, Op_Input = Some 3, Op_Call = 0, Op_Output = None, Op_Return = 10\<rparr>,
     \<lparr>Op_ClientId = 1, Op_Input = None, Op_Call = 2, Op_Output = Some 0, Op_Return = 5\<rparr>]"

text \<open>One choice of \<^verbatim>\<open>sort.Sort\<close>: a stable sort by time and kind.\<close>

definition ex_sort :: "'v entry list \<Rightarrow> 'v entry list" where
  "ex_sort es = sort_key (\<lambda>e. 2 * e_time e + (if is_call e then 0 else 1)) es"

lemma ex_sort_sorts: "sorts ex_sort"
proof -
  let ?k = "\<lambda>e. 2 * e_time e + (if is_call e then 0 else 1 :: int)"
  have "\<not> byTime_Less (ex_sort es) j i" if "i < j" "j < length (ex_sort es)" for es :: "'a entry list" and i j
  proof -
    have "sorted (map ?k (ex_sort es))" by (simp add: ex_sort_def)
    then have "?k (ex_sort es ! i) \<le> ?k (ex_sort es ! j)" using that by (simp add: sorted_iff_nth_mono)
    then show ?thesis by (auto simp: byTime_Less_def split: if_splits)
  qed
  then show ?thesis by (simp add: sorts_def ex_sort_def)
qed

theorem CheckOperations_correct_witness:
  "\<exists>b. CheckOperations ex_sort (\<lambda>v. []) (\<lambda>s. []) ex_register ex_ops b \<and> b"
proof -
  let ?M = "fillDefault (\<lambda>v. []) (\<lambda>s. []) ex_register"
  have p: "m_Partition ?M ex_ops = Inr [ex_ops]" by (simp add: fillDefault_def ex_register_def NoPartition_def)
  have "m_Equal ?M = ShallowEqual" by (simp add: fillDefault_def ex_register_def)
  then have ok: "parts_ok ?M [ex_ops]"
    by (simp add: parts_ok_def ShallowEqual_ok) (simp add: ops_ok_def op_steps_ok_def ex_ops_def fillDefault_def ex_register_def)
  have "ops_linearizable (Step ex_register) (Init ex_register) ex_ops"
    unfolding ops_linearizable_def by (intro exI [of _ "[1, 0]"]) (auto simp: ex_ops_def ex_register_def)
  then show ?thesis using CheckOperations_correct [OF ex_sort_sorts p _ ok] by auto
qed

section \<open>Events\<close>

lemma checkEvents_result:
  assumes M: "M = fillDefault fv fs model" and parts: "m_PartitionEvent M history = Inr parts"
    and ok: "equal_ok M" "\<forall>p \<in> set parts. events_ok p \<and> steps_ok M (convertEntries (renumber p))"
    and res: "checkEvents fv fs model history verbose timeout res info"
  shows "(res = Ok \<longrightarrow> (\<forall>p \<in> set parts. linearizable (Step model) (Init model) (convertEntries p))) \<and>
    (res = Illegal \<longrightarrow> (\<exists>p \<in> set parts. \<not> linearizable (Step model) (Init model) (convertEntries p))) \<and>
    (res = Unknown \<longrightarrow> 0 < timeout)"
proof -
  let ?hs = "map (\<lambda>p. convertEntries (renumber p)) parts"
  obtain pls where c: "checkParallel M ?hs verbose timeout res pls"
    using res parts unfolding checkEvents_def Let_def M by auto
  have step: "m_Step M = Step model" "m_Init M = Init model" by (simp_all add: M fillDefault_def)
  have "histories_ok M ?hs" using ok renumber_numbered by (auto simp: histories_ok_def)
  from checkParallel_sound [OF this c] show ?thesis unfolding step by (simp add: renumber_linearizable)
qed

end
