(* ===== verification/PC_Kv.thy ===== *)
theory PC_Kv
  imports PC_Porcupine
begin

text \<open>
  \<^verbatim>\<open>models/kv.go\<close>: the model of a key-value store with get, put and append that the tests of the key-value
  services check histories against.  It partitions a history by key and models one key's value.  The
  theory shows that this is right: a history is linearizable as a store of all keys exactly when each
  key's part is, so that the checker's verdict is about the whole store.
\<close>

section \<open>The model\<close>

record KvInput =
  Kv_Op :: "8 word"
  Kv_Key :: string
  Kv_Value :: string

record KvOutput =
  KvOut_Value :: string

datatype kv_value = KvIn KvInput | KvOut KvOutput

text \<open>The type assertions \<^verbatim>\<open>.(KvInput)\<close> and \<^verbatim>\<open>.(KvOutput)\<close>.\<close>

definition as_input :: "kv_value any \<Rightarrow> go_panic + KvInput" where
  "as_input v = (case v of Some (KvIn i) \<Rightarrow> Inr i | _ \<Rightarrow> Inl (Fatal ''interface conversion''))"

definition as_output :: "kv_value any \<Rightarrow> go_panic + KvOutput" where
  "as_output v = (case v of Some (KvOut out) \<Rightarrow> Inr out | _ \<Rightarrow> Inl (Fatal ''interface conversion''))"

fun kv_group :: "kv_value Operation list \<Rightarrow> (string \<rightharpoonup> kv_value Operation list) \<Rightarrow> go_panic + (string \<rightharpoonup> kv_value Operation list)" where
  "kv_group [] m = Inr m"
| "kv_group (v # history) m =
     andThen (as_input (Op_Input v)) (\<lambda>inp.
       let key = Kv_Key inp
       in kv_group history (m(key \<mapsto> (case m key of None \<Rightarrow> [] | Some l \<Rightarrow> l) @ [v])))"

text \<open>\<open>order m\<close> is the order in which \<^verbatim>\<open>range\<close> visits the map; \<^verbatim>\<open>sort.Strings\<close> sorts the keys.\<close>

definition kv_Partition ::
  "((string \<rightharpoonup> kv_value Operation list) \<Rightarrow> string list) \<Rightarrow> kv_value Operation list \<Rightarrow> go_panic + kv_value Operation list list" where
  "kv_Partition order history =
     andThen (kv_group history Map.empty) (\<lambda>m.
       let keys = sort (order m)
       in Inr (map (\<lambda>k. case m k of None \<Rightarrow> [] | Some l \<Rightarrow> l) keys))"

definition kv_Step :: "(kv_value, string) step_fun" where
  "kv_Step state input output =
     andThen (as_input input) (\<lambda>inp.
     andThen (as_output output) (\<lambda>out.
     if Kv_Op inp = 0 then Inr (KvOut_Value out = state, state)
     else if Kv_Op inp = 1 then Inr (True, Kv_Value inp)
     else Inr (True, state @ Kv_Value inp)))"

definition quoted :: "string \<Rightarrow> string" where
  "quoted s = [CHR 0x27] @ s @ [CHR 0x27]"

definition kv_DescribeOperation :: "kv_value any \<Rightarrow> kv_value any \<Rightarrow> go_panic + string" where
  "kv_DescribeOperation input output =
     andThen (as_input input) (\<lambda>inp.
     andThen (as_output output) (\<lambda>out.
     Inr (if Kv_Op inp = 0 then ''get('' @ quoted (Kv_Key inp) @ '') -> '' @ quoted (KvOut_Value out)
          else if Kv_Op inp = 1 then ''put('' @ quoted (Kv_Key inp) @ '', '' @ quoted (Kv_Value inp) @ '')''
          else if Kv_Op inp = 2 then ''append('' @ quoted (Kv_Key inp) @ '', '' @ quoted (Kv_Value inp) @ '')''
          else ''<invalid>'')))"

definition KvModel :: "((string \<rightharpoonup> kv_value Operation list) \<Rightarrow> string list) \<Rightarrow> (kv_value, string) Model" where
  "KvModel order = \<lparr>Partition = Some (kv_Partition order), PartitionEvent = None, Init = [], Step = kv_Step,
     Equal = None, DescribeOperation = Some kv_DescribeOperation, DescribeState = None\<rparr>"

section \<open>The store of all keys\<close>

definition kv_typed :: "kv_value Operation \<Rightarrow> bool" where
  "kv_typed x \<longleftrightarrow> (\<exists>i out. Op_Input x = Some (KvIn i) \<and> Op_Output x = Some (KvOut out))"

definition op_key :: "kv_value Operation \<Rightarrow> string" where
  "op_key x = (case Op_Input x of Some (KvIn i) \<Rightarrow> Kv_Key i | _ \<Rightarrow> [])"

definition op_pair :: "'v Operation \<Rightarrow> 'v any \<times> 'v any" where
  "op_pair x = (Op_Input x, Op_Output x)"

text \<open>The store as a client sees it: a get returns the key's value and changes nothing, a put replaces it, an
  append extends it.\<close>

definition store_Step :: "(kv_value, string \<Rightarrow> string) step_fun" where
  "store_Step state input output =
     (case (input, output) of
        (Some (KvIn i), Some (KvOut out)) \<Rightarrow>
          (let k = Kv_Key i
           in Inr (if Kv_Op i = 0 then (KvOut_Value out = state k, state)
                   else if Kv_Op i = 1 then (True, state(k := Kv_Value i))
                   else (True, state(k := state k @ Kv_Value i))))
      | _ \<Rightarrow> Inl (Fatal ''interface conversion''))"

lemma kv_Step_typed: "kv_typed x \<Longrightarrow> \<exists>r. kv_Step s (Op_Input x) (Op_Output x) = Inr r"
  by (auto simp: kv_typed_def kv_Step_def as_input_def as_output_def)

lemma store_Step_typed:
  "kv_typed x \<Longrightarrow> store_Step s (Op_Input x) (Op_Output x) =
     andThen (kv_Step (s (op_key x)) (Op_Input x) (Op_Output x)) (\<lambda>(ok, v). Inr (ok, s(op_key x := v)))"
  by (auto simp: kv_typed_def store_Step_def kv_Step_def op_key_def as_input_def as_output_def Let_def)

section \<open>Linearizations as lists of operations\<close>

definition in_real_time :: "'v Operation list \<Rightarrow> bool" where
  "in_real_time xs \<longleftrightarrow> sorted_wrt (\<lambda>a b. \<not> Op_Return b < Op_Call a) xs"

lemma image_mset_list: "image_mset f M = mset ys \<Longrightarrow> \<exists>xs. mset xs = M \<and> map f xs = ys"
proof (induction ys arbitrary: M)
  case (Cons y ys)
  then obtain M1 a where M: "M = add_mset a M1" "f a = y" "image_mset f M1 = mset ys"
    using msed_map_invR [of f M y "mset ys"] by auto
  from Cons.IH [OF M(3)] obtain xs where "mset xs = M1" "map f xs = ys" by blast
  then show ?case using M by (intro exI [of _ "a # xs"]) simp
qed simp

lemma ops_linearizable_list:
  "ops_linearizable step s ops \<longleftrightarrow> (\<exists>xs. mset xs = mset ops \<and> legal_run step s (map op_pair xs) \<noteq> None \<and> in_real_time xs)"
proof
  assume "ops_linearizable step s ops"
  then obtain seq where seq: "distinct seq" "set seq = {0..<int (length ops)}"
    "legal_run step s (map (\<lambda>i. (Op_Input (ops ! nat i), Op_Output (ops ! nat i))) seq) \<noteq> None"
    "sorted_wrt (\<lambda>a b. \<not> Op_Return (ops ! nat b) < Op_Call (ops ! nat a)) seq" unfolding ops_linearizable_def by blast
  let ?xs = "map (\<lambda>i. ops ! nat i) seq"
  have "mset seq = mset (map int [0..<length ops])"
    using seq(1,2) by (intro set_eq_iff_mset_eq_distinct [THEN iffD1]) (auto simp: distinct_map image_int_atLeastLessThan)
  then have "mset ?xs = mset (map (\<lambda>i. ops ! nat i) (map int [0..<length ops]))" by (simp only: mset_map)
  also have "\<dots> = mset ops" by (simp add: comp_def map_nth)
  finally have "mset ?xs = mset ops" .
  moreover have "legal_run step s (map op_pair ?xs) \<noteq> None" using seq(3) by (simp add: op_pair_def comp_def)
  moreover have "in_real_time ?xs" using seq(4) by (simp add: in_real_time_def sorted_wrt_map)
  ultimately show "\<exists>xs. mset xs = mset ops \<and> legal_run step s (map op_pair xs) \<noteq> None \<and> in_real_time xs" by blast
next
  assume "\<exists>xs. mset xs = mset ops \<and> legal_run step s (map op_pair xs) \<noteq> None \<and> in_real_time xs"
  then obtain xs where xs: "mset xs = mset ops" "legal_run step s (map op_pair xs) \<noteq> None" "in_real_time xs" by blast
  have "image_mset (\<lambda>i. ops ! nat i) (mset (map int [0..<length ops])) = mset xs"
    unfolding mset_map [symmetric] xs(1) by (simp add: comp_def map_nth)
  from image_mset_list [OF this] obtain seq where seq: "mset seq = mset (map int [0..<length ops])" "map (\<lambda>i. ops ! nat i) seq = xs"
    by blast
  have "distinct seq" "set seq = {0..<int (length ops)}"
    using mset_eq_imp_distinct_iff [OF seq(1)] mset_eq_setD [OF seq(1)]
    by (auto simp: distinct_map image_int_atLeastLessThan)
  moreover have "legal_run step s (map (\<lambda>i. (Op_Input (ops ! nat i), Op_Output (ops ! nat i))) seq) \<noteq> None"
    using xs(2) unfolding seq(2) [symmetric] by (simp add: op_pair_def comp_def)
  moreover have "sorted_wrt (\<lambda>a b. \<not> Op_Return (ops ! nat b) < Op_Call (ops ! nat a)) seq"
    using xs(3) unfolding seq(2) [symmetric] by (simp add: in_real_time_def sorted_wrt_map)
  ultimately show "ops_linearizable step s ops" unfolding ops_linearizable_def by blast
qed

section \<open>Locality\<close>

lemma store_run_key:
  assumes "legal_run store_Step s (map op_pair xs) = Some s'" and "\<forall>x \<in> set xs. kv_typed x"
  shows "legal_run kv_Step (s k) (map op_pair (filter (\<lambda>x. op_key x = k) xs)) = Some (s' k)"
  using assms
proof (induction xs arbitrary: s)
  case (Cons x xs)
  have t: "kv_typed x" "\<forall>x \<in> set xs. kv_typed x" using Cons.prems(2) by simp_all
  obtain r where "kv_Step (s (op_key x)) (Op_Input x) (Op_Output x) = Inr r" using kv_Step_typed [OF t(1)] by blast
  then obtain ok v where v: "kv_Step (s (op_key x)) (Op_Input x) (Op_Output x) = Inr (ok, v)" by (cases r) simp
  then have "store_Step s (Op_Input x) (Op_Output x) = Inr (ok, s(op_key x := v))" by (simp add: store_Step_typed [OF t(1)])
  then have "ok \<and> legal_run store_Step (s(op_key x := v)) (map op_pair xs) = Some s'"
    using Cons.prems(1) by (cases ok) (simp_all add: op_pair_def [of x])
  then have ok: ok "legal_run store_Step (s(op_key x := v)) (map op_pair xs) = Some s'" by simp_all
  note IH = Cons.IH [OF ok(2) t(2)]
  show ?case using IH ok(1) v by (cases "op_key x = k") (simp_all add: op_pair_def [of x])
qed simp

lemma store_run_exists:
  assumes "\<And>k. legal_run kv_Step (s k) (map op_pair (filter (\<lambda>x. op_key x = k) xs)) \<noteq> None" and "\<forall>x \<in> set xs. kv_typed x"
  shows "legal_run store_Step s (map op_pair xs) \<noteq> None"
  using assms
proof (induction xs arbitrary: s)
  case (Cons x xs)
  let ?k = "op_key x"
  have "legal_run kv_Step (s ?k) (op_pair x # map op_pair (filter (\<lambda>y. op_key y = ?k) xs)) \<noteq> None"
    using Cons.prems(1) [of ?k] by simp
  then obtain v where v: "kv_Step (s ?k) (Op_Input x) (Op_Output x) = Inr (True, v)"
    "legal_run kv_Step v (map op_pair (filter (\<lambda>y. op_key y = ?k) xs)) \<noteq> None"
    unfolding legal_run_Cons by (auto simp: op_pair_def)
  have "legal_run kv_Step ((s(?k := v)) k) (map op_pair (filter (\<lambda>y. op_key y = k) xs)) \<noteq> None" for k
    using v(2) Cons.prems(1) [of k] by (cases "k = ?k") auto
  then have "legal_run store_Step (s(?k := v)) (map op_pair xs) \<noteq> None" using Cons.IH Cons.prems(2) by simp
  moreover have "store_Step s (Op_Input x) (Op_Output x) = Inr (True, s(?k := v))" using store_Step_typed Cons.prems(2) v(1) by simp
  ultimately show ?case unfolding list.map legal_run_Cons by (simp add: op_pair_def)
qed simp

text \<open>Points in time, one for each operation of a linearization: between its call and its return, and
  ascending.\<close>

fun points :: "int \<Rightarrow> 'v Operation list \<Rightarrow> ('v Operation \<times> int) list" where
  "points m [] = []"
| "points m (x # xs) = (x, max m (Op_Call x)) # points (max m (Op_Call x)) xs"

lemma points_fst [simp]: "map fst (points m xs) = xs"
  by (induction xs arbitrary: m) simp_all

lemma points_ge: "(x, t) \<in> set (points m xs) \<Longrightarrow> m \<le> t \<and> Op_Call x \<le> t"
  by (induction xs arbitrary: m) fastforce+

lemma points_sorted: "sorted (map snd (points m xs))"
  by (induction xs arbitrary: m) (auto dest: points_ge)

lemma points_le:
  assumes "in_real_time xs" and "\<forall>x \<in> set xs. m \<le> Op_Return x" and "ops_ok xs" and "(x, t) \<in> set (points m xs)"
  shows "t \<le> Op_Return x"
  using assms
proof (induction xs arbitrary: m)
  case (Cons y xs)
  have "\<forall>z \<in> set xs. max m (Op_Call y) \<le> Op_Return z" using Cons.prems(1,2) by (auto simp: in_real_time_def)
  then have "t \<le> Op_Return x" if "(x, t) \<in> set (points (max m (Op_Call y)) xs)"
    using Cons.IH [OF _ _ _ that] Cons.prems(1,3) by (simp add: in_real_time_def ops_ok_def)
  then show ?case using Cons.prems(2-4) by (auto simp: ops_ok_def)
qed simp

definition timed :: "'v Operation list \<Rightarrow> ('v Operation \<times> int) list" where
  "timed xs = (case xs of [] \<Rightarrow> [] | x # _ \<Rightarrow> points (Op_Call x) xs)"

lemma timed_points:
  assumes "in_real_time xs" and "ops_ok xs"
  shows "map fst (timed xs) = xs" and "sorted (map snd (timed xs))" and "(x, t) \<in> set (timed xs) \<Longrightarrow> Op_Call x \<le> t \<and> t \<le> Op_Return x"
proof -
  show "map fst (timed xs) = xs" by (simp only: timed_def points_fst list.map split: list.split) simp
  show "sorted (map snd (timed xs))" using points_sorted by (cases xs) (simp_all only: timed_def list.case list.map sorted_simps)
  assume "(x, t) \<in> set (timed xs)"
  then obtain y ys where xs: "xs = y # ys" "(x, t) \<in> set (points (Op_Call y) xs)" by (cases xs) (auto simp: timed_def)
  have "\<forall>z \<in> set xs. Op_Call y \<le> Op_Return z" using assms xs(1) by (auto simp: in_real_time_def ops_ok_def)
  then show "Op_Call x \<le> t \<and> t \<le> Op_Return x" using points_ge [OF xs(2)] points_le [OF assms(1) _ assms(2) xs(2)] by blast
qed

text \<open>Linearizations of the keys merge into one, in the order of their points.\<close>

definition merged :: "('k \<Rightarrow> 'v Operation list) \<Rightarrow> 'k list \<Rightarrow> 'v Operation list" where
  "merged lz ks = map fst (sort_key snd (concat (map (\<lambda>k. timed (lz k)) ks)))"

lemma merged_real_time:
  assumes "\<forall>k \<in> set ks. in_real_time (lz k) \<and> ops_ok (lz k)"
  shows "in_real_time (merged lz ks)"
proof -
  let ?L = "sort_key snd (concat (map (\<lambda>k. timed (lz k)) ks))"
  have mem: "Op_Call (fst p) \<le> snd p \<and> snd p \<le> Op_Return (fst p)" if p: "p \<in> set ?L" for p
  proof -
    obtain k where "k \<in> set ks" "p \<in> set (timed (lz k))" using p by auto
    then show ?thesis using timed_points(3) [of "lz k" "fst p" "snd p"] assms by simp
  qed
  have "sorted (map snd ?L)" by simp
  then have "sorted_wrt (\<lambda>p q. snd p \<le> snd q) ?L" by (simp add: sorted_wrt_map)
  then have "sorted_wrt (\<lambda>p q. \<not> Op_Return (fst q) < Op_Call (fst p)) ?L"
  proof (rule sorted_wrt_mono_rel [rotated])
    fix p q
    assume "p \<in> set ?L" "q \<in> set ?L" "snd p \<le> snd q"
    then show "\<not> Op_Return (fst q) < Op_Call (fst p)" using mem [of p] mem [of q] by linarith
  qed
  then show ?thesis by (simp add: in_real_time_def merged_def sorted_wrt_map)
qed

lemma timed_keys:
  assumes "distinct ks" and "k \<in> set ks" and "\<forall>k \<in> set ks. in_real_time (lz k) \<and> ops_ok (lz k) \<and> (\<forall>x \<in> set (lz k). key x = k)"
  shows "filter (\<lambda>p. key (fst p) = k) (concat (map (\<lambda>k. timed (lz k)) ks)) = timed (lz k)"
proof -
  have key: "key (fst p) = k'" if "k' \<in> set ks" "p \<in> set (timed (lz k'))" for p k'
    using assms(3) that timed_points(1) by (metis in_set_conv_nth length_map nth_map nth_mem)
  have "filter (\<lambda>p. key (fst p) = k) (concat (map (\<lambda>k. timed (lz k)) js)) = (if k \<in> set js then timed (lz k) else [])"
    if "distinct js" "set js \<subseteq> set ks" for js
    using that
  proof (induction js)
    case (Cons j js)
    have "filter (\<lambda>p. key (fst p) = k) (timed (lz j)) = (if j = k then timed (lz k) else [])"
      using key [of j] Cons.prems by (auto simp: filter_id_conv filter_empty_conv)
    then show ?case using Cons by auto
  qed simp
  then show ?thesis using assms(1,2) by simp
qed

lemma merged_key:
  assumes "distinct ks" and "k \<in> set ks" and "\<forall>k \<in> set ks. in_real_time (lz k) \<and> ops_ok (lz k) \<and> (\<forall>x \<in> set (lz k). key x = k)"
  shows "filter (\<lambda>x. key x = k) (merged lz ks) = lz k"
proof -
  let ?C = "concat (map (\<lambda>k. timed (lz k)) ks)"
  have "filter (\<lambda>p. key (fst p) = k) (sort_key snd ?C) = sort_key snd (timed (lz k))"
    by (simp only: filter_sort timed_keys [OF assms])
  also have "\<dots> = timed (lz k)" using assms(2,3) timed_points(2) by (intro sort_key_id_if_sorted) blast
  finally have "map fst (filter (\<lambda>p. key (fst p) = k) (sort_key snd ?C)) = lz k" using assms(2,3) timed_points(1) by metis
  then show ?thesis by (simp add: merged_def filter_map comp_def)
qed


lemma merged_mset:
  assumes "\<forall>k \<in> set ks. in_real_time (lz k) \<and> ops_ok (lz k)"
  shows "mset (merged lz ks) = mset (concat (map lz ks))"
proof -
  have "map fst (concat (map (\<lambda>k. timed (lz k)) ks)) = concat (map lz ks)"
    using assms by (induction ks) (simp_all add: timed_points(1))
  then show ?thesis by (metis merged_def mset_map mset_sort)
qed

lemma mset_by_key:
  assumes "distinct ks" and "\<forall>x \<in> set xs. key x \<in> set ks"
  shows "mset (concat (map (\<lambda>k. filter (\<lambda>x. key x = k) xs) ks)) = mset xs"
  using assms
proof (induction ks arbitrary: xs)
  case (Cons k ks)
  let ?ys = "filter (\<lambda>x. key x \<noteq> k) xs"
  have "filter (\<lambda>x. key x = j) ?ys = filter (\<lambda>x. key x = j) xs" if "j \<in> set ks" for j
    using that Cons.prems(1) by (auto intro: filter_cong)
  then have m: "map (\<lambda>k. filter (\<lambda>x. key x = k) ?ys) ks = map (\<lambda>k. filter (\<lambda>x. key x = k) xs) ks" by (intro map_cong) blast+
  have "mset (concat (map (\<lambda>k. filter (\<lambda>x. key x = k) ?ys) ks)) = mset ?ys"
    by (rule Cons.IH) (use Cons.prems in auto)
  then have "mset (concat (map (\<lambda>k. filter (\<lambda>x. key x = k) xs) ks)) = mset ?ys" unfolding m .
  then show ?case by (simp add: mset_filter flip: multiset_partition)
qed simp

lemma store_linearizable_key:
  assumes typed: "\<forall>x \<in> set ops. kv_typed x" and "ops_linearizable store_Step s ops"
  shows "ops_linearizable kv_Step (s k) (filter (\<lambda>x. op_key x = k) ops)"
proof -
  obtain xs s' where xs: "mset xs = mset ops" "legal_run store_Step s (map op_pair xs) = Some s'" "in_real_time xs"
    using assms(2) unfolding ops_linearizable_list by blast
  have "\<forall>x \<in> set xs. kv_typed x" using typed mset_eq_setD [OF xs(1)] by blast
  then have "legal_run kv_Step (s k) (map op_pair (filter (\<lambda>x. op_key x = k) xs)) \<noteq> None"
    using store_run_key [OF xs(2)] by simp
  moreover have "in_real_time (filter (\<lambda>x. op_key x = k) xs)" using xs(3) by (simp add: in_real_time_def sorted_wrt_filter)
  moreover have "mset (filter (\<lambda>x. op_key x = k) xs) = mset (filter (\<lambda>x. op_key x = k) ops)" by (simp add: xs(1))
  ultimately show ?thesis unfolding ops_linearizable_list by blast
qed

lemma keys_linearizable_store:
  assumes typed: "\<forall>x \<in> set ops. kv_typed x" and ok: "ops_ok ops"
    and keys: "\<And>k. ops_linearizable kv_Step (s k) (filter (\<lambda>x. op_key x = k) ops)"
  shows "ops_linearizable store_Step s ops"
proof -
  have "\<forall>k. \<exists>xs. mset xs = mset (filter (\<lambda>x. op_key x = k) ops) \<and> legal_run kv_Step (s k) (map op_pair xs) \<noteq> None \<and> in_real_time xs"
    using keys unfolding ops_linearizable_list by blast
  then obtain lz where lz: "\<And>k. mset (lz k) = mset (filter (\<lambda>x. op_key x = k) ops)"
    "\<And>k. legal_run kv_Step (s k) (map op_pair (lz k)) \<noteq> None" "\<And>k. in_real_time (lz k)" by metis
  define ks where "ks = remdups (map op_key ops)"
  have set_lz: "set (lz k) = {x \<in> set ops. op_key x = k}" for k using mset_eq_setD [OF lz(1)] by auto
  have inv: "\<forall>k \<in> set ks. in_real_time (lz k) \<and> ops_ok (lz k) \<and> (\<forall>x \<in> set (lz k). op_key x = k)"
    using ok lz(3) by (simp add: ops_ok_def set_lz)
  have "mset (merged lz ks) = mset (concat (map lz ks))" by (rule merged_mset) (use inv in blast)
  also have "\<dots> = mset (concat (map (\<lambda>k. filter (\<lambda>x. op_key x = k) ops) ks))" by (simp add: mset_concat lz(1) comp_def)
  also have "\<dots> = mset ops" by (rule mset_by_key) (simp_all add: ks_def)
  finally have m: "mset (merged lz ks) = mset ops" .
  have part: "legal_run kv_Step (s k) (map op_pair (filter (\<lambda>x. op_key x = k) (merged lz ks))) \<noteq> None" for k
  proof (cases "k \<in> set ks")
    case True
    have "distinct ks" by (simp add: ks_def)
    then show ?thesis using lz(2) [of k] merged_key [OF _ True inv] by simp
  next
    case False
    then have "filter (\<lambda>x. op_key x = k) (merged lz ks) = []" using mset_eq_setD [OF m] by (auto simp: filter_empty_conv ks_def)
    then show ?thesis by simp
  qed
  have "\<forall>x \<in> set (merged lz ks). kv_typed x" using typed mset_eq_setD [OF m] by blast
  then have "legal_run store_Step s (map op_pair (merged lz ks)) \<noteq> None" by (rule store_run_exists [OF part])
  moreover have "in_real_time (merged lz ks)" by (rule merged_real_time) (use inv in blast)
  ultimately show ?thesis using m unfolding ops_linearizable_list by blast
qed

section \<open>The partition\<close>

lemma as_input_typed: "kv_typed x \<Longrightarrow> \<exists>i. as_input (Op_Input x) = Inr i \<and> Kv_Key i = op_key x"
  by (auto simp: kv_typed_def as_input_def op_key_def)

lemma kv_group_typed:
  "\<forall>x \<in> set history. kv_typed x \<Longrightarrow> kv_group history m =
     Inr (\<lambda>k. if filter (\<lambda>x. op_key x = k) history = [] then m k
              else Some ((case m k of None \<Rightarrow> [] | Some l \<Rightarrow> l) @ filter (\<lambda>x. op_key x = k) history))"
proof (induction history arbitrary: m)
  case (Cons v history)
  then obtain i where "as_input (Op_Input v) = Inr i" "Kv_Key i = op_key v" using as_input_typed [of v] by auto
  then show ?case using Cons by (simp add: Let_def fun_eq_iff)
qed simp

lemma kv_Partition_typed:
  assumes "\<forall>x \<in> set history. kv_typed x" and "\<And>m. finite (dom m) \<Longrightarrow> range_order m (order m)"
  shows "\<exists>keys. distinct keys \<and> set keys = op_key ` set history \<and>
    kv_Partition order history = Inr (map (\<lambda>k. filter (\<lambda>x. op_key x = k) history) keys)"
proof -
  let ?m = "\<lambda>k. if filter (\<lambda>x. op_key x = k) history = [] then None else Some (filter (\<lambda>x. op_key x = k) history)"
  have m: "kv_group history Map.empty = Inr ?m" by (simp add: kv_group_typed [OF assms(1)] cong: if_cong)
  have dom: "dom ?m = op_key ` set history" by (auto simp: dom_def filter_empty_conv)
  then have "finite (dom ?m)" by simp
  then have r: "range_order ?m (order ?m)" by (rule assms(2))
  then have "distinct (sort (order ?m))" "set (sort (order ?m)) = op_key ` set history" unfolding range_order_def dom by simp_all
  moreover have "kv_Partition order history = Inr (map (\<lambda>k. filter (\<lambda>x. op_key x = k) history) (sort (order ?m)))"
    unfolding kv_Partition_def m by (simp add: Let_def)
  ultimately show ?thesis by blast
qed


lemma kv_parts_local:
  assumes "\<forall>x \<in> set history. kv_typed x" and "ops_ok history" and "set keys = op_key ` set history"
  shows "(\<forall>k \<in> set keys. ops_linearizable kv_Step [] (filter (\<lambda>x. op_key x = k) history)) \<longleftrightarrow>
    ops_linearizable store_Step (\<lambda>_. []) history"
proof
  assume k: "\<forall>k \<in> set keys. ops_linearizable kv_Step [] (filter (\<lambda>x. op_key x = k) history)"
  have "ops_linearizable kv_Step [] (filter (\<lambda>x. op_key x = k) history)" for k
  proof (cases "k \<in> set keys")
    case False
    then have f: "filter (\<lambda>x. op_key x = k) history = []" using assms(3) by (auto simp: filter_empty_conv)
    show ?thesis unfolding f ops_linearizable_list by (intro exI [of _ "[]"]) (simp add: in_real_time_def)
  qed (use k in blast)
  then show "ops_linearizable store_Step (\<lambda>_. []) history" by (rule keys_linearizable_store [OF assms(1,2)])
qed (use store_linearizable_key [OF assms(1)] in blast)

lemma KvModel_filled:
  "m_Partition (fillDefault fv fs (KvModel order)) = kv_Partition order" "m_Step (fillDefault fv fs (KvModel order)) = kv_Step"
  "equal_ok (fillDefault fv fs (KvModel order))"
  by (simp_all add: fillDefault_def KvModel_def ShallowEqual_ok)

text \<open>C9: \<^verbatim>\<open>CheckOperations\<close> with the key-value model decides linearizability of the history as a store of
  all keys, although the model partitions by key and knows one key's value only: it returns for every
  non-empty history of gets, puts and appends, and returns true exactly when some order of all
  operations, respecting real time, is a run of the whole store from empty values.\<close>

theorem kv_check_correct:
  assumes "sorts srt" and "\<And>m. finite (dom m) \<Longrightarrow> range_order m (order m)"
    and "history \<noteq> []" and "\<forall>x \<in> set history. kv_typed x" and "ops_ok history"
  shows "(\<exists>b. CheckOperations srt fv fs (KvModel order) history b) \<and>
    (\<forall>b. CheckOperations srt fv fs (KvModel order) history b \<longrightarrow>
       (b \<longleftrightarrow> ops_linearizable store_Step (\<lambda>_. []) history))"
proof -
  let ?M = "fillDefault fv fs (KvModel order)"
  obtain keys where keys: "set keys = op_key ` set history"
    "kv_Partition order history = Inr (map (\<lambda>k. filter (\<lambda>x. op_key x = k) history) keys)" (is "_ = Inr ?parts")
    using kv_Partition_typed [OF assms(4,2)] by blast
  have p: "m_Partition ?M history = Inr ?parts" by (simp add: KvModel_filled keys(2))
  have ne: "?parts \<noteq> []" using keys(1) assms(3) by auto
  have ok: "parts_ok ?M ?parts"
    using assms(4,5) kv_Step_typed by (auto simp: parts_ok_def KvModel_filled ops_ok_def op_steps_ok_def)
  have st: "Step (KvModel order) = kv_Step" "Init (KvModel order) = []" by (simp_all add: KvModel_def)
  have "(\<forall>p \<in> set ?parts. ops_linearizable kv_Step [] p) \<longleftrightarrow> ops_linearizable store_Step (\<lambda>_. []) history"
    using kv_parts_local [OF assms(4,5) keys(1)] by simp
  then show ?thesis using CheckOperations_decides [OF assms(1) p ne ok] unfolding st by blast
qed

definition ex_kv_order :: "(string \<rightharpoonup> kv_value Operation list) \<Rightarrow> string list" where
  "ex_kv_order m = (if finite (dom m) then sorted_list_of_set (dom m) else [])"

definition ex_kv_op :: "8 word \<Rightarrow> string \<Rightarrow> string \<Rightarrow> string \<Rightarrow> int \<Rightarrow> int \<Rightarrow> kv_value Operation" where
  "ex_kv_op op key val out call ret = \<lparr>Op_ClientId = 0, Op_Input = Some (KvIn \<lparr>Kv_Op = op, Kv_Key = key, Kv_Value = val\<rparr>),
     Op_Call = call, Op_Output = Some (KvOut \<lparr>KvOut_Value = out\<rparr>), Op_Return = ret\<rparr>"

definition ex_kv_history :: "kv_value Operation list" where
  "ex_kv_history = [ex_kv_op 1 ''x'' ''a'' [] 0 4, ex_kv_op 0 ''y'' [] [] 1 2, ex_kv_op 0 ''x'' [] ''a'' 3 5]"

theorem kv_check_correct_witness:
  "\<exists>b. CheckOperations ex_sort (\<lambda>v. []) (\<lambda>s. []) (KvModel ex_kv_order) ex_kv_history b \<and> b"
proof -
  have r: "\<And>m. finite (dom m) \<Longrightarrow> range_order m (ex_kv_order m)" by (simp add: range_order_def ex_kv_order_def)
  have t: "\<forall>x \<in> set ex_kv_history. kv_typed x" "ops_ok ex_kv_history"
    by (simp_all add: ex_kv_history_def ex_kv_op_def kv_typed_def ops_ok_def)
  have "ops_linearizable store_Step (\<lambda>_. []) ex_kv_history"
    unfolding ops_linearizable_list
    by (intro exI [of _ ex_kv_history])
      (simp add: ex_kv_history_def ex_kv_op_def op_pair_def in_real_time_def store_Step_def kv_Step_def as_input_def as_output_def)
  moreover have "ex_kv_history \<noteq> []" by (simp add: ex_kv_history_def)
  ultimately show ?thesis using kv_check_correct [of ex_sort ex_kv_order ex_kv_history "\<lambda>v. []" "\<lambda>s. []"] ex_sort_sorts r t by blast
qed

text \<open>C31: an empty history has no partition, and \<^verbatim>\<open>CheckOperations\<close> of no partition never returns: there is no
  result it can return with, for every order of the map's keys.\<close>

theorem kv_empty_history_blocks:
  assumes "range_order Map.empty (order Map.empty)"
  shows "\<not> CheckOperations srt fv fs (KvModel order) [] b"
proof -
  have "kv_Partition order [] = Inr []" using assms by (simp add: kv_Partition_def range_order_def)
  then show ?thesis using checkParallel_no_partition by (auto simp: CheckOperations_def checkOperations_def Let_def KvModel_filled)
qed

theorem kv_empty_history_blocks_witness:
  "\<not> CheckOperations ex_sort (\<lambda>v. []) (\<lambda>s. []) (KvModel ex_kv_order) [] True \<and>
   \<not> CheckOperations ex_sort (\<lambda>v. []) (\<lambda>s. []) (KvModel ex_kv_order) [] False"
proof -
  have "range_order Map.empty (ex_kv_order Map.empty)" by (simp add: range_order_def ex_kv_order_def)
  then show ?thesis by (intro conjI kv_empty_history_blocks)
qed

end
