(* ===== verification/PC_Visualize.thy ===== *)
theory PC_Visualize
  imports PC_Porcupine Go_Json Go_OS
begin

text \<open>
  \<^verbatim>\<open>porcupine/visualization.go\<close>: the data of the page that shows a checked history, and its output.
  \<open>srt\<close> is the choice \<^verbatim>\<open>sort.Slice\<close> makes among the orders by descending length; the text of the page
  before and after the data is an argument.  The theory shows that the data of a check that kept its
  partial linearizations is computed without a panic, and what it holds.
\<close>

section \<open>The data\<close>

record historyElement =
  H_ClientId :: int
  H_Start :: int
  H_End :: int
  H_Description :: string

record linearizationStep =
  LS_Index :: int
  LS_StateDescription :: string

type_synonym partialLinearization = "linearizationStep list"

record partitionVisualizationData =
  PV_History :: "historyElement list"
  PV_PartialLinearizations :: "partialLinearization list"
  PV_Largest :: "int \<rightharpoonup> int"

definition zeroElement :: historyElement where
  "zeroElement = \<lparr>H_ClientId = 0, H_Start = 0, H_End = 0, H_Description = []\<rparr>"

text \<open>A map from ids to interface values yields nil where it has no entry.\<close>

definition value_at :: "(int \<rightharpoonup> 'v any) \<Rightarrow> int \<Rightarrow> 'v any" where
  "value_at m i = (case m i of None \<Rightarrow> None | Some v \<Rightarrow> v)"

definition slice_index :: "'a list \<Rightarrow> int \<Rightarrow> go_panic + nat" where
  "slice_index xs i = (if 0 \<le> i \<and> i < int (length xs) then Inr (nat i) else Inl IndexOutOfRange)"

fun historyLoop ::
  "('v, 's) FilledModel \<Rightarrow> 'v entry list \<Rightarrow> historyElement list \<Rightarrow> (int \<rightharpoonup> 'v any) \<Rightarrow> (int \<rightharpoonup> 'v any) \<Rightarrow>
   go_panic + (historyElement list \<times> (int \<rightharpoonup> 'v any) \<times> (int \<rightharpoonup> 'v any))" where
  "historyLoop M [] history callValue returnValue = Inr (history, callValue, returnValue)"
| "historyLoop M (elem # es) history callValue returnValue =
     andThen (slice_index history (e_id elem)) (\<lambda>i.
     case e_kind elem of
       callEntry \<Rightarrow>
         historyLoop M es (history[i := (history ! i)\<lparr>H_ClientId := e_clientId elem, H_Start := e_time elem\<rparr>])
           (callValue(e_id elem \<mapsto> e_value elem)) returnValue
     | returnEntry \<Rightarrow>
         andThen (m_DescribeOperation M (value_at callValue (e_id elem)) (e_value elem)) (\<lambda>d.
         historyLoop M es (history[i := (history ! i)\<lparr>H_End := e_time elem, H_Description := d\<rparr>])
           callValue (returnValue(e_id elem \<mapsto> e_value elem))))"

text \<open>The maps \<^verbatim>\<open>largestSize\<close> and \<^verbatim>\<open>largestIndex\<close>.\<close>

type_synonym largest = "(int \<rightharpoonup> int) \<times> (int \<rightharpoonup> int)"

definition noteLargest :: "int \<Rightarrow> int \<Rightarrow> int \<Rightarrow> largest \<Rightarrow> largest" where
  "noteLargest i n histId l =
     (if (case fst l histId of None \<Rightarrow> 0 | Some z \<Rightarrow> z) < n
      then ((fst l)(histId \<mapsto> n), (snd l)(histId \<mapsto> i)) else l)"

fun stepLoop ::
  "('v, 's) FilledModel \<Rightarrow> (int \<Rightarrow> 'v any) \<Rightarrow> (int \<Rightarrow> 'v any) \<Rightarrow> int \<Rightarrow> int \<Rightarrow> int list \<Rightarrow> 's \<Rightarrow> largest \<Rightarrow>
   go_panic + (partialLinearization \<times> largest)" where
  "stepLoop M cv rv i n [] state l = Inr ([], l)"
| "stepLoop M cv rv i n (histId # partial) state l =
     andThen (m_Step M state (cv histId) (rv histId)) (\<lambda>(ok, state).
     if \<not> ok then Inl (Fatal ''valid partial linearization returned non-ok result from model step'')
     else andThen (m_DescribeState M state) (\<lambda>stateDesc.
          andThen (stepLoop M cv rv i n partial state (noteLargest i n histId l)) (\<lambda>(linearization, l).
          Inr (\<lparr>LS_Index = histId, LS_StateDescription = stateDesc\<rparr> # linearization, l))))"

fun partialsLoop ::
  "('v, 's) FilledModel \<Rightarrow> (int \<Rightarrow> 'v any) \<Rightarrow> (int \<Rightarrow> 'v any) \<Rightarrow> int \<Rightarrow> int list list \<Rightarrow> largest \<Rightarrow>
   go_panic + (partialLinearization list \<times> largest)" where
  "partialsLoop M cv rv i [] l = Inr ([], l)"
| "partialsLoop M cv rv i (partial # ps) l =
     andThen (stepLoop M cv rv i (int (length partial)) partial (m_Init M) l) (\<lambda>(linearization, l).
     andThen (partialsLoop M cv rv (i + 1) ps l) (\<lambda>(linearizations, l).
     Inr (linearization # linearizations, l)))"

text \<open>One partition: its data, and its partial linearizations, which \<^verbatim>\<open>sort.Slice\<close> reorders in place.  \<open>None\<close>
  is an index beyond \<^verbatim>\<open>info.partialLinearizations\<close>.\<close>

definition visualizePartition ::
  "(int list list \<Rightarrow> int list list) \<Rightarrow> ('v, 's) FilledModel \<Rightarrow> 'v entry list \<Rightarrow> int list list option \<Rightarrow>
   go_panic + (partitionVisualizationData \<times> int list list)" where
  "visualizePartition srt M hist ps =
     andThen (historyLoop M hist (replicate (length hist div 2) zeroElement) Map.empty Map.empty) (\<lambda>(history, callValue, returnValue).
     case ps of
       None \<Rightarrow> Inl IndexOutOfRange
     | Some ps \<Rightarrow>
         andThen (partialsLoop M (value_at callValue) (value_at returnValue) 0 (srt ps) (Map.empty, Map.empty)) (\<lambda>(linearizations, l).
         Inr (\<lparr>PV_History = history, PV_PartialLinearizations = linearizations, PV_Largest = snd l\<rparr>, srt ps)))"

fun visualizeLoop ::
  "(int list list \<Rightarrow> int list list) \<Rightarrow> ('v, 's) FilledModel \<Rightarrow> 'v entry list list \<Rightarrow> int list list list \<Rightarrow>
   go_panic + (partitionVisualizationData list \<times> int list list list)" where
  "visualizeLoop srt M [] pls = Inr ([], pls)"
| "visualizeLoop srt M (hist # hists) pls =
     andThen (visualizePartition srt M hist (case pls of [] \<Rightarrow> None | p # _ \<Rightarrow> Some p)) (\<lambda>(d, p).
     andThen (visualizeLoop srt M hists (tl pls)) (\<lambda>(data, pls).
     Inr (d # data, p # pls)))"

definition computeVisualizationData ::
  "(int list list \<Rightarrow> int list list) \<Rightarrow> ('v any \<Rightarrow> string) \<Rightarrow> ('s \<Rightarrow> string) \<Rightarrow> ('v, 's) Model \<Rightarrow> 'v linearizationInfo \<Rightarrow>
   go_panic + (partitionVisualizationData list \<times> 'v linearizationInfo)" where
  "computeVisualizationData srt fv fs model info =
     andThen (visualizeLoop srt (fillDefault fv fs model) (li_history info) (li_partialLinearizations info)) (\<lambda>(data, pls).
     Inr (data, info\<lparr>li_partialLinearizations := pls\<rparr>))"

section \<open>The page\<close>

definition json_list :: "string list \<Rightarrow> string" where
  "json_list xs = ''['' @ strings_Join xs '','' @ '']''"

definition json_field :: "string \<Rightarrow> string \<Rightarrow> string" where
  "json_field name val = json_string name @ '':'' @ val"

definition json_object :: "string list \<Rightarrow> string" where
  "json_object kvs = ''{'' @ strings_Join kvs '','' @ ''}''"

definition marshalElement :: "historyElement \<Rightarrow> string" where
  "marshalElement h = json_object [json_field ''ClientId'' (itoa (H_ClientId h)), json_field ''Start'' (itoa (H_Start h)),
     json_field ''End'' (itoa (H_End h)), json_field ''Description'' (json_string (H_Description h))]"

definition marshalStep :: "linearizationStep \<Rightarrow> string" where
  "marshalStep l = json_object [json_field ''Index'' (itoa (LS_Index l)),
     json_field ''StateDescription'' (json_string (LS_StateDescription l))]"

text \<open>A map is written with its keys, as strings, in ascending order.\<close>

definition marshalLargest :: "(int \<rightharpoonup> int) \<Rightarrow> string" where
  "marshalLargest m = json_object (map (\<lambda>k. json_field (itoa k) (itoa (the (m k)))) (sort_key itoa (sorted_list_of_set (dom m))))"

definition json_Marshal :: "partitionVisualizationData list \<Rightarrow> string" where
  "json_Marshal data = json_list (map (\<lambda>d. json_object
     [json_field ''History'' (json_list (map marshalElement (PV_History d))),
      json_field ''PartialLinearizations'' (json_list (map (\<lambda>p. json_list (map marshalStep p)) (PV_PartialLinearizations d))),
      json_field ''Largest'' (marshalLargest (PV_Largest d))]) data)"

text \<open>Output goes to a file; a panic of the computation ends the call.  \<^verbatim>\<open>json.Marshal\<close> has no error for
  this data.\<close>

definition Visualize ::
  "string \<times> string \<Rightarrow> (int list list \<Rightarrow> int list list) \<Rightarrow> ('v any \<Rightarrow> string) \<Rightarrow> ('s \<Rightarrow> string) \<Rightarrow> ('v, 's) Model \<Rightarrow>
   'v linearizationInfo \<Rightarrow> string \<Rightarrow> (go_panic + os_error, unit) os" where
  "Visualize html srt fv fs model info output =
     (case computeVisualizationData srt fv fs model info of
        Inl e \<Rightarrow> os_fail (Inl e)
      | Inr (data, _) \<Rightarrow> os_mapErr Inr (os_Write output (fst html @ json_Marshal data @ snd html)))"

definition VisualizePath ::
  "string \<times> string \<Rightarrow> (int list list \<Rightarrow> int list list) \<Rightarrow> ('v any \<Rightarrow> string) \<Rightarrow> ('s \<Rightarrow> string) \<Rightarrow> ('v, 's) Model \<Rightarrow>
   'v linearizationInfo \<Rightarrow> string \<Rightarrow> (go_panic + os_error, unit) os" where
  "VisualizePath html srt fv fs model info path =
     os_bind (os_mapErr Inr (os_Create path)) (\<lambda>_.
     os_defer (Visualize html srt fv fs model info path) os_flush)"

section \<open>The history\<close>

definition entry_of :: "entryKind \<Rightarrow> 'v entry list \<Rightarrow> int \<Rightarrow> 'v entry option" where
  "entry_of k es i = find (\<lambda>e. e_kind e = k \<and> e_id e = i) es"

lemma find_snoc: "find P (xs @ [x]) = (case find P xs of Some y \<Rightarrow> Some y | None \<Rightarrow> if P x then Some x else None)"
  by (induction xs) simp_all

definition element_of :: "('v, 's) FilledModel \<Rightarrow> 'v entry list \<Rightarrow> int \<Rightarrow> historyElement" where
  "element_of M es i = \<lparr>
     H_ClientId = (case entry_of callEntry es i of None \<Rightarrow> 0 | Some c \<Rightarrow> e_clientId c),
     H_Start = (case entry_of callEntry es i of None \<Rightarrow> 0 | Some c \<Rightarrow> e_time c),
     H_End = (case entry_of returnEntry es i of None \<Rightarrow> 0 | Some r \<Rightarrow> e_time r),
     H_Description = (case entry_of returnEntry es i of None \<Rightarrow> []
       | Some r \<Rightarrow> (case m_DescribeOperation M (op_value es callEntry i) (e_value r) of Inl _ \<Rightarrow> [] | Inr d \<Rightarrow> d))\<rparr>"

definition describes :: "('v, 's) FilledModel \<Rightarrow> 'v entry list \<Rightarrow> bool" where
  "describes M es \<longleftrightarrow> (\<forall>i \<in> set (return_ids es). \<exists>d. m_DescribeOperation M (op_value es callEntry i) (op_value es returnEntry i) = Inr d)"

lemma historyLoop_append:
  "historyLoop M (xs @ ys) h cv rv = andThen (historyLoop M xs h cv rv) (\<lambda>(h, cv, rv). historyLoop M ys h cv rv)"
proof (induction xs arbitrary: h cv rv)
  case (Cons x xs)
  then show ?case by (cases "slice_index h (e_id x)"; cases "e_kind x"; cases "m_DescribeOperation M (value_at cv (e_id x)) (e_value x)")
    (simp_all add: fun_upd_def)
qed simp


lemma entry_of_snoc:
  "entry_of k (es @ [e]) i = (case entry_of k es i of Some y \<Rightarrow> Some y | None \<Rightarrow> if e_kind e = k \<and> e_id e = i then Some e else None)"
  by (simp add: entry_of_def find_snoc)

lemma op_value_entry_of: "op_value es k i = (case entry_of k es i of None \<Rightarrow> None | Some e \<Rightarrow> e_value e)"
  by (simp add: op_value_def entry_of_def)

lemma entry_of_ids:
  "entry_of callEntry es i = None \<longleftrightarrow> i \<notin> set (call_ids es)" "entry_of returnEntry es i = None \<longleftrightarrow> i \<notin> set (return_ids es)"
  by (simp_all add: entry_of_def find_None_iff set_call_ids set_return_ids) blast+

definition prefix_ok :: "('v, 's) FilledModel \<Rightarrow> nat \<Rightarrow> 'v entry list \<Rightarrow> bool" where
  "prefix_ok M n es \<longleftrightarrow> distinct (call_ids es) \<and> distinct (return_ids es) \<and> set (call_ids es) \<subseteq> {0..<int n} \<and>
     set (return_ids es) \<subseteq> set (call_ids es) \<and> describes M es \<and>
     sorted_wrt (\<lambda>a b. \<not> (is_return a \<and> is_call b \<and> e_id a = e_id b)) es"

lemma ids_snoc:
  "call_ids (es @ [e]) = call_ids es @ (if is_call e then [e_id e] else [])"
  "return_ids (es @ [e]) = return_ids es @ (if is_return e then [e_id e] else [])"
  by (simp_all add: call_ids_def return_ids_def)

lemma op_value_snoc_other: "entry_of k es i \<noteq> None \<Longrightarrow> op_value (es @ [e]) k i = op_value es k i"
  by (auto simp: op_value_entry_of entry_of_snoc)

lemma prefix_ok_snoc:
  assumes "prefix_ok M n (es @ [e])"
  shows "prefix_ok M n es"
proof -
  have o: "sorted_wrt (\<lambda>a b. \<not> (is_return a \<and> is_call b \<and> e_id a = e_id b)) (es @ [e])"
    and d: "describes M (es @ [e])" and c: "distinct (call_ids (es @ [e]))" "distinct (return_ids (es @ [e]))"
    "set (call_ids (es @ [e])) \<subseteq> {0..<int n}" "set (return_ids (es @ [e])) \<subseteq> set (call_ids (es @ [e]))"
    using assms by (simp_all add: prefix_ok_def)
  have "set (return_ids es) \<subseteq> set (call_ids es)"
  proof
    fix i assume i: "i \<in> set (return_ids es)"
    then have "i \<in> set (call_ids es) \<or> (is_call e \<and> e_id e = i)" using c(4) by (auto simp: ids_snoc split: if_splits)
    then show "i \<in> set (call_ids es)" using i o by (auto simp: return_ids_def sorted_wrt_append)
  qed
  moreover from this have "describes M es" unfolding describes_def
  proof (intro ballI)
    fix i assume i: "i \<in> set (return_ids es)"
    then have ne: "entry_of callEntry es i \<noteq> None" "entry_of returnEntry es i \<noteq> None"
      using \<open>set (return_ids es) \<subseteq> set (call_ids es)\<close> unfolding entry_of_ids by blast+
    note v = op_value_snoc_other [OF ne(1)] op_value_snoc_other [OF ne(2)]
    have "i \<in> set (return_ids (es @ [e]))" using i by (simp add: ids_snoc)
    then show "\<exists>d. m_DescribeOperation M (op_value es callEntry i) (op_value es returnEntry i) = Inr d"
      using d v unfolding describes_def by metis
  qed
  ultimately show ?thesis using o c by (simp add: prefix_ok_def ids_snoc sorted_wrt_append)
qed


lemma element_of_other: "i \<noteq> e_id e \<Longrightarrow> element_of M (es @ [e]) i = element_of M es i"
  by (simp add: element_of_def entry_of_snoc op_value_entry_of split: option.split)

lemma element_of_call:
  assumes "is_call e" and "entry_of callEntry es (e_id e) = None" and "entry_of returnEntry es (e_id e) = None"
  shows "element_of M (es @ [e]) (e_id e) = (element_of M es (e_id e))\<lparr>H_ClientId := e_clientId e, H_Start := e_time e\<rparr>"
  using assms by (simp add: element_of_def entry_of_snoc)

lemma element_of_return:
  assumes "is_return e" and "entry_of returnEntry es (e_id e) = None" and "entry_of callEntry es (e_id e) \<noteq> None"
    and "m_DescribeOperation M (op_value es callEntry (e_id e)) (e_value e) = Inr d"
  shows "element_of M (es @ [e]) (e_id e) = (element_of M es (e_id e))\<lparr>H_End := e_time e, H_Description := d\<rparr>"
  using assms op_value_snoc_other [OF assms(3)] by (auto simp: element_of_def entry_of_snoc)

lemma map_update:
  assumes "0 \<le> k" and "k < int n" and "g k = v" and "\<And>i. i \<noteq> k \<Longrightarrow> g i = f i"
  shows "(map f (map int [0..<n]))[nat k := v] = map g (map int [0..<n])"
proof (intro nth_equalityI)
  fix i assume "i < length ((map f (map int [0..<n]))[nat k := v])"
  then show "(map f (map int [0..<n]))[nat k := v] ! i = map g (map int [0..<n]) ! i"
    using assms by (cases "int i = k") (auto simp: nth_list_update)
qed simp

lemma historyLoop_result:
  assumes "prefix_ok M n es"
  shows "historyLoop M es (replicate n zeroElement) Map.empty Map.empty =
    Inr (map (element_of M es) (map int [0..<n]), (\<lambda>i. map_option e_value (entry_of callEntry es i)),
         (\<lambda>i. map_option e_value (entry_of returnEntry es i)))"
  using assms
proof (induction es rule: rev_induct)
  case Nil
  have "map (element_of M ([] :: 'a entry list)) (map int [0..<n]) = replicate n zeroElement"
    by (intro nth_equalityI) (simp_all add: element_of_def entry_of_def zeroElement_def)
  then show ?case by (simp add: entry_of_def)
next
  case (snoc e es)
  note IH = snoc.IH [OF prefix_ok_snoc [OF snoc.prems]]
  note p = snoc.prems [unfolded prefix_ok_def ids_snoc]
  have "e_id e \<in> {0..<int n}" using p by (cases "e_kind e") (auto split: if_splits)
  then have ix: "0 \<le> e_id e" "e_id e < int n" by simp_all
  show ?case
  proof (cases "e_kind e")
    case callEntry
    then have new: "entry_of callEntry es (e_id e) = None" "entry_of returnEntry es (e_id e) = None"
      using p prefix_ok_snoc [OF snoc.prems] by (auto simp: entry_of_ids prefix_ok_def)
    have "map (element_of M (es @ [e])) (map int [0..<n]) = (map (element_of M es) (map int [0..<n]))
        [nat (e_id e) := (element_of M es (e_id e))\<lparr>H_ClientId := e_clientId e, H_Start := e_time e\<rparr>]"
      by (rule map_update [symmetric]) (use ix in \<open>simp_all add: element_of_other element_of_call [OF callEntry new]\<close>)
    then show ?thesis using IH ix new callEntry
      by (simp add: historyLoop_append slice_index_def fun_upd_def entry_of_snoc fun_eq_iff split: option.split)
  next
    case returnEntry
    then have new: "entry_of returnEntry es (e_id e) = None" "entry_of callEntry es (e_id e) \<noteq> None"
      using p by (simp_all only: entry_of_ids) auto
    obtain d where "m_DescribeOperation M (op_value (es @ [e]) callEntry (e_id e)) (op_value (es @ [e]) returnEntry (e_id e)) = Inr d"
      using p returnEntry by (auto simp: describes_def ids_snoc)
    then have d: "m_DescribeOperation M (op_value es callEntry (e_id e)) (e_value e) = Inr d"
      using op_value_snoc_other [OF new(2)] new(1) returnEntry by (simp add: op_value_entry_of [of _ returnEntry] entry_of_snoc)
    have "map (element_of M (es @ [e])) (map int [0..<n]) = (map (element_of M es) (map int [0..<n]))
        [nat (e_id e) := (element_of M es (e_id e))\<lparr>H_End := e_time e, H_Description := d\<rparr>]"
      by (rule map_update [symmetric]) (use ix in \<open>simp_all add: element_of_other element_of_return [OF returnEntry new d]\<close>)
    moreover have "value_at (\<lambda>i. map_option e_value (entry_of callEntry es i)) (e_id e) = op_value es callEntry (e_id e)"
      by (simp add: value_at_def op_value_entry_of split: option.split)
    ultimately show ?thesis using IH ix new d returnEntry
      by (simp add: historyLoop_append slice_index_def fun_upd_def entry_of_snoc fun_eq_iff split: option.split)
  qed
qed


section \<open>The partial linearizations\<close>

definition states_described :: "('v, 's) FilledModel \<Rightarrow> bool" where
  "states_described M \<longleftrightarrow> (\<forall>s. \<exists>d. m_DescribeState M s = Inr d)"

text \<open>The steps of a legal run: the operations of the sequence, in order, each with the state after it.\<close>

fun states_after :: "('v, 's) FilledModel \<Rightarrow> (int \<Rightarrow> 'v any \<times> 'v any) \<Rightarrow> 's \<Rightarrow> int list \<Rightarrow> linearizationStep list" where
  "states_after M v s [] = []"
| "states_after M v s (x # xs) = (case m_Step M s (fst (v x)) (snd (v x)) of
      Inl _ \<Rightarrow> []
    | Inr (_, t) \<Rightarrow> \<lparr>LS_Index = x, LS_StateDescription = (case m_DescribeState M t of Inl _ \<Rightarrow> [] | Inr d \<Rightarrow> d)\<rparr> # states_after M v t xs)"

lemma stepLoop_result:
  assumes "legal_run (m_Step M) s (map v p) \<noteq> None" and "states_described M" and "\<And>i. v i = (cv i, rv i)"
  shows "stepLoop M cv rv i n p s l = Inr (states_after M v s p, fold (noteLargest i n) p l)"
  using assms(1)
proof (induction p arbitrary: s l)
  case (Cons x p)
  then obtain t where t: "m_Step M s (cv x) (rv x) = Inr (True, t)" "legal_run (m_Step M) t (map v p) \<noteq> None"
    unfolding list.map legal_run_Cons by (auto simp: assms(3))
  obtain d where "m_DescribeState M t = Inr d" using assms(2) unfolding states_described_def by blast
  then show ?case using t Cons.IH [OF t(2)] by (simp add: assms(3))
qed simp

text \<open>The first sequence that has an operation.\<close>

fun firstAt :: "int \<Rightarrow> int list list \<Rightarrow> nat option" where
  "firstAt k [] = None"
| "firstAt k (p # ps) = (if k \<in> set p then Some 0 else map_option Suc (firstAt k ps))"

lemma firstAt_snoc:
  "firstAt k (ps @ [p]) = (case firstAt k ps of Some j \<Rightarrow> Some j | None \<Rightarrow> if k \<in> set p then Some (length ps) else None)"
  by (induction ps) (auto split: option.split)

lemma firstAt_Some: "firstAt k ps = Some j \<Longrightarrow> j < length ps \<and> k \<in> set (ps ! j) \<and> (\<forall>i < j. k \<notin> set (ps ! i))"
  by (induction ps arbitrary: j) (auto simp: less_Suc_eq_0_disj split: if_splits)

lemma firstAt_None: "firstAt k ps = None \<longleftrightarrow> (\<forall>p \<in> set ps. k \<notin> set p)"
  by (induction ps) auto

definition largest_of :: "int list list \<Rightarrow> largest" where
  "largest_of ps = (\<lambda>k. map_option (\<lambda>j. int (length (ps ! j))) (firstAt k ps), \<lambda>k. map_option int (firstAt k ps))"

definition noted :: "int \<Rightarrow> int \<Rightarrow> int set \<Rightarrow> largest \<Rightarrow> largest" where
  "noted i n K l = (let up = \<lambda>k. k \<in> K \<and> (case fst l k of None \<Rightarrow> 0 | Some z \<Rightarrow> z) < n
     in (\<lambda>k. if up k then Some n else fst l k, \<lambda>k. if up k then Some i else snd l k))"

lemma fold_noteLargest: "fold (noteLargest i n) p l = noted i n (set p) l"
proof (induction p arbitrary: l)
  case (Cons k p)
  have "noted i n (set p) (noteLargest i n k l) = noted i n (set (k # p)) l"
    by (auto simp: noted_def noteLargest_def Let_def fun_eq_iff)
  then show ?case using Cons by simp
qed (simp add: noted_def)

lemma noted_largest_of:
  assumes "\<forall>q \<in> set ps. length p \<le> length q"
  shows "noted (int (length ps)) (int (length p)) (set p) (largest_of ps) = largest_of (ps @ [p])"
proof -
  have "fst (noted (int (length ps)) (int (length p)) (set p) (largest_of ps)) k = fst (largest_of (ps @ [p])) k \<and>
    snd (noted (int (length ps)) (int (length p)) (set p) (largest_of ps)) k = snd (largest_of (ps @ [p])) k" for k
  proof (cases "firstAt k ps")
    case None
    then show ?thesis by (auto simp: noted_def largest_of_def firstAt_snoc)
  next
    case (Some j)
    then have "length p \<le> length (ps ! j)" "j < length ps" using firstAt_Some [OF Some] assms by simp_all
    then show ?thesis using Some by (simp add: noted_def largest_of_def firstAt_snoc nth_append)
  qed
  then show ?thesis by (simp add: prod_eq_iff fun_eq_iff)
qed

lemma partialsLoop_result:
  assumes "\<forall>p \<in> set ps. legal_run (m_Step M) (m_Init M) (map v p) \<noteq> None" and "states_described M" and "\<And>i. v i = (cv i, rv i)"
    and "sorted_wrt (\<lambda>a b. length b \<le> length a) (pre @ ps)"
  shows "partialsLoop M cv rv (int (length pre)) ps (largest_of pre) = Inr (map (states_after M v (m_Init M)) ps, largest_of (pre @ ps))"
  using assms(1,4)
proof (induction ps arbitrary: pre)
  case (Cons p ps)
  have r: "legal_run (m_Step M) (m_Init M) (map v p) \<noteq> None" and l: "\<forall>q \<in> set pre. length p \<le> length q"
    using Cons.prems by (simp_all add: sorted_wrt_append)
  have "stepLoop M cv rv (int (length pre)) (int (length p)) p (m_Init M) (largest_of pre) =
      Inr (states_after M v (m_Init M) p, largest_of (pre @ [p]))"
    by (simp add: stepLoop_result [OF r assms(2,3)] fold_noteLargest noted_largest_of [OF l])
  then show ?case using Cons.IH [of "pre @ [p]"] Cons.prems by (simp add: add.commute)
qed simp


lemma states_after_index: "legal_run (m_Step M) s (map v p) \<noteq> None \<Longrightarrow> map LS_Index (states_after M v s p) = p"
proof (induction p arbitrary: s)
  case (Cons x p)
  then obtain t where "m_Step M s (fst (v x)) (snd (v x)) = Inr (True, t)" "legal_run (m_Step M) t (map v p) \<noteq> None"
    unfolding list.map legal_run_Cons by blast
  then show ?case using Cons.IH by simp
qed simp

definition sorts_longest :: "(int list list \<Rightarrow> int list list) \<Rightarrow> bool" where
  "sorts_longest srt \<longleftrightarrow> (\<forall>ps. mset (srt ps) = mset ps \<and> sorted_wrt (\<lambda>a b. length b \<le> length a) (srt ps))"

text \<open>What the data of a partition says: every operation, the sequences in order of their length, and for each
  operation the index of a longest sequence with it.\<close>

definition largest_ok :: "int list list \<Rightarrow> (int \<rightharpoonup> int) \<Rightarrow> bool" where
  "largest_ok ps m \<longleftrightarrow> (\<forall>k. case m k of
      None \<Rightarrow> \<forall>q \<in> set ps. k \<notin> set q
    | Some i \<Rightarrow> 0 \<le> i \<and> i < int (length ps) \<and> k \<in> set (ps ! nat i) \<and> (\<forall>q \<in> set ps. k \<in> set q \<longrightarrow> length q \<le> length (ps ! nat i)))"

lemma largest_of_ok:
  assumes "sorted_wrt (\<lambda>a b. length b \<le> length a) ps"
  shows "largest_ok ps (snd (largest_of ps))"
proof -
  have "length q \<le> length (ps ! j)" if j: "firstAt k ps = Some j" and q: "q \<in> set ps" "k \<in> set q" for k j q
  proof -
    obtain i where i: "i < length ps" "q = ps ! i" using q(1) by (metis in_set_conv_nth)
    then have "\<not> i < j" using firstAt_Some [OF j] q(2) by blast
    then show ?thesis using assms i by (cases "i = j") (auto simp: sorted_wrt_iff_nth_less)
  qed
  moreover have "j < length ps \<and> k \<in> set (ps ! j)" if "firstAt k ps = Some j" for k j using firstAt_Some [OF that] by blast
  ultimately show ?thesis unfolding largest_ok_def
    by (auto simp: largest_of_def firstAt_None split: option.split)
qed

lemma numbered_prefix_ok:
  assumes "numbered H" and "describes M H"
  shows "prefix_ok M (length H div 2) H"
  using assms by (auto simp: numbered_def history_ok_def prefix_ok_def)

lemma visualizePartition_result:
  assumes "sorts_longest srt" and "numbered H" and "describes M H" and "states_described M"
    and "\<forall>q \<in> set ps. partial_linearization (m_Step M) (m_Init M) H q"
  shows "\<exists>d. visualizePartition srt M H (Some ps) = Inr (d, srt ps) \<and>
    PV_History d = map (element_of M H) (map int [0..<length H div 2]) \<and>
    map (map LS_Index) (PV_PartialLinearizations d) = srt ps \<and> largest_ok (srt ps) (PV_Largest d)"
proof -
  have s: "mset (srt ps) = mset ps" "sorted_wrt (\<lambda>a b. length b \<le> length a) (srt ps)"
    using assms(1) by (simp_all add: sorts_longest_def)
  have r: "\<forall>q \<in> set (srt ps). legal_run (m_Step M) (m_Init M) (map (op_values H) q) \<noteq> None"
    using assms(5) mset_eq_setD [OF s(1)] by (simp add: partial_linearization_def)
  let ?cv = "\<lambda>i. map_option e_value (entry_of callEntry H i)" and ?rv = "\<lambda>i. map_option e_value (entry_of returnEntry H i)"
  have v: "op_values H i = (value_at ?cv i, value_at ?rv i)" for i
    by (cases "entry_of callEntry H i"; cases "entry_of returnEntry H i") (simp_all add: op_values_def op_value_entry_of value_at_def)
  have "partialsLoop M (value_at ?cv) (value_at ?rv) 0 (srt ps) (Map.empty, Map.empty) =
      Inr (map (states_after M (op_values H) (m_Init M)) (srt ps), largest_of (srt ps))"
    using partialsLoop_result [OF r assms(4) v, of "[]"] s(2) by (simp add: largest_of_def)
  moreover note historyLoop_result [OF numbered_prefix_ok [OF assms(2,3)]]
  moreover have "map (map LS_Index) (map (states_after M (op_values H) (m_Init M)) (srt ps)) = srt ps"
    unfolding map_map comp_def by (intro map_idI states_after_index) (use r in blast)
  ultimately show ?thesis using largest_of_ok [OF s(2)] by (simp add: visualizePartition_def)
qed


text \<open>The data of all partitions.\<close>

definition visualizes :: "('v, 's) FilledModel \<Rightarrow> 'v entry list \<Rightarrow> int list list \<Rightarrow> partitionVisualizationData \<Rightarrow> bool" where
  "visualizes M H ps d \<longleftrightarrow> PV_History d = map (element_of M H) (map int [0..<length H div 2]) \<and>
     map (map LS_Index) (PV_PartialLinearizations d) = ps \<and> largest_ok ps (PV_Largest d)"

lemma visualizeLoop_result:
  assumes "sorts_longest srt" and "states_described M" and "\<forall>H \<in> set Hs. numbered H \<and> describes M H"
    and "list_all2 (\<lambda>H ps. \<forall>q \<in> set ps. partial_linearization (m_Step M) (m_Init M) H q) Hs pls"
  shows "\<exists>data. visualizeLoop srt M Hs pls = Inr (data, map srt pls) \<and> length data = length Hs \<and>
    (\<forall>j < length Hs. visualizes M (Hs ! j) (srt (pls ! j)) (data ! j))"
  using assms(4,3)
proof (induction rule: list_all2_induct)
  case (Cons H Hs ps pls)
  obtain d where d: "visualizePartition srt M H (Some ps) = Inr (d, srt ps)" "visualizes M H (srt ps) d"
    using visualizePartition_result [OF assms(1) _ _ assms(2) Cons.hyps(1)] Cons.prems by (auto simp: visualizes_def)
  obtain data where data: "visualizeLoop srt M Hs pls = Inr (data, map srt pls)" "length data = length Hs"
    "\<forall>j < length Hs. visualizes M (Hs ! j) (srt (pls ! j)) (data ! j)" using Cons.IH Cons.prems by auto
  have "\<forall>j < length (H # Hs). visualizes M ((H # Hs) ! j) (srt ((ps # pls) ! j)) ((d # data) ! j)"
    using d(2) data(3) by (auto simp: less_Suc_eq_0_disj)
  then show ?case using d(1) data(1,2) by simp
qed simp

lemma element_of_operation:
  assumes "sorts srt" and "i < length ops"
  shows "element_of M (makeEntries srt ops) (int i) = (let x = ops ! i in \<lparr>H_ClientId = Op_ClientId x, H_Start = Op_Call x, H_End = Op_Return x,
    H_Description = (case m_DescribeOperation M (Op_Input x) (Op_Output x) of Inl _ \<Rightarrow> [] | Inr d \<Rightarrow> d)\<rparr>)"
proof -
  let ?H = "makeEntries srt ops"
  have i: "int i \<in> {0..<int (length ops)}" using assms(2) by simp
  have e: "entry_of k ?H (int i) = Some x \<Longrightarrow> x \<in> set ?H \<and> e_kind x = k \<and> e_id x = int i" for k x
    by (auto simp: entry_of_def find_Some_iff)
  obtain c r where c: "entry_of callEntry ?H (int i) = Some c" and r: "entry_of returnEntry ?H (int i) = Some r"
    using i makeEntries_ids [OF assms(1), of ops] entry_of_ids [of ?H "int i"] by auto
  have cr: "c \<in> set ?H" "is_call c" "e_id c = int i" "r \<in> set ?H" "is_return r" "e_id r = int i" using e [OF c] e [OF r] by simp_all
  have "e_clientId c = Op_ClientId (ops ! i)"
    using cr(1-3) unfolding makeEntries_set [OF assms(1)] entries_of_ops by auto
  moreover have "op_value ?H callEntry (int i) = Op_Input (ops ! i)" using makeEntries_values [OF assms(1) i] by (simp add: op_values_def)
  ultimately show ?thesis
    using c r makeEntries_entry(3) [OF assms(1) cr(1)] makeEntries_entry(4) [OF assms(1) cr(4)] cr by (simp add: element_of_def Let_def)
qed

definition operation_element :: "('v, 's) FilledModel \<Rightarrow> 'v Operation \<Rightarrow> historyElement" where
  "operation_element M x = \<lparr>H_ClientId = Op_ClientId x, H_Start = Op_Call x, H_End = Op_Return x,
     H_Description = (case m_DescribeOperation M (Op_Input x) (Op_Output x) of Inl _ \<Rightarrow> [] | Inr d \<Rightarrow> d)\<rparr>"

lemma elements_of_operations:
  assumes "sorts srt"
  shows "map (element_of M (makeEntries srt ops)) (map int [0..<length (makeEntries srt ops) div 2]) = map (operation_element M) ops"
  by (rule nth_equalityI)
    (simp_all add: makeEntries_ids(5) [OF assms] element_of_operation [OF assms] operation_element_def Let_def)

lemma makeEntries_describes:
  assumes "sorts srt" and "\<forall>x \<in> set ops. \<exists>d. m_DescribeOperation M (Op_Input x) (Op_Output x) = Inr d"
  shows "describes M (makeEntries srt ops)"
  unfolding describes_def makeEntries_ids(3) [OF assms(1)]
proof (intro ballI)
  fix i assume i: "i \<in> {0..<int (length ops)}"
  then have "nat i < length ops" by auto
  then have "ops ! nat i \<in> set ops" by (rule nth_mem)
  then show "\<exists>d. m_DescribeOperation M (op_value (makeEntries srt ops) callEntry i) (op_value (makeEntries srt ops) returnEntry i) = Inr d"
    using makeEntries_values [OF assms(1) i] assms(2) by (simp add: op_values_def)
qed

text \<open>C32: The data of a page is computed without a panic for what \<^verbatim>\<open>CheckOperationsVerbose\<close> returned, as far as the model
  describes its operations and states: every sequence it shows is a run of the model.  The data has one
  part for each partition, which lists the partition's operations with their client, times and
  description, shows exactly the sequences of the check, and gives for each operation the index of a
  longest sequence with it.\<close>

theorem visualization_total:
  assumes "sorts srt" and "sorts_longest lsrt" and "m_Partition (fillDefault fv fs model) history = Inr parts"
    and "parts_ok (fillDefault fv fs model) parts" and "states_described (fillDefault fv fs model)"
    and "\<forall>p \<in> set parts. \<forall>x \<in> set p. \<exists>d. m_DescribeOperation (fillDefault fv fs model) (Op_Input x) (Op_Output x) = Inr d"
    and "CheckOperationsVerbose srt fv fs model history timeout res info"
  shows "\<exists>data info'. computeVisualizationData lsrt fv fs model info = Inr (data, info') \<and> length data = length parts \<and>
    (\<forall>j < length parts. PV_History (data ! j) = map (operation_element (fillDefault fv fs model)) (parts ! j) \<and>
       mset (map (map LS_Index) (PV_PartialLinearizations (data ! j))) = mset (li_partialLinearizations info ! j) \<and>
       map (map LS_Index) (PV_PartialLinearizations (data ! j)) = li_partialLinearizations info' ! j \<and>
       largest_ok (li_partialLinearizations info' ! j) (PV_Largest (data ! j)))"
proof -
  let ?M = "fillDefault fv fs model" and ?Hs = "map (makeEntries srt) parts"
  obtain pls where c: "checkParallel ?M ?Hs True timeout res pls" and info: "info = make_info ?Hs pls"
    using assms(3,7) unfolding CheckOperationsVerbose_def checkOperations_def Let_def by auto
  have ok: "histories_ok ?M ?Hs" by (rule parts_histories_ok [OF assms(1,4)])
  obtain ps where ps: "pls = Some ps" "length ps = length ?Hs"
    "\<forall>i < length ?Hs. \<forall>q \<in> set (ps ! i). partial_linearization (m_Step ?M) (m_Init ?M) (?Hs ! i) q"
    using checkParallel_sound [OF ok c] by (cases pls) simp_all
  have "list_all2 (\<lambda>H ps. \<forall>q \<in> set ps. partial_linearization (m_Step ?M) (m_Init ?M) H q) ?Hs ps"
    using ps(2,3) by (simp add: list_all2_conv_all_nth)
  moreover have "describes ?M (makeEntries srt p)" if p: "p \<in> set parts" for p
    by (rule makeEntries_describes [OF assms(1)]) (use assms(6) p in blast)
  then have "\<forall>H \<in> set ?Hs. numbered H \<and> describes ?M H" using ok by (simp add: histories_ok_def)
  ultimately obtain data where data: "visualizeLoop lsrt ?M ?Hs ps = Inr (data, map lsrt ps)" "length data = length ?Hs"
    "\<forall>j < length ?Hs. visualizes ?M (?Hs ! j) (lsrt (ps ! j)) (data ! j)"
    using visualizeLoop_result [OF assms(2,5)] by blast
  have "computeVisualizationData lsrt fv fs model info = Inr (data, info\<lparr>li_partialLinearizations := map lsrt ps\<rparr>)"
    by (simp add: computeVisualizationData_def info ps(1) make_info_def data(1))
  moreover have "PV_History (data ! j) = map (operation_element ?M) (parts ! j) \<and>
      mset (map (map LS_Index) (PV_PartialLinearizations (data ! j))) = mset (ps ! j) \<and>
      map (map LS_Index) (PV_PartialLinearizations (data ! j)) = lsrt (ps ! j) \<and>
      largest_ok (lsrt (ps ! j)) (PV_Largest (data ! j))" if j: "j < length parts" for j
  proof -
    have v: "visualizes ?M (makeEntries srt (parts ! j)) (lsrt (ps ! j)) (data ! j)" using data(3) j by simp
    have "mset (lsrt (ps ! j)) = mset (ps ! j)" using assms(2) by (simp add: sorts_longest_def)
    then show ?thesis using v unfolding visualizes_def elements_of_operations [OF assms(1)] by simp
  qed
  moreover have "mset (lsrt qs) = mset qs" for qs using assms(2) by (simp add: sorts_longest_def)
  ultimately show ?thesis using data(2) ps(1,2) by (simp add: info make_info_def del: mset_map)
qed


theorem visualization_total_witness:
  "\<exists>res info data info'. CheckOperationsVerbose ex_sort (\<lambda>v. []) (\<lambda>s. []) ex_register ex_ops 0 res info \<and>
    computeVisualizationData (sort_key (\<lambda>q. - int (length q))) (\<lambda>v. []) (\<lambda>s. []) ex_register info = Inr (data, info') \<and>
    map H_End (PV_History (data ! 0)) = [10, 5]"
proof -
  let ?M = "fillDefault (\<lambda>v. []) (\<lambda>s. []) ex_register"
  have p: "m_Partition ?M ex_ops = Inr [ex_ops]" by (simp add: fillDefault_def ex_register_def NoPartition_def)
  have "m_Equal ?M = ShallowEqual" by (simp add: fillDefault_def ex_register_def)
  then have ok: "parts_ok ?M [ex_ops]"
    by (simp add: parts_ok_def ShallowEqual_ok) (simp add: ops_ok_def op_steps_ok_def ex_ops_def fillDefault_def ex_register_def)
  have d: "states_described ?M" "\<forall>p \<in> set [ex_ops]. \<forall>x \<in> set p. \<exists>d. m_DescribeOperation ?M (Op_Input x) (Op_Output x) = Inr d"
    by (simp_all add: states_described_def fillDefault_def ex_register_def DefaultDescribeOperation_def DefaultDescribeState_def)
  have s: "sorts_longest (sort_key (\<lambda>q. - int (length q)))"
  proof -
    have "sorted (map (\<lambda>q. - int (length q)) (sort_key (\<lambda>q. - int (length q)) ps))" for ps :: "int list list" by simp
    then show ?thesis by (simp add: sorts_longest_def sorted_wrt_map)
  qed
  obtain res info where c: "CheckOperationsVerbose ex_sort (\<lambda>v. []) (\<lambda>s. []) ex_register ex_ops 0 res info"
    using checkOperations_returns [OF ex_sort_sorts refl p _ ok] unfolding CheckOperationsVerbose_def by blast
  obtain data info' where v: "computeVisualizationData (sort_key (\<lambda>q. - int (length q))) (\<lambda>v. []) (\<lambda>s. []) ex_register info = Inr (data, info')"
    "PV_History (data ! 0) = map (operation_element ?M) ex_ops" using visualization_total [OF ex_sort_sorts s p ok d c] by auto
  have "map H_End (PV_History (data ! 0)) = [10, 5]" unfolding v(2) by (simp add: operation_element_def ex_ops_def)
  with c v(1) show ?thesis by (intro exI conjI)
qed

end
