(* ===== verification/LR_Gob.thy ===== *)
theory LR_Gob
  imports Prelude "HOL-Library.Word"
begin

text \<open>
  \<^verbatim>\<open>labgob/labgob.go\<close>: the wrapper around \<^verbatim>\<open>encoding/gob\<close> that warns about struct fields gob would not send
  and about decoding into variables that are not zero.  A \<^verbatim>\<open>reflect.Type\<close> is a number into a table of types,
  so that types may be recursive; \<open>up\<close> says whether a field's name starts with an upper-case rune; \<open>enc\<close> and
  \<open>dec\<close> stand for gob itself.  Values are not nil: \<^verbatim>\<open>checkValue(nil)\<close> panics.  The recursion over types has fuel for its depth; \<open>check_fuel\<close> is enough, because
  every nested call marks one more type.
\<close>

section \<open>Types and values\<close>

type_synonym type_id = nat

datatype go_kind =
    KStruct "(string \<times> type_id) list"
  | KSlice type_id
  | KArray type_id
  | KPtr type_id
  | KMap type_id type_id
  | KBasic
  | KOther

record go_type =
  ty_name :: string
  ty_kind :: go_kind

type_synonym go_types = "go_type list"

definition kind_of :: "go_types \<Rightarrow> type_id \<Rightarrow> go_kind" where
  "kind_of T t = (if t < length T then ty_kind (T ! t) else KOther)"

definition name_of :: "go_types \<Rightarrow> type_id \<Rightarrow> string" where
  "name_of T t = (if t < length T then ty_name (T ! t) else [])"

text \<open>Basic values: integers, IEEE bits, and strings; a map or interface counts as other.\<close>

datatype basic_value = BBool bool | BInt int | BUint nat | BFloat "64 word" | BString string

datatype go_value =
    VStruct type_id "go_value list"
  | VPtr type_id "go_value option"
  | VBasic type_id basic_value
  | VOther type_id

fun type_of :: "go_value \<Rightarrow> type_id" where
  "type_of (VStruct t vs) = t"
| "type_of (VPtr t v) = t"
| "type_of (VBasic t b) = t"
| "type_of (VOther t) = t"

fun is_zero :: "basic_value \<Rightarrow> bool" where
  "is_zero (BBool b) = (\<not> b)"
| "is_zero (BInt i) = (i = 0)"
| "is_zero (BUint n) = (n = 0)"
| "is_zero (BFloat w) = (w = 0 \<or> w = 0x8000000000000000)"
| "is_zero (BString s) = (s = [])"

section \<open>The package's state\<close>

datatype gob_message = LowerCaseField string string | NonDefault string

record gob_state =
  gb_errorCount :: int
  gb_checked :: "type_id set"
  gb_output :: "gob_message list"

definition gob_init :: gob_state where
  "gob_init = \<lparr>gb_errorCount = 0, gb_checked = {}, gb_output = []\<rparr>"

section \<open>\<^verbatim>\<open>checkType\<close>\<close>

definition checkField :: "go_types \<Rightarrow> (string \<Rightarrow> bool) \<Rightarrow> type_id \<Rightarrow> string \<Rightarrow> gob_state \<Rightarrow> gob_state" where
  "checkField T up t fname s =
     (if \<not> up fname
      then s\<lparr>gb_errorCount := gb_errorCount s + 1, gb_output := gb_output s @ [LowerCaseField fname (name_of T t)]\<rparr>
      else s)"

fun checkType :: "go_types \<Rightarrow> (string \<Rightarrow> bool) \<Rightarrow> nat \<Rightarrow> type_id \<Rightarrow> gob_state \<Rightarrow> gob_state option"
  and checkFields :: "go_types \<Rightarrow> (string \<Rightarrow> bool) \<Rightarrow> nat \<Rightarrow> type_id \<Rightarrow> (string \<times> type_id) list \<Rightarrow> gob_state \<Rightarrow> gob_state option"
where
  "checkType T up 0 t s = None"
| "checkType T up (Suc n) t s =
     (if t \<in> gb_checked s then Some s
      else let s = s\<lparr>gb_checked := insert t (gb_checked s)\<rparr>
           in case kind_of T t of
                KStruct fs \<Rightarrow> checkFields T up n t fs s
              | KSlice e \<Rightarrow> checkType T up n e s
              | KArray e \<Rightarrow> checkType T up n e s
              | KPtr e \<Rightarrow> checkType T up n e s
              | KMap k e \<Rightarrow> (case checkType T up n e s of None \<Rightarrow> None | Some s \<Rightarrow> checkType T up n k s)
              | _ \<Rightarrow> Some s)"
| "checkFields T up n t [] s = Some s"
| "checkFields T up n t (f # fs) s =
     (case checkType T up n (snd f) (checkField T up t (fst f) s) of
        None \<Rightarrow> None
      | Some s \<Rightarrow> checkFields T up n t fs s)"

definition check_fuel :: "go_types \<Rightarrow> nat" where
  "check_fuel T = length T + 2"

text \<open>The table is closed, so the fuel is enough (\<open>checkType_total\<close>).  The source takes its lock anew for each type, so the
  checks of two goroutines may alternate between types; here a check is one step.  Since a type is marked and looked at
  under the lock, such an interleaving still treats each type once.\<close>

definition checkValue :: "go_types \<Rightarrow> (string \<Rightarrow> bool) \<Rightarrow> go_value \<Rightarrow> gob_state \<Rightarrow> gob_state" where
  "checkValue T up v s = (case checkType T up (check_fuel T) (type_of v) s of None \<Rightarrow> s | Some s' \<Rightarrow> s')"

section \<open>\<^verbatim>\<open>checkDefault\<close>\<close>

definition warnDefault :: "go_types \<Rightarrow> type_id \<Rightarrow> string \<Rightarrow> gob_state \<Rightarrow> gob_state" where
  "warnDefault T t name s =
     (let s = (if gb_errorCount s < 1
               then s\<lparr>gb_output := gb_output s @ [NonDefault (if name = [] then name_of T t else name)]\<rparr> else s)
      in s\<lparr>gb_errorCount := gb_errorCount s + 1\<rparr>)"

definition field_name :: "go_types \<Rightarrow> type_id \<Rightarrow> nat \<Rightarrow> string" where
  "field_name T t i = (case kind_of T t of KStruct fs \<Rightarrow> if i < length fs then fst (fs ! i) else [] | _ \<Rightarrow> [])"

fun checkDefault1 :: "go_types \<Rightarrow> go_value \<Rightarrow> int \<Rightarrow> string \<Rightarrow> gob_state \<Rightarrow> gob_state"
  and checkDefaultFields :: "go_types \<Rightarrow> type_id \<Rightarrow> nat \<Rightarrow> go_value list \<Rightarrow> int \<Rightarrow> string \<Rightarrow> gob_state \<Rightarrow> gob_state"
where
  "checkDefault1 T (VStruct t vs) depth name s = (if 3 < depth then s else checkDefaultFields T t 0 vs depth name s)"
| "checkDefault1 T (VPtr t v) depth name s =
     (if 3 < depth then s else case v of None \<Rightarrow> s | Some v \<Rightarrow> checkDefault1 T v (depth + 1) name s)"
| "checkDefault1 T (VBasic t b) depth name s = (if 3 < depth then s else if \<not> is_zero b then warnDefault T t name s else s)"
| "checkDefault1 T (VOther t) depth name s = s"
| "checkDefaultFields T t i [] depth name s = s"
| "checkDefaultFields T t i (v # vs) depth name s =
     (let name1 = (if name \<noteq> [] then name @ ''.'' @ field_name T t i else field_name T t i)
      in checkDefaultFields T t (i + 1) vs depth name (checkDefault1 T v (depth + 1) name1 s))"

definition checkDefault :: "go_types \<Rightarrow> go_value option \<Rightarrow> gob_state \<Rightarrow> gob_state" where
  "checkDefault T v s = (case v of None \<Rightarrow> s | Some v \<Rightarrow> checkDefault1 T v 1 [] s)"

section \<open>Encoders and decoders\<close>

text \<open>\<open>enc\<close> and \<open>dec\<close> are gob itself: the bytes written for a value, and the value a decoder leaves in a variable that
  held another one; each with whether there was no error.\<close>

type_synonym gob_enc = "go_value \<Rightarrow> string \<times> bool"
type_synonym gob_dec = "string \<Rightarrow> go_value \<Rightarrow> go_value \<times> bool"

definition gob_Encode ::
  "go_types \<Rightarrow> (string \<Rightarrow> bool) \<Rightarrow> gob_enc \<Rightarrow> go_value \<Rightarrow> gob_state \<Rightarrow> (string \<times> bool) \<times> gob_state" where
  "gob_Encode T up enc e s = (let s = checkValue T up e s in (enc e, s))"

definition gob_EncodeValue ::
  "go_types \<Rightarrow> (string \<Rightarrow> bool) \<Rightarrow> gob_enc \<Rightarrow> go_value \<Rightarrow> gob_state \<Rightarrow> (string \<times> bool) \<times> gob_state" where
  "gob_EncodeValue T up enc val s = (let s = checkValue T up val s in (enc val, s))"

definition gob_Decode ::
  "go_types \<Rightarrow> (string \<Rightarrow> bool) \<Rightarrow> gob_dec \<Rightarrow> string \<Rightarrow> go_value \<Rightarrow> gob_state \<Rightarrow> (go_value \<times> bool) \<times> gob_state" where
  "gob_Decode T up dec bs e s = (let s = checkValue T up e s; s = checkDefault T (Some e) s in (dec bs e, s))"

text \<open>The second component is gob's registry of names, keyed by type; \<open>own_name\<close> is the name gob gives a type itself.\<close>

definition gob_Register ::
  "go_types \<Rightarrow> (string \<Rightarrow> bool) \<Rightarrow> (type_id \<Rightarrow> string) \<Rightarrow> go_value \<Rightarrow> gob_state \<times> (type_id \<rightharpoonup> string) \<Rightarrow> gob_state \<times> (type_id \<rightharpoonup> string)" where
  "gob_Register T up own_name v sr = (checkValue T up v (fst sr), (snd sr)(type_of v \<mapsto> own_name (type_of v)))"

definition gob_RegisterName ::
  "go_types \<Rightarrow> (string \<Rightarrow> bool) \<Rightarrow> string \<Rightarrow> go_value \<Rightarrow> gob_state \<times> (type_id \<rightharpoonup> string) \<Rightarrow> gob_state \<times> (type_id \<rightharpoonup> string)" where
  "gob_RegisterName T up name v sr = (checkValue T up v (fst sr), (snd sr)(type_of v \<mapsto> name))"

section \<open>What \<^verbatim>\<open>checkType\<close> visits\<close>

fun kind_succs :: "go_kind \<Rightarrow> type_id list" where
  "kind_succs (KStruct fs) = map snd fs"
| "kind_succs (KSlice e) = [e]"
| "kind_succs (KArray e) = [e]"
| "kind_succs (KPtr e) = [e]"
| "kind_succs (KMap k e) = [e, k]"
| "kind_succs KBasic = []"
| "kind_succs KOther = []"

definition refers :: "go_types \<Rightarrow> type_id \<Rightarrow> type_id \<Rightarrow> bool" where
  "refers T t u \<longleftrightarrow> u \<in> set (kind_succs (kind_of T t))"

definition lower_fields :: "go_types \<Rightarrow> (string \<Rightarrow> bool) \<Rightarrow> type_id \<Rightarrow> nat" where
  "lower_fields T up t = (case kind_of T t of KStruct fs \<Rightarrow> length (filter (\<lambda>f. \<not> up (fst f)) fs) | _ \<Rightarrow> 0)"

definition types_closed :: "go_types \<Rightarrow> bool" where
  "types_closed T \<longleftrightarrow> (\<forall>t < length T. \<forall>u. refers T t u \<longrightarrow> u < length T)"

text \<open>A type may be sent: it, and every type it refers to, has capitalized fields only.\<close>

coinductive sendable :: "go_types \<Rightarrow> (string \<Rightarrow> bool) \<Rightarrow> type_id \<Rightarrow> bool" for T up where
  "lower_fields T up t = 0 \<Longrightarrow> (\<And>u. refers T t u \<Longrightarrow> sendable T up u) \<Longrightarrow> sendable T up t"

lemma sendable_iff: "sendable T up t \<longleftrightarrow> (\<forall>u. (refers T)\<^sup>*\<^sup>* t u \<longrightarrow> lower_fields T up u = 0)"
proof
  assume s: "sendable T up t"
  have "sendable T up u" if "(refers T)\<^sup>*\<^sup>* t u" for u
    using that s by induction (auto elim: sendable.cases)
  then show "\<forall>u. (refers T)\<^sup>*\<^sup>* t u \<longrightarrow> lower_fields T up u = 0" by (metis sendable.cases)
next
  assume "\<forall>u. (refers T)\<^sup>*\<^sup>* t u \<longrightarrow> lower_fields T up u = 0"
  then show "sendable T up t"
  proof (coinduction arbitrary: t)
    case sendable
    then show ?case by (metis converse_rtranclp_into_rtranclp rtranclp.rtrancl_refl)
  qed
qed

text \<open>What a call has done: the newly checked types are reachable, with everything they refer to, and their
  lower-case fields are counted once.\<close>

definition visited ::
  "go_types \<Rightarrow> (string \<Rightarrow> bool) \<Rightarrow> type_id set \<Rightarrow> gob_state \<Rightarrow> gob_state \<Rightarrow> bool" where
  "visited T up R s s' \<longleftrightarrow> gb_checked s \<subseteq> gb_checked s' \<and> R \<subseteq> gb_checked s' \<and> finite (gb_checked s' - gb_checked s) \<and>
     (\<forall>u \<in> gb_checked s' - gb_checked s. (\<exists>r \<in> R. (refers T)\<^sup>*\<^sup>* r u) \<and> (\<forall>v. refers T u v \<longrightarrow> v \<in> gb_checked s')) \<and>
     gb_errorCount s' = gb_errorCount s + int (\<Sum>u \<in> gb_checked s' - gb_checked s. lower_fields T up u)"

lemma visited_refl: "R \<subseteq> gb_checked s \<Longrightarrow> visited T up R s s"
  by (simp add: visited_def)

lemma visited_trans:
  assumes "visited T up R a b" and "visited T up Q b c"
  shows "visited T up (R \<union> Q) a c"
proof -
  have s: "gb_checked a \<subseteq> gb_checked b" "gb_checked b \<subseteq> gb_checked c" using assms by (simp_all add: visited_def)
  then have d: "gb_checked c - gb_checked a = (gb_checked b - gb_checked a) \<union> (gb_checked c - gb_checked b)" by blast
  have "(\<Sum>u \<in> gb_checked c - gb_checked a. lower_fields T up u) =
      (\<Sum>u \<in> gb_checked b - gb_checked a. lower_fields T up u) + (\<Sum>u \<in> gb_checked c - gb_checked b. lower_fields T up u)"
    unfolding d using assms by (intro sum.union_disjoint) (auto simp: visited_def)
  then have e: "gb_errorCount c = gb_errorCount a + int (\<Sum>u \<in> gb_checked c - gb_checked a. lower_fields T up u)"
    using assms unfolding visited_def by linarith
  have "(\<exists>r \<in> R \<union> Q. (refers T)\<^sup>*\<^sup>* r u) \<and> (\<forall>v. refers T u v \<longrightarrow> v \<in> gb_checked c)" if u: "u \<in> gb_checked c - gb_checked a" for u
  proof (cases "u \<in> gb_checked b")
    case True
    then have "u \<in> gb_checked b - gb_checked a" using u by blast
    then have "(\<exists>r \<in> R. (refers T)\<^sup>*\<^sup>* r u) \<and> (\<forall>v. refers T u v \<longrightarrow> v \<in> gb_checked b)" using assms(1) unfolding visited_def by blast
    then show ?thesis using s(2) by blast
  next
    case False
    then have "u \<in> gb_checked c - gb_checked b" using u by blast
    then show ?thesis using assms(2) unfolding visited_def by blast
  qed
  moreover have "finite (gb_checked c - gb_checked a)" unfolding d using assms by (simp add: visited_def)
  moreover have "R \<union> Q \<subseteq> gb_checked c" using assms s unfolding visited_def by blast
  ultimately show ?thesis using e s unfolding visited_def by blast
qed


definition marked :: "type_id \<Rightarrow> nat \<Rightarrow> gob_state \<Rightarrow> gob_state" where
  "marked t n s = s\<lparr>gb_checked := insert t (gb_checked s), gb_errorCount := gb_errorCount s + int n\<rparr>"

lemma visited_mark:
  assumes "visited T up (set (kind_succs (kind_of T t))) (marked t (lower_fields T up t) s) s'" and "t \<notin> gb_checked s"
  shows "visited T up {t} s s'"
proof -
  let ?D = "gb_checked s' - insert t (gb_checked s)"
  have v: "insert t (gb_checked s) \<subseteq> gb_checked s'" "set (kind_succs (kind_of T t)) \<subseteq> gb_checked s'" "finite ?D"
    "\<forall>u \<in> ?D. (\<exists>r \<in> set (kind_succs (kind_of T t)). (refers T)\<^sup>*\<^sup>* r u) \<and> (\<forall>v. refers T u v \<longrightarrow> v \<in> gb_checked s')"
    "gb_errorCount s' = gb_errorCount s + int (lower_fields T up t) + int (\<Sum>u \<in> ?D. lower_fields T up u)"
    using assms(1) by (simp_all add: visited_def marked_def)
  have d: "gb_checked s' - gb_checked s = insert t ?D" using v(1) assms(2) by blast
  have "(refers T)\<^sup>*\<^sup>* t u" if "r \<in> set (kind_succs (kind_of T t))" "(refers T)\<^sup>*\<^sup>* r u" for r u
    using that converse_rtranclp_into_rtranclp [of "refers T" t r u] by (simp add: refers_def)
  then have n: "(\<exists>r \<in> {t}. (refers T)\<^sup>*\<^sup>* r u) \<and> (\<forall>v. refers T u v \<longrightarrow> v \<in> gb_checked s')" if "u \<in> insert t ?D" for u
    using that v(2,4) unfolding refers_def by (cases "u = t") blast+
  have "(\<Sum>u \<in> insert t ?D. lower_fields T up u) = lower_fields T up t + (\<Sum>u \<in> ?D. lower_fields T up u)"
    using v(3) by (simp add: sum.insert)
  then have "gb_errorCount s' = gb_errorCount s + int (\<Sum>u \<in> insert t ?D. lower_fields T up u)" using v(5) by linarith
  moreover have "gb_checked s \<subseteq> gb_checked s'" "{t} \<subseteq> gb_checked s'" "finite (insert t ?D)" using v(1,3) by simp_all
  ultimately show ?thesis unfolding visited_def d using n by (intro conjI ballI) iprover+
qed

definition counted :: "nat \<Rightarrow> gob_state \<Rightarrow> gob_state" where
  "counted n s = s\<lparr>gb_errorCount := gb_errorCount s + int n\<rparr>"

lemma visited_counted:
  "visited T up R (counted n a) b \<Longrightarrow> visited T up R (counted (n + m) a) (counted m b)"
  by (simp add: visited_def counted_def)

lemma visited_cong:
  "gb_checked a = gb_checked a' \<Longrightarrow> gb_errorCount a = gb_errorCount a' \<Longrightarrow> gb_checked b = gb_checked b' \<Longrightarrow>
   gb_errorCount b = gb_errorCount b' \<Longrightarrow> visited T up R a b \<longleftrightarrow> visited T up R a' b'"
  by (simp add: visited_def)

lemma check_visited:
  "checkType T up n t s = Some s' \<Longrightarrow> visited T up {t} s s'"
  "checkFields T up n t fs s = Some s' \<Longrightarrow> visited T up (snd ` set fs) (counted (length (filter (\<lambda>f. \<not> up (fst f)) fs)) s) s'"
proof (induction T up n t s and T up n t fs s arbitrary: s' and s' rule: checkType_checkFields.induct)
  case (2 T up n t s)
  show ?case
  proof (cases "t \<in> gb_checked s")
    case True
    then show ?thesis using 2 by (simp add: visited_refl)
  next
    case False
    let ?s = "s\<lparr>gb_checked := insert t (gb_checked s)\<rparr>"
    have m0: "lower_fields T up t = 0 \<Longrightarrow> visited T up R (marked t (lower_fields T up t) s) s' \<longleftrightarrow> visited T up R ?s s'" for R
      by (intro visited_cong) (simp_all add: marked_def)
    have "visited T up (set (kind_succs (kind_of T t))) (marked t (lower_fields T up t) s) s'"
    proof (cases "kind_of T t")
      case (KStruct fs)
      then have "checkFields T up n t fs ?s = Some s'" using 2(7) False by (simp add: Let_def)
      from 2(1) [OF False refl KStruct this] have
        "visited T up (snd ` set fs) (counted (length (filter (\<lambda>f. \<not> up (fst f)) fs)) ?s) s'" .
      moreover have "visited T up (snd ` set fs) (marked t (lower_fields T up t) s) s' \<longleftrightarrow>
          visited T up (snd ` set fs) (counted (length (filter (\<lambda>f. \<not> up (fst f)) fs)) ?s) s'"
        by (intro visited_cong) (simp_all add: marked_def counted_def lower_fields_def KStruct)
      ultimately show ?thesis by (simp add: KStruct)
    next
      case (KMap k e)
      then obtain s1 where s1: "checkType T up n e ?s = Some s1" "checkType T up n k s1 = Some s'"
        using 2(7) False by (auto simp: Let_def split: option.splits)
      have "visited T up ({e} \<union> {k}) ?s s'"
        by (rule visited_trans [OF 2(5) [OF False refl KMap s1(1)] 2(6) [OF False refl KMap s1(1) s1(2)]])
      moreover have "set (kind_succs (kind_of T t)) = {e} \<union> {k}" "lower_fields T up t = 0" by (auto simp: KMap lower_fields_def)
      ultimately show ?thesis using m0 by metis
    qed (use 2 False m0 in \<open>auto simp: Let_def lower_fields_def visited_refl\<close>)
    then show ?thesis by (rule visited_mark [OF _ False])
  qed
next
  case (4 T up n t f fs s)
  let ?c = "checkField T up t (fst f) s"
  obtain s1 where s1: "checkType T up n (snd f) ?c = Some s1" "checkFields T up n t fs s1 = Some s'"
    using 4(3) by (cases "checkType T up n (snd f) ?c") simp_all
  let ?m = "length (filter (\<lambda>f. \<not> up (fst f)) fs)" and ?k = "if up (fst f) then 0 else 1 :: nat"
  have "visited T up {snd f} (counted ?k s) s1 \<longleftrightarrow> visited T up {snd f} ?c s1"
    by (intro visited_cong) (simp_all add: counted_def checkField_def)
  then have "visited T up {snd f} (counted ?k s) s1" using 4(1) [OF s1(1)] by simp
  note v = visited_trans [OF visited_counted [OF this, of ?m] 4(2) [OF s1(1,2)]]
  have "?k + ?m = length (filter (\<lambda>f. \<not> up (fst f)) (f # fs))" "{snd f} \<union> snd ` set fs = snd ` set (f # fs)" by simp_all
  with v show ?case by (simp only: )
qed (simp_all add: counted_def visited_refl)


section \<open>The recursion ends\<close>

abbreviation remaining :: "go_types \<Rightarrow> gob_state \<Rightarrow> nat" where
  "remaining T s \<equiv> card ({..<length T} - gb_checked s)"

lemma remaining_mono: "gb_checked s \<subseteq> gb_checked s' \<Longrightarrow> remaining T s' \<le> remaining T s"
  by (intro card_mono) auto

lemma remaining_mark: "t < length T \<Longrightarrow> t \<notin> gb_checked s \<Longrightarrow> remaining T (s\<lparr>gb_checked := insert t (gb_checked s)\<rparr>) < remaining T s"
  by (intro psubset_card_mono) auto

lemma visited_remaining: "visited T up R s s' \<Longrightarrow> remaining T s' \<le> remaining T s"
  by (intro remaining_mono) (simp add: visited_def)

lemma check_total:
  "types_closed T \<Longrightarrow> t < length T \<Longrightarrow> remaining T s < n \<Longrightarrow> \<exists>s'. checkType T up n t s = Some s'"
  "types_closed T \<Longrightarrow> \<forall>f \<in> set fs. snd f < length T \<Longrightarrow> remaining T s < n \<Longrightarrow> \<exists>s'. checkFields T up n t fs s = Some s'"
proof (induction T up n t s and T up n t fs s rule: checkType_checkFields.induct)
  case (2 T up n t s)
  show ?case
  proof (cases "t \<in> gb_checked s")
    case False
    let ?s = "s\<lparr>gb_checked := insert t (gb_checked s)\<rparr>"
    have u: "remaining T ?s < n" using remaining_mark [OF 2(8) False] 2(9) by linarith
    have c: "u < length T" if "u \<in> set (kind_succs (kind_of T t))" for u
      using 2(7,8) that unfolding types_closed_def refers_def by blast
    show ?thesis
    proof (cases "kind_of T t")
      case (KStruct fs)
      have "\<forall>f \<in> set fs. snd f < length T" using c by (auto simp: KStruct)
      then show ?thesis using 2(1) [OF False refl KStruct 2(7) _ u] False by (simp add: KStruct Let_def)
    next
      case (KSlice e)
      then show ?thesis using 2(2) [OF False refl KSlice 2(7) c u] False by (simp add: Let_def)
    next
      case (KArray e)
      then show ?thesis using 2(3) [OF False refl KArray 2(7) c u] False by (simp add: Let_def)
    next
      case (KPtr e)
      then show ?thesis using 2(4) [OF False refl KPtr 2(7) c u] False by (simp add: Let_def)
    next
      case (KMap k e)
      then obtain s1 where s1: "checkType T up n e ?s = Some s1" using 2(5) [OF False refl KMap 2(7) c u] by auto
      have "remaining T s1 < n" using visited_remaining [OF check_visited(1) [OF s1]] u by linarith
      then show ?thesis using 2(6) [OF False refl KMap s1 2(7) c] s1 KMap False by (simp add: Let_def)
    qed (use False in \<open>simp_all add: Let_def\<close>)
  qed simp
next
  case (4 T up n t f fs s)
  let ?c = "checkField T up t (fst f) s"
  have "remaining T ?c < n" using 4(5) by (simp add: checkField_def)
  then obtain s1 where s1: "checkType T up n (snd f) ?c = Some s1" using 4(1) [OF 4(3)] 4(4) by auto
  have "remaining T s1 < n" using visited_remaining [OF check_visited(1) [OF s1]] \<open>remaining T ?c < n\<close> by linarith
  then show ?case using 4(2) [OF s1 4(3)] 4(4) s1 by simp
qed simp_all

lemma remaining_bound: "remaining T s < check_fuel T"
  using card_mono [of "{..<length T}" "{..<length T} - gb_checked s"] by (simp add: check_fuel_def)

section \<open>What the check reports\<close>

text \<open>Between calls, everything a checked type refers to is checked.\<close>

definition gob_ok :: "go_types \<Rightarrow> gob_state \<Rightarrow> bool" where
  "gob_ok T s \<longleftrightarrow> (\<forall>u \<in> gb_checked s. \<forall>v. refers T u v \<longrightarrow> v \<in> gb_checked s)"

lemma gob_init_ok: "gob_ok T gob_init"
  by (simp add: gob_ok_def gob_init_def)

lemma closed_reach: "(refers T)\<^sup>*\<^sup>* t u \<Longrightarrow> gob_ok T s \<Longrightarrow> t \<in> gb_checked s \<Longrightarrow> u \<in> gb_checked s"
  by (induction rule: rtranclp_induct) (auto simp: gob_ok_def)

lemma checkValue_visited:
  assumes "types_closed T" and "type_of v < length T"
  shows "visited T up {type_of v} s (checkValue T up v s)"
proof -
  obtain s' where s': "checkType T up (check_fuel T) (type_of v) s = Some s'"
    using check_total(1) [OF assms remaining_bound] by blast
  show ?thesis using check_visited(1) [OF s'] by (simp add: checkValue_def s')
qed

lemma visited_reach:
  assumes "visited T up {t} s s'" and "gob_ok T s"
  shows "gob_ok T s'" and "gb_checked s' = gb_checked s \<union> {u. (refers T)\<^sup>*\<^sup>* t u}"
proof -
  have sub: "gb_checked s \<subseteq> gb_checked s'" "t \<in> gb_checked s'" using assms(1) by (simp_all add: visited_def)
  have new: "(refers T)\<^sup>*\<^sup>* t u \<and> (\<forall>v. refers T u v \<longrightarrow> v \<in> gb_checked s')" if "u \<in> gb_checked s' - gb_checked s" for u
    using assms(1) that unfolding visited_def by blast
  have "v \<in> gb_checked s'" if "u \<in> gb_checked s'" "refers T u v" for u v
    using that new [of u] sub(1) assms(2) unfolding gob_ok_def by (cases "u \<in> gb_checked s") blast+
  then show ok: "gob_ok T s'" unfolding gob_ok_def by blast
  show "gb_checked s' = gb_checked s \<union> {u. (refers T)\<^sup>*\<^sup>* t u}"
    using new sub closed_reach [OF _ ok sub(2)] by blast
qed

text \<open>C36: what \<^verbatim>\<open>checkValue\<close> reports of a value's type.  It ends for every table of types, recursive ones included;
  afterwards exactly the types checked before and those the value's type refers to, directly or not, are
  checked; the error count has grown by the number of lower-case fields of those that were not checked
  before, each type counted once.  So when none of the types the value's type refers to was checked before, the
  count stays the same exactly when the type may be sent, every struct it refers to having capitalized fields
  only; a type that was checked before is not complained about again.\<close>

theorem checkValue_types:
  assumes "types_closed T" and "type_of v < length T" and "gob_ok T s"
  shows "gob_ok T (checkValue T up v s) \<and>
    gb_checked (checkValue T up v s) = gb_checked s \<union> {u. (refers T)\<^sup>*\<^sup>* (type_of v) u} \<and>
    gb_errorCount (checkValue T up v s) =
      gb_errorCount s + int (\<Sum>u \<in> {u. (refers T)\<^sup>*\<^sup>* (type_of v) u} - gb_checked s. lower_fields T up u) \<and>
    ({u. (refers T)\<^sup>*\<^sup>* (type_of v) u} \<inter> gb_checked s = {} \<longrightarrow>
       (gb_errorCount (checkValue T up v s) = gb_errorCount s \<longleftrightarrow> sendable T up (type_of v)))"
proof -
  let ?s' = "checkValue T up v s" and ?R = "{u. (refers T)\<^sup>*\<^sup>* (type_of v) u}"
  note v = checkValue_visited [OF assms(1,2), of up s]
  note r = visited_reach [OF v assms(3)]
  have d: "gb_checked ?s' - gb_checked s = ?R - gb_checked s" unfolding r(2) by blast
  have e: "gb_errorCount ?s' = gb_errorCount s + int (\<Sum>u \<in> ?R - gb_checked s. lower_fields T up u)"
    "finite (?R - gb_checked s)" using v unfolding visited_def d by simp_all
  have "gb_errorCount ?s' = gb_errorCount s \<longleftrightarrow> sendable T up (type_of v)" if "?R \<inter> gb_checked s = {}"
  proof -
    have "?R - gb_checked s = ?R" using that by blast
    then have f: "finite ?R" and e': "gb_errorCount ?s' = gb_errorCount s + int (\<Sum>u \<in> ?R. lower_fields T up u)"
      using e by simp_all
    have "gb_errorCount ?s' = gb_errorCount s \<longleftrightarrow> (\<Sum>u \<in> ?R. lower_fields T up u) = 0" using e' by (simp del: sum_eq_0_iff of_nat_sum)
    then show ?thesis unfolding sendable_iff using f by simp
  qed
  then show ?thesis using r e(1) by blast
qed


text \<open>A list of a struct with a lower-case field.\<close>

definition ex_types :: go_types where
  "ex_types = [\<lparr>ty_name = ''Node'', ty_kind = KStruct [(''Val'', 1), (''next'', 2)]\<rparr>,
     \<lparr>ty_name = ''int'', ty_kind = KBasic\<rparr>, \<lparr>ty_name = [], ty_kind = KPtr 0\<rparr>]"

definition ex_upper :: "string \<Rightarrow> bool" where
  "ex_upper f \<longleftrightarrow> f \<noteq> [] \<and> hd f \<in> set ''ABCDEFGHIJKLMNOPQRSTUVWXYZ''"

theorem checkValue_types_witness:
  "gb_errorCount (checkValue ex_types ex_upper (VPtr 2 None) gob_init) = 1 \<and> \<not> sendable ex_types ex_upper 2"
proof -
  have "types_closed ex_types"
    by (auto simp: types_closed_def refers_def kind_of_def ex_types_def less_Suc_eq numeral_3_eq_3)
  moreover have "type_of (VPtr 2 None) < length ex_types" by (simp add: ex_types_def)
  ultimately have "{u. (refers ex_types)\<^sup>*\<^sup>* 2 u} \<inter> gb_checked gob_init = {} \<longrightarrow>
      (gb_errorCount (checkValue ex_types ex_upper (VPtr 2 None) gob_init) = gb_errorCount gob_init \<longleftrightarrow> sendable ex_types ex_upper 2)"
    using checkValue_types [of ex_types "VPtr 2 None" gob_init ex_upper] gob_init_ok unfolding type_of.simps by blast
  moreover have "gb_errorCount (checkValue ex_types ex_upper (VPtr 2 None) gob_init) = 1" by code_simp
  ultimately show ?thesis by (simp add: gob_init_def)
qed

section \<open>What \<^verbatim>\<open>checkDefault\<close> reports\<close>

text \<open>The basic values that are not zero, down to a depth.\<close>

fun nonzeros :: "nat \<Rightarrow> go_value \<Rightarrow> nat" where
  "nonzeros 0 v = 0"
| "nonzeros (Suc d) (VStruct t vs) = sum_list (map (nonzeros d) vs)"
| "nonzeros (Suc d) (VPtr t v) = (case v of None \<Rightarrow> 0 | Some v \<Rightarrow> nonzeros d v)"
| "nonzeros (Suc d) (VBasic t b) = (if is_zero b then 0 else 1)"
| "nonzeros (Suc d) (VOther t) = 0"

lemma warnDefault_count: "gb_errorCount (warnDefault T t name s) = gb_errorCount s + 1"
  by (simp add: warnDefault_def Let_def)

lemma checkDefault1_counts:
  "gb_errorCount (checkDefault1 T v depth name s) = gb_errorCount s + int (nonzeros (nat (4 - depth)) v)"
  "gb_errorCount (checkDefaultFields T t i vs depth name s) = gb_errorCount s + int (sum_list (map (nonzeros (nat (3 - depth))) vs))"
proof (induction T v depth name s and T t i vs depth name s rule: checkDefault1_checkDefaultFields.induct)
  case (1 T t vs depth name s)
  show ?case
  proof (cases "3 < depth")
    case False
    then have "nat (4 - depth) = Suc (nat (3 - depth))" by linarith
    then show ?thesis using 1 False by simp
  qed simp
next
  case (2 T t v depth name s)
  show ?case
  proof (cases "3 < depth")
    case False
    then have "nat (4 - depth) = Suc (nat (3 - depth))" "4 - (depth + 1) = 3 - depth" by linarith+
    then show ?thesis using 2 False by (cases v) simp_all
  qed simp
next
  case (3 T t b depth name s)
  show ?case
  proof (cases "3 < depth")
    case False
    then have "nat (4 - depth) = Suc (nat (3 - depth))" by linarith
    then show ?thesis using False by (simp add: warnDefault_count)
  qed simp
next
  case (4 T t depth name s)
  show ?case by (cases "nat (4 - depth)") simp_all
next
  case (6 T t i v vs depth name s)
  have "4 - (depth + 1) = 3 - depth" by linarith
  then show ?case using 6 by (simp add: Let_def)
qed simp

text \<open>The warning counts the values that are not zero down to the fields of the struct a pointer points to, and
  no deeper.\<close>

lemma checkDefault_counts: "gb_errorCount (checkDefault T (Some v) s) = gb_errorCount s + int (nonzeros 3 v)"
  using checkDefault1_counts(1) [of T v 1 "[]" s] by (simp add: checkDefault_def numeral_3_eq_3)

lemma checkDefault_too_deep:
  "gb_errorCount (checkDefault T (Some (VPtr p (Some (VStruct t [VStruct u [VBasic b (BInt 5)]])))) s) = gb_errorCount s"
  unfolding checkDefault_counts by (simp add: numeral_3_eq_3)

end
