(* ===== verification/LR_Rpc.thy ===== *)
theory LR_Rpc
  imports LR_Gob
begin

text \<open>
  \<^verbatim>\<open>labrpc/labrpc.go\<close>: the simulated network, which loses requests and replies, delays them, and cuts off
  servers.  The network's operations are functions on its state; what the goroutines of \<^verbatim>\<open>processReq\<close>, of
  the handlers and of the callers do is a step relation over all requests in flight, interleaved with the
  operations.  A server is an object with an identity (a \<^verbatim>\<open>*Server\<close>); handlers are functions on a state \<open>'w\<close>
  of the whole program behind the servers.  Random draws are arguments of the rules that use them.  gob, and
  the zero value of a type, come as a record of functions.
\<close>

section \<open>Data\<close>

text \<open>Names of ends and servers (\<^verbatim>\<open>interface{}\<close>): the repository uses strings and integers.\<close>

datatype netname = NStr string | NInt int

type_synonym server_id = nat

record gob_lib =
  gl_types :: go_types
  gl_upper :: "string \<Rightarrow> bool"
  gl_enc :: gob_enc
  gl_dec :: gob_dec
  gl_zero :: "type_id \<Rightarrow> go_value"
  gl_ptr :: "type_id \<Rightarrow> type_id"

record reqMsg =
  rq_endname :: netname
  rq_svcMeth :: string
  rq_argsType :: type_id
  rq_args :: string

record replyMsg =
  rp_ok :: bool
  rp_reply :: string

abbreviation failed :: replyMsg where
  "failed \<equiv> \<lparr>rp_ok = False, rp_reply = []\<rparr>"

record ClientEnd =
  ce_endname :: netname

record 'w reflect_method =
  rm_Name :: string
  rm_PkgPath :: string
  rm_In :: "go_kind list"
  rm_NumOut :: nat
  rm_replyType :: type_id
  rm_Func :: "go_value \<Rightarrow> go_value \<Rightarrow> 'w \<Rightarrow> go_value \<times> 'w"

record 'w Service =
  sv_name :: string
  sv_methods :: "string \<rightharpoonup> 'w reflect_method"

record 'w Server =
  sr_services :: "string \<rightharpoonup> 'w Service"
  sr_count :: int

record Network =
  nt_reliable :: bool
  nt_longDelays :: bool
  nt_longReordering :: bool
  nt_ends :: "netname \<rightharpoonup> ClientEnd"
  nt_enabled :: "netname \<rightharpoonup> bool"
  nt_servers :: "netname \<Rightarrow> server_id option"
  nt_connections :: "netname \<Rightarrow> netname option"
  nt_done :: bool
  nt_count :: "32 word"
  nt_bytes :: "64 word"

section \<open>Services\<close>

fun is_ptr :: "go_kind \<Rightarrow> bool" where
  "is_ptr (KPtr t) = True"
| "is_ptr _ = False"

definition suitable :: "'w reflect_method \<Rightarrow> bool" where
  "suitable m \<longleftrightarrow> \<not> (rm_PkgPath m \<noteq> [] \<or> length (rm_In m) \<noteq> 3 \<or> \<not> is_ptr (rm_In m ! 2) \<or> rm_NumOut m \<noteq> 0)"

fun collectMethods :: "'w reflect_method list \<Rightarrow> (string \<rightharpoonup> 'w reflect_method) \<Rightarrow> string \<rightharpoonup> 'w reflect_method" where
  "collectMethods [] ms = ms"
| "collectMethods (m # rest) ms = collectMethods rest (if suitable m then ms(rm_Name m \<mapsto> m) else ms)"

text \<open>The receiver is given by its type's name and methods.\<close>

definition MakeService :: "string \<Rightarrow> 'w reflect_method list \<Rightarrow> 'w Service" where
  "MakeService name methods = \<lparr>sv_name = name, sv_methods = collectMethods methods Map.empty\<rparr>"

text \<open>\<^verbatim>\<open>reflect.New\<close> and \<^verbatim>\<open>Elem\<close>.\<close>

definition reflect_New :: "gob_lib \<Rightarrow> type_id \<Rightarrow> go_value" where
  "reflect_New G t = VPtr (gl_ptr G t) (Some (gl_zero G t))"

fun go_Elem :: "go_value \<Rightarrow> go_value" where
  "go_Elem (VPtr t (Some v)) = v"
| "go_Elem v = v"

text \<open>The argument and the reply are decoded and encoded through pointers; whether that worked is not looked at.  The
  method gets the value the reply points to, and returns what it leaves there.\<close>

definition Service_dispatch ::
  "gob_lib \<Rightarrow> 'w Service \<Rightarrow> string \<Rightarrow> reqMsg \<Rightarrow> 'w \<Rightarrow> gob_state \<Rightarrow> go_panic + (replyMsg \<times> 'w \<times> gob_state)" where
  "Service_dispatch G svc methname req w g =
     (case sv_methods svc methname of
        None \<Rightarrow> Inl (Fatal ''labrpc.Service.dispatch(): unknown method'')
      | Some method \<Rightarrow>
          (case gob_Decode (gl_types G) (gl_upper G) (gl_dec G) (rq_args req) (reflect_New G (rq_argsType req)) g of
             ((args, _), g) \<Rightarrow>
               (case rm_Func method (go_Elem args) (go_Elem (reflect_New G (rm_replyType method))) w of
                  (replyv, w) \<Rightarrow>
                    (case gob_EncodeValue (gl_types G) (gl_upper G) (gl_enc G) (VPtr (gl_ptr G (rm_replyType method)) (Some replyv)) g of
                       ((bs, _), g) \<Rightarrow> Inr (\<lparr>rp_ok = True, rp_reply = bs\<rparr>, w, g)))))"

definition MakeServer :: "'w Server" where
  "MakeServer = \<lparr>sr_services = Map.empty, sr_count = 0\<rparr>"

definition AddService :: "'w Service \<Rightarrow> 'w Server \<Rightarrow> 'w Server" where
  "AddService svc rs = rs\<lparr>sr_services := (sr_services rs)(sv_name svc \<mapsto> svc)\<rparr>"

text \<open>The server's count changes before the request can fail.\<close>

definition Server_dispatch ::
  "gob_lib \<Rightarrow> 'w Server \<Rightarrow> reqMsg \<Rightarrow> 'w \<Rightarrow> gob_state \<Rightarrow> 'w Server \<times> (go_panic + (replyMsg \<times> 'w \<times> gob_state))" where
  "Server_dispatch G rs req w g =
     (let rs = rs\<lparr>sr_count := sr_count rs + 1\<rparr>;
          dot = LastIndexByte (rq_svcMeth req) CHR ''.''
      in if dot < 0 then (rs, Inl IndexOutOfRange)
         else let serviceName = take (nat dot) (rq_svcMeth req); methodName = drop (nat dot + 1) (rq_svcMeth req)
              in case sr_services rs serviceName of
                   Some service \<Rightarrow> (rs, Service_dispatch G service methodName req w g)
                 | None \<Rightarrow> (rs, Inl (Fatal ''labrpc.Server.dispatch(): unknown service'')))"

definition Server_GetCount :: "'w Server \<Rightarrow> int" where
  "Server_GetCount rs = sr_count rs"

section \<open>The network\<close>

definition MakeNetwork :: Network where
  "MakeNetwork = \<lparr>nt_reliable = True, nt_longDelays = False, nt_longReordering = False, nt_ends = Map.empty,
     nt_enabled = Map.empty, nt_servers = (\<lambda>_. None), nt_connections = (\<lambda>_. None), nt_done = False,
     nt_count = 0, nt_bytes = 0\<rparr>"

text \<open>Closing a closed channel panics.\<close>

definition Cleanup :: "Network \<Rightarrow> go_panic + Network" where
  "Cleanup rn = (if nt_done rn then Inl (Fatal ''close of closed channel'') else Inr (rn\<lparr>nt_done := True\<rparr>))"

definition Reliable :: "bool \<Rightarrow> Network \<Rightarrow> Network" where
  "Reliable yes rn = rn\<lparr>nt_reliable := yes\<rparr>"

definition LongReordering :: "bool \<Rightarrow> Network \<Rightarrow> Network" where
  "LongReordering yes rn = rn\<lparr>nt_longReordering := yes\<rparr>"

definition LongDelays :: "bool \<Rightarrow> Network \<Rightarrow> Network" where
  "LongDelays yes rn = rn\<lparr>nt_longDelays := yes\<rparr>"

definition is_enabled :: "Network \<Rightarrow> netname \<Rightarrow> bool" where
  "is_enabled rn endname = (case nt_enabled rn endname of None \<Rightarrow> False | Some b \<Rightarrow> b)"

definition readEndnameInfo :: "netname \<Rightarrow> Network \<Rightarrow> bool \<times> netname option \<times> server_id option \<times> bool \<times> bool" where
  "readEndnameInfo endname rn =
     (let servername = nt_connections rn endname
      in (is_enabled rn endname, servername,
          (case servername of None \<Rightarrow> None | Some n \<Rightarrow> nt_servers rn n), nt_reliable rn, nt_longReordering rn))"

definition isServerDead :: "netname \<Rightarrow> netname \<Rightarrow> server_id \<Rightarrow> Network \<Rightarrow> bool" where
  "isServerDead endname servername server rn =
     (if is_enabled rn endname = False \<or> nt_servers rn servername \<noteq> Some server then True else False)"

definition MakeEnd :: "netname \<Rightarrow> Network \<Rightarrow> go_panic + (ClientEnd \<times> Network)" where
  "MakeEnd endname rn =
     (if nt_ends rn endname \<noteq> None then Inl (Fatal ''MakeEnd: already exists'')
      else let e = \<lparr>ce_endname = endname\<rparr>
           in Inr (e, rn\<lparr>nt_ends := (nt_ends rn)(endname \<mapsto> e), nt_enabled := (nt_enabled rn)(endname \<mapsto> False),
                nt_connections := (nt_connections rn)(endname := None)\<rparr>))"

definition AddServer :: "netname \<Rightarrow> server_id \<Rightarrow> Network \<Rightarrow> Network" where
  "AddServer servername rs rn = rn\<lparr>nt_servers := (nt_servers rn)(servername := Some rs)\<rparr>"

definition DeleteServer :: "netname \<Rightarrow> Network \<Rightarrow> Network" where
  "DeleteServer servername rn = rn\<lparr>nt_servers := (nt_servers rn)(servername := None)\<rparr>"

definition Connect :: "netname \<Rightarrow> netname \<Rightarrow> Network \<Rightarrow> Network" where
  "Connect endname servername rn = rn\<lparr>nt_connections := (nt_connections rn)(endname := Some servername)\<rparr>"

definition Enable :: "netname \<Rightarrow> bool \<Rightarrow> Network \<Rightarrow> Network" where
  "Enable endname enabled rn = rn\<lparr>nt_enabled := (nt_enabled rn)(endname \<mapsto> enabled)\<rparr>"

text \<open>A name without a server yields nil, whose lock panics.\<close>

definition Network_GetCount :: "(server_id \<Rightarrow> 'w Server) \<Rightarrow> netname \<Rightarrow> Network \<Rightarrow> go_panic + int" where
  "Network_GetCount heap servername rn =
     (case nt_servers rn servername of None \<Rightarrow> Inl NilDeref | Some svr \<Rightarrow> Inr (Server_GetCount (heap svr)))"

definition GetTotalCount :: "Network \<Rightarrow> int" where
  "GetTotalCount rn = sint (nt_count rn)"

definition GetTotalBytes :: "Network \<Rightarrow> int" where
  "GetTotalBytes rn = sint (nt_bytes rn)"

section \<open>Requests in flight\<close>

text \<open>Where the goroutine of \<^verbatim>\<open>processReq\<close> stands.  \<open>Accepted\<close> and what follows carry what \<^verbatim>\<open>readEndnameInfo\<close>
  returned.\<close>

record req_info =
  ri_servername :: netname
  ri_server :: server_id
  ri_reliable :: bool
  ri_longreordering :: bool

datatype req_phase =
    Arrived
  | Accepted req_info
  | Waiting req_info
  | GotReply req_info replyMsg
  | ServerDied req_info
  | TimedOut nat
  | Delayed nat replyMsg
  | Answered replyMsg

datatype handler_phase = NotStarted | Running server_id | Finished server_id replyMsg

record rpc =
  rc_req :: reqMsg
  rc_phase :: req_phase
  rc_handler :: handler_phase

record 'w rpc_system =
  rs_net :: Network
  rs_heap :: "server_id \<Rightarrow> 'w Server"
  rs_world :: 'w
  rs_gob :: gob_state
  rs_rpcs :: "nat \<rightharpoonup> rpc"
  rs_executed :: "nat list"

definition setRpc :: "nat \<Rightarrow> rpc \<Rightarrow> 'w rpc_system \<Rightarrow> 'w rpc_system" where
  "setRpc i c S = S\<lparr>rs_rpcs := (rs_rpcs S)(i \<mapsto> c)\<rparr>"

definition addBytes :: "replyMsg \<Rightarrow> Network \<Rightarrow> Network" where
  "addBytes r rn = rn\<lparr>nt_bytes := nt_bytes rn + of_nat (length (rp_reply r))\<rparr>"

text \<open>The first half of \<^verbatim>\<open>Call\<close>, up to the request's arrival at the network, which counts it.  \<open>i\<close> is a fresh
  identity for the call; \<open>closed\<close> says that the \<^verbatim>\<open>select\<close> takes its second case, open to it only once the network is
  destroyed.\<close>

definition Call_send ::
  "gob_lib \<Rightarrow> ClientEnd \<Rightarrow> string \<Rightarrow> go_value \<Rightarrow> bool \<Rightarrow> nat \<Rightarrow> 'w rpc_system \<Rightarrow> go_panic + 'w rpc_system" where
  "Call_send G e svcMeth args closed i S =
     (case gob_Encode (gl_types G) (gl_upper G) (gl_enc G) args (rs_gob S) of
        ((bs, ok), g) \<Rightarrow>
          if \<not> ok then Inl (Fatal ''panic'')
          else let req = \<lparr>rq_endname = ce_endname e, rq_svcMeth = svcMeth, rq_argsType = type_of args, rq_args = bs\<rparr>;
                   rn = rs_net S
               in if closed \<and> nt_done rn
                  then Inr (setRpc i \<lparr>rc_req = req, rc_phase = Answered failed, rc_handler = NotStarted\<rparr> (S\<lparr>rs_gob := g\<rparr>))
                  else Inr (setRpc i \<lparr>rc_req = req, rc_phase = Arrived, rc_handler = NotStarted\<rparr>
                    (S\<lparr>rs_gob := g, rs_net := rn\<lparr>nt_count := nt_count rn + 1, nt_bytes := nt_bytes rn + of_nat (length bs)\<rparr>\<rparr>)))"

text \<open>The second half: what \<^verbatim>\<open>Call\<close> returns and leaves in \<open>reply\<close>.\<close>

definition Call_receive ::
  "gob_lib \<Rightarrow> replyMsg \<Rightarrow> go_value \<Rightarrow> gob_state \<Rightarrow> go_panic + (bool \<times> go_value \<times> gob_state)" where
  "Call_receive G rep reply g =
     (if rp_ok rep then
        (case gob_Decode (gl_types G) (gl_upper G) (gl_dec G) (rp_reply rep) reply g of
           ((v, ok), g) \<Rightarrow> if \<not> ok then Inl (Fatal ''ClientEnd.Call(): decode reply'') else Inr (True, v, g))
      else Inr (False, reply, g))"

text \<open>\<^verbatim>\<open>processReq\<close> up to the start of the handler: \<open>r\<close> is the number drawn for the request's loss, \<open>ms\<close> the one
  drawn for the delay of a request that cannot be delivered.  Sleeping is not a step: other steps may come
  between any two of a request's.\<close>

definition acceptReq :: "nat \<Rightarrow> Network \<Rightarrow> reqMsg \<Rightarrow> req_phase" where
  "acceptReq ms rn req =
     (case readEndnameInfo (rq_endname req) rn of
        (enabled, Some servername, Some server, reliable, longreordering) \<Rightarrow>
          if enabled then Accepted \<lparr>ri_servername = servername, ri_server = server, ri_reliable = reliable, ri_longreordering = longreordering\<rparr>
          else TimedOut (if nt_longDelays rn then ms mod 7000 else ms mod 100)
      | _ \<Rightarrow> TimedOut (if nt_longDelays rn then ms mod 7000 else ms mod 100))"

definition startReq :: "nat \<Rightarrow> rpc \<Rightarrow> req_info \<Rightarrow> rpc" where
  "startReq r c ri =
     (if ri_reliable ri = False \<and> r mod 1000 < 100 then c\<lparr>rc_phase := Answered failed\<rparr>
      else c\<lparr>rc_phase := Waiting ri, rc_handler := Running (ri_server ri)\<rparr>)"

text \<open>The wait loop's two cases: the handler's reply, and a tick that looks whether the server is dead.\<close>

definition tickReq :: "Network \<Rightarrow> rpc \<Rightarrow> req_info \<Rightarrow> rpc" where
  "tickReq rn c ri =
     (if isServerDead (rq_endname (rc_req c)) (ri_servername ri) (ri_server ri) rn then c\<lparr>rc_phase := ServerDied ri\<rparr> else c)"

text \<open>The end of \<^verbatim>\<open>processReq\<close>: \<open>r1\<close> is drawn for the reply's loss, \<open>r2\<close> for whether it is delayed, \<open>m1\<close> and \<open>m2\<close> for
  how long.\<close>

definition finishReq :: "nat \<Rightarrow> nat \<Rightarrow> nat \<Rightarrow> nat \<Rightarrow> Network \<Rightarrow> rpc \<Rightarrow> req_info \<Rightarrow> replyMsg option \<Rightarrow> rpc \<times> Network" where
  "finishReq r1 r2 m1 m2 rn c ri reply =
     (let serverDead = isServerDead (rq_endname (rc_req c)) (ri_servername ri) (ri_server ri) rn
      in case reply of
           None \<Rightarrow> (c\<lparr>rc_phase := Answered failed\<rparr>, rn)
         | Some reply \<Rightarrow>
             if serverDead then (c\<lparr>rc_phase := Answered failed\<rparr>, rn)
             else if ri_reliable ri = False \<and> r1 mod 1000 < 100 then (c\<lparr>rc_phase := Answered failed\<rparr>, rn)
             else if ri_longreordering ri = True \<and> r2 mod 900 < 600 then (c\<lparr>rc_phase := Delayed (200 + m1 mod (1 + m2 mod 2000)) reply\<rparr>, rn)
             else (c\<lparr>rc_phase := Answered reply\<rparr>, addBytes reply rn))"

text \<open>The operations of the tester on the network.\<close>

inductive net_op :: "Network \<Rightarrow> Network \<Rightarrow> bool" where
  "net_op rn (Reliable b rn)"
| "net_op rn (LongReordering b rn)"
| "net_op rn (LongDelays b rn)"
| "net_op rn (Enable e b rn)"
| "net_op rn (Connect e n rn)"
| "net_op rn (DeleteServer n rn)"
| "net_op rn (AddServer n k rn)"
| "MakeEnd e rn = Inr (c, rn') \<Longrightarrow> net_op rn rn'"
| "Cleanup rn = Inr rn' \<Longrightarrow> net_op rn rn'"

text \<open>One step of the system.  \<open>ops\<close> are the network operations the tester is allowed in the run considered.  The
  program behind the servers may change its state at any time, and the tester may add a service to a server.\<close>

inductive rpc_step :: "gob_lib \<Rightarrow> (Network \<Rightarrow> Network \<Rightarrow> bool) \<Rightarrow> 'w rpc_system \<Rightarrow> 'w rpc_system \<Rightarrow> bool" for G ops where
  send: "rs_rpcs S i = None \<Longrightarrow> Call_send G e svcMeth args closed i S = Inr S' \<Longrightarrow> rpc_step G ops S S'"
| accept: "rs_rpcs S i = Some c \<Longrightarrow> rc_phase c = Arrived \<Longrightarrow>
    rpc_step G ops S (setRpc i (c\<lparr>rc_phase := acceptReq ms (rs_net S) (rc_req c)\<rparr>) S)"
| start: "rs_rpcs S i = Some c \<Longrightarrow> rc_phase c = Accepted ri \<Longrightarrow> rpc_step G ops S (setRpc i (startReq r c ri) S)"
| handle: "rs_rpcs S i = Some c \<Longrightarrow> rc_handler c = Running k \<Longrightarrow>
    Server_dispatch G (rs_heap S k) (rc_req c) (rs_world S) (rs_gob S) = (rs, Inr (reply, w, g)) \<Longrightarrow>
    rpc_step G ops S (setRpc i (c\<lparr>rc_handler := Finished k reply\<rparr>)
      (S\<lparr>rs_heap := (rs_heap S)(k := rs), rs_world := w, rs_gob := g, rs_executed := rs_executed S @ [i]\<rparr>))"
| receive: "rs_rpcs S i = Some c \<Longrightarrow> rc_phase c = Waiting ri \<Longrightarrow> rc_handler c = Finished k reply \<Longrightarrow>
    rpc_step G ops S (setRpc i (c\<lparr>rc_phase := GotReply ri reply\<rparr>) S)"
| tick: "rs_rpcs S i = Some c \<Longrightarrow> rc_phase c = Waiting ri \<Longrightarrow> rpc_step G ops S (setRpc i (tickReq (rs_net S) c ri) S)"
| finish: "rs_rpcs S i = Some c \<Longrightarrow> rc_phase c = GotReply ri reply \<Longrightarrow> finishReq r1 r2 m1 m2 (rs_net S) c ri (Some reply) = (c', rn) \<Longrightarrow>
    rpc_step G ops S (setRpc i c' (S\<lparr>rs_net := rn\<rparr>))"
| finish_dead: "rs_rpcs S i = Some c \<Longrightarrow> rc_phase c = ServerDied ri \<Longrightarrow> finishReq r1 r2 m1 m2 (rs_net S) c ri None = (c', rn) \<Longrightarrow>
    rpc_step G ops S (setRpc i c' (S\<lparr>rs_net := rn\<rparr>))"
| timeout: "rs_rpcs S i = Some c \<Longrightarrow> rc_phase c = TimedOut ms \<Longrightarrow> rpc_step G ops S (setRpc i (c\<lparr>rc_phase := Answered failed\<rparr>) S)"
| deliver: "rs_rpcs S i = Some c \<Longrightarrow> rc_phase c = Delayed ms reply \<Longrightarrow>
    rpc_step G ops S (setRpc i (c\<lparr>rc_phase := Answered reply\<rparr>) (S\<lparr>rs_net := addBytes reply (rs_net S)\<rparr>))"
| operate: "net_op (rs_net S) rn \<Longrightarrow> ops (rs_net S) rn \<Longrightarrow> rpc_step G ops S (S\<lparr>rs_net := rn\<rparr>)"
| world: "rpc_step G ops S (S\<lparr>rs_world := w\<rparr>)"
| service: "rpc_step G ops S (S\<lparr>rs_heap := (rs_heap S)(k := AddService svc (rs_heap S k))\<rparr>)"

inductive rpc_reach :: "gob_lib \<Rightarrow> (Network \<Rightarrow> Network \<Rightarrow> bool) \<Rightarrow> 'w rpc_system \<Rightarrow> 'w rpc_system \<Rightarrow> bool" for G ops where
  here: "rpc_reach G ops S S"
| further: "rpc_reach G ops S S' \<Longrightarrow> rpc_step G ops S' S'' \<Longrightarrow> rpc_reach G ops S S''"

definition rpc_init :: "Network \<Rightarrow> (server_id \<Rightarrow> 'w Server) \<Rightarrow> 'w \<Rightarrow> 'w rpc_system" where
  "rpc_init rn heap w = \<lparr>rs_net = rn, rs_heap = heap, rs_world = w, rs_gob = gob_init, rs_rpcs = Map.empty, rs_executed = []\<rparr>"

section \<open>Steps\<close>

lemma setRpc_sel [simp]:
  "rs_rpcs (setRpc i c S) = (rs_rpcs S)(i \<mapsto> c)" "rs_net (setRpc i c S) = rs_net S" "rs_heap (setRpc i c S) = rs_heap S"
  "rs_executed (setRpc i c S) = rs_executed S"
  by (simp_all add: setRpc_def)

lemma addBytes_sel [simp]:
  "nt_servers (addBytes r rn) = nt_servers rn" "readEndnameInfo e (addBytes r rn) = readEndnameInfo e rn"
  by (simp_all add: addBytes_def readEndnameInfo_def is_enabled_def Let_def split: option.splits)

text \<open>What a step does to one request: \<open>moves k rn c c'\<close> is a move that leaves the network's tables alone.\<close>

inductive moves :: "Network \<Rightarrow> rpc \<Rightarrow> rpc \<Rightarrow> bool" for rn where
  "rc_phase c = Arrived \<Longrightarrow> moves rn c (c\<lparr>rc_phase := acceptReq ms rn (rc_req c)\<rparr>)"
| "rc_phase c = Accepted ri \<Longrightarrow> moves rn c (startReq r c ri)"
| "rc_phase c = Waiting ri \<Longrightarrow> rc_handler c = Finished k reply \<Longrightarrow> moves rn c (c\<lparr>rc_phase := GotReply ri reply\<rparr>)"
| "rc_phase c = Waiting ri \<Longrightarrow> moves rn c (tickReq rn c ri)"
| "rc_phase c = GotReply ri reply \<Longrightarrow> moves rn c (fst (finishReq r1 r2 m1 m2 rn c ri (Some reply)))"
| "rc_phase c = ServerDied ri \<Longrightarrow> moves rn c (fst (finishReq r1 r2 m1 m2 rn c ri None))"
| "rc_phase c = TimedOut ms \<Longrightarrow> moves rn c (c\<lparr>rc_phase := Answered failed\<rparr>)"
| "rc_phase c = Delayed ms reply \<Longrightarrow> moves rn c (c\<lparr>rc_phase := Answered reply\<rparr>)"

inductive_simps moves_phase:
  "moves rn c c'"

definition same_tables :: "Network \<Rightarrow> Network \<Rightarrow> bool" where
  "same_tables rn rn' \<longleftrightarrow> nt_servers rn' = nt_servers rn \<and> (\<forall>e. readEndnameInfo e rn' = readEndnameInfo e rn)"

lemma same_tables_refl [simp]: "same_tables rn rn"
  by (simp add: same_tables_def)

lemma same_tables_addBytes [simp]: "same_tables rn (addBytes r rn)"
  by (simp add: same_tables_def)

lemma same_tables_counts [simp]: "same_tables rn (rn\<lparr>nt_count := c, nt_bytes := b\<rparr>)"
  by (simp add: same_tables_def readEndnameInfo_def is_enabled_def Let_def split: option.splits)

lemma finishReq_net: "finishReq r1 r2 m1 m2 rn c ri reply = (c', rn') \<Longrightarrow> same_tables rn rn' \<and> c' = fst (finishReq r1 r2 m1 m2 rn c ri reply)"
  by (auto simp: finishReq_def Let_def split: option.splits if_splits)

lemma Service_dispatch_ok: "Service_dispatch G svc m req w g = Inr (reply, w', g') \<Longrightarrow> rp_ok reply"
  by (auto simp: Service_dispatch_def split: option.splits prod.splits)

lemma Server_dispatch_ok: "Server_dispatch G rs req w g = (rs', Inr (reply, w', g')) \<Longrightarrow> rp_ok reply"
  by (auto simp: Server_dispatch_def Let_def split: if_splits option.splits intro: Service_dispatch_ok)

text \<open>The four things a step can do: a new call, a move of one request, a handler's return, or a change that
  touches no request.\<close>

inductive effect :: "(Network \<Rightarrow> Network \<Rightarrow> bool) \<Rightarrow> 'w rpc_system \<Rightarrow> 'w rpc_system \<Rightarrow> bool" for ops where
  called: "rs_rpcs S i = None \<Longrightarrow> rs_rpcs S' = (rs_rpcs S)(i \<mapsto> c) \<Longrightarrow> rc_handler c = NotStarted \<Longrightarrow>
    rc_phase c = Arrived \<or> rc_phase c = Answered failed \<Longrightarrow> rs_executed S' = rs_executed S \<Longrightarrow>
    same_tables (rs_net S) (rs_net S') \<Longrightarrow> effect ops S S'"
| moved: "rs_rpcs S i = Some c \<Longrightarrow> moves (rs_net S) c c' \<Longrightarrow> rs_rpcs S' = (rs_rpcs S)(i \<mapsto> c') \<Longrightarrow>
    rs_executed S' = rs_executed S \<Longrightarrow> same_tables (rs_net S) (rs_net S') \<Longrightarrow> effect ops S S'"
| handled: "rs_rpcs S i = Some c \<Longrightarrow> rc_handler c = Running k \<Longrightarrow> rp_ok reply \<Longrightarrow>
    rs_rpcs S' = (rs_rpcs S)(i \<mapsto> c\<lparr>rc_handler := Finished k reply\<rparr>) \<Longrightarrow> rs_executed S' = rs_executed S @ [i] \<Longrightarrow>
    rs_net S' = rs_net S \<Longrightarrow> effect ops S S'"
| unmoved: "rs_rpcs S' = rs_rpcs S \<Longrightarrow> rs_executed S' = rs_executed S \<Longrightarrow>
    rs_net S' = rs_net S \<or> net_op (rs_net S) (rs_net S') \<and> ops (rs_net S) (rs_net S') \<Longrightarrow> effect ops S S'"

lemma Call_send_effect: "rs_rpcs S i = None \<Longrightarrow> Call_send G e m args closed i S = Inr S' \<Longrightarrow> effect ops S S'"
  unfolding Call_send_def Let_def
  by (auto split: prod.splits if_splits intro: effect.called)

lemma step_effect:
  assumes "rpc_step G ops S S'"
  shows "effect ops S S'"
  using assms
proof (cases rule: rpc_step.cases)
  case (send i e svcMeth args closed)
  then show ?thesis
    by (rule Call_send_effect)
next
  case (accept i c ms)
  show ?thesis
    unfolding accept(1)
    by (rule effect.moved [OF accept(2) moves.intros(1) [OF accept(3)]]) simp_all
next
  case (start i c ri r)
  show ?thesis
    unfolding start(1)
    by (rule effect.moved [OF start(2) moves.intros(2) [OF start(3)]]) simp_all
next
  case (handle i c k rs reply w g)
  show ?thesis
    unfolding handle(1)
    by (rule effect.handled [OF handle(2,3) Server_dispatch_ok [OF handle(4)]]) simp_all
next
  case (receive i c ri k reply)
  show ?thesis
    unfolding receive(1)
    by (rule effect.moved [OF receive(2) moves.intros(3) [OF receive(3,4)]]) simp_all
next
  case (tick i c ri)
  show ?thesis
    unfolding tick(1)
    by (rule effect.moved [OF tick(2) moves.intros(4) [OF tick(3)]]) simp_all
next
  case (finish i c ri reply r1 r2 m1 m2 c' rn)
  show ?thesis
    unfolding finish(1)
    by (rule effect.moved [OF finish(2) moves.intros(5) [OF finish(3)]]) (simp_all add: finishReq_net [OF finish(4)])
next
  case (finish_dead i c ri r1 r2 m1 m2 c' rn)
  show ?thesis
    unfolding finish_dead(1)
    by (rule effect.moved [OF finish_dead(2) moves.intros(6) [OF finish_dead(3)]]) (simp_all add: finishReq_net [OF finish_dead(4)])
next
  case (timeout i c ms)
  show ?thesis
    unfolding timeout(1)
    by (rule effect.moved [OF timeout(2) moves.intros(7) [OF timeout(3)]]) simp_all
next
  case (deliver i c ms reply)
  show ?thesis
    unfolding deliver(1)
    by (rule effect.moved [OF deliver(2) moves.intros(8) [OF deliver(3)]]) simp_all
next
  case (operate rn)
  show ?thesis
    unfolding operate(1)
    by (rule effect.unmoved) (simp_all add: operate)
next
  case (world w)
  show ?thesis
    unfolding world(1)
    by (rule effect.unmoved) simp_all
next
  case (service k svc)
  show ?thesis
    unfolding service(1)
    by (rule effect.unmoved) simp_all
qed

section \<open>At most once\<close>

text \<open>What the phase of a request says about its handler.\<close>

definition handler_ran :: "rpc \<Rightarrow> bool" where
  "handler_ran c \<longleftrightarrow> (case rc_handler c of Finished k r \<Rightarrow> True | _ \<Rightarrow> False)"

definition phase_ok :: "rpc \<Rightarrow> bool" where
  "phase_ok c \<longleftrightarrow>
     (case rc_phase c of
        Arrived \<Rightarrow> rc_handler c = NotStarted
      | Accepted ri \<Rightarrow> rc_handler c = NotStarted
      | Waiting ri \<Rightarrow> rc_handler c = Running (ri_server ri) \<or> (\<exists>r. rc_handler c = Finished (ri_server ri) r)
      | GotReply ri r \<Rightarrow> rc_handler c = Finished (ri_server ri) r
      | ServerDied ri \<Rightarrow> True
      | TimedOut ms \<Rightarrow> rc_handler c = NotStarted
      | Delayed ms r \<Rightarrow> (\<exists>k. rc_handler c = Finished k r)
      | Answered r \<Rightarrow> r = failed \<or> (\<exists>k. rc_handler c = Finished k r))"

definition request_ok :: "nat \<Rightarrow> rpc option \<Rightarrow> bool" where
  "request_ok runs r \<longleftrightarrow> (case r of None \<Rightarrow> runs = 0 | Some c \<Rightarrow> phase_ok c \<and> runs = (if handler_ran c then 1 else 0))"

lemma request_ok_simps [simp]:
  "request_ok n None \<longleftrightarrow> n = 0"
  "request_ok n (Some c) \<longleftrightarrow> phase_ok c \<and> n = (if handler_ran c then 1 else 0)"
  by (simp_all add: request_ok_def)

definition rpcs_ok :: "'w rpc_system \<Rightarrow> bool" where
  "rpcs_ok S \<longleftrightarrow> (\<forall>i. request_ok (count_list (rs_executed S) i) (rs_rpcs S i))"

lemma rpcs_okD: "rpcs_ok S \<Longrightarrow> request_ok (count_list (rs_executed S) i) (rs_rpcs S i)"
  by (simp add: rpcs_ok_def)

lemma rpcs_ok_update:
  assumes "rpcs_ok S" "rs_rpcs S' = (rs_rpcs S)(i \<mapsto> c)" "request_ok (count_list (rs_executed S') i) (Some c)"
    and "\<And>j. j \<noteq> i \<Longrightarrow> count_list (rs_executed S') j = count_list (rs_executed S) j"
  shows "rpcs_ok S'"
  unfolding rpcs_ok_def
proof
  fix j
  show "request_ok (count_list (rs_executed S') j) (rs_rpcs S' j)"
    using rpcs_okD [OF assms(1), of j] assms(2-4) by (cases "j = i") simp_all
qed

lemma acceptReq_cases:
  "(\<exists>ri. acceptReq ms rn req = Accepted ri \<and> readEndnameInfo (rq_endname req) rn =
      (True, Some (ri_servername ri), Some (ri_server ri), ri_reliable ri, ri_longreordering ri)) \<or>
   (\<exists>n. acceptReq ms rn req = TimedOut n)"
  by (auto simp: acceptReq_def split: prod.splits option.splits)

lemma moves_ok: "moves rn c c' \<Longrightarrow> phase_ok c \<Longrightarrow> phase_ok c'"
proof (induction rule: moves.induct)
  case (1 c ms)
  then show ?case
    using acceptReq_cases [of ms rn "rc_req c"] by (auto simp: phase_ok_def)
qed (auto simp: phase_ok_def startReq_def tickReq_def finishReq_def Let_def)

lemma moves_ran: "moves rn c c' \<Longrightarrow> phase_ok c \<Longrightarrow> handler_ran c' = handler_ran c"
  by (induction rule: moves.induct)
    (auto simp: phase_ok_def handler_ran_def startReq_def tickReq_def finishReq_def Let_def)

lemma effect_ok: "effect ops S S' \<Longrightarrow> rpcs_ok S \<Longrightarrow> rpcs_ok S'"
proof (induction rule: effect.induct)
  case (called S i S' c)
  have "phase_ok c \<and> \<not> handler_ran c"
    using called(3,4) by (auto simp: phase_ok_def handler_ran_def)
  then show ?case
    using rpcs_okD [OF called(7), of i] called(1,5) by (intro rpcs_ok_update [OF called(7,2)]) simp_all
next
  case (moved S i c c' S')
  have "phase_ok c"
    using rpcs_okD [OF moved(6), of i] moved(1) by simp
  from moves_ok [OF moved(2) this] moves_ran [OF moved(2) this] show ?case
    using rpcs_okD [OF moved(6), of i] moved(1,4) by (intro rpcs_ok_update [OF moved(6,3)]) simp_all
next
  case (handled S i c k reply S')
  have c: "phase_ok c" "\<not> handler_ran c"
    using rpcs_okD [OF handled(7), of i] handled(1,2) by (simp_all add: handler_ran_def)
  then have "phase_ok (c\<lparr>rc_handler := Finished k reply\<rparr>)" "handler_ran (c\<lparr>rc_handler := Finished k reply\<rparr>)"
    using handled(2) by (auto simp: phase_ok_def handler_ran_def split: req_phase.splits)
  then show ?case
    using rpcs_okD [OF handled(7), of i] handled(1,5) c by (intro rpcs_ok_update [OF handled(7,4)]) simp_all
qed (simp add: rpcs_ok_def)

lemma reach_induct [consumes 2, case_names step]:
  assumes "rpc_reach G ops S S'" and "I S" and "\<And>S1 S2. I S1 \<Longrightarrow> effect ops S1 S2 \<Longrightarrow> I S2"
  shows "I S'"
  using assms(1,2)
  by (induction rule: rpc_reach.induct) (simp_all add: assms(3) step_effect)

lemma reach_ok:
  assumes "rpc_reach G ops (rpc_init rn heap w) S"
  shows "rpcs_ok S"
  using assms
proof (rule reach_induct [where I = rpcs_ok])
  show "rpcs_ok (rpc_init rn heap w)"
    by (simp add: rpc_init_def rpcs_ok_def)
qed (rule effect_ok)

section \<open>Deleted servers\<close>

definition gone :: "server_id \<Rightarrow> Network \<Rightarrow> bool" where
  "gone k rn \<longleftrightarrow> (\<forall>n. nt_servers rn n \<noteq> Some k)"

definition bound_to :: "server_id \<Rightarrow> rpc \<Rightarrow> bool" where
  "bound_to k c \<longleftrightarrow>
     (case rc_phase c of
        Accepted ri \<Rightarrow> ri_server ri = k | Waiting ri \<Rightarrow> ri_server ri = k
      | GotReply ri r \<Rightarrow> ri_server ri = k | ServerDied ri \<Rightarrow> ri_server ri = k | _ \<Rightarrow> False)"

definition doomed :: "server_id \<Rightarrow> nat \<Rightarrow> 'w rpc_system \<Rightarrow> bool" where
  "doomed k i S \<longleftrightarrow> gone k (rs_net S) \<and> (\<exists>c. rs_rpcs S i = Some c \<and> (bound_to k c \<or> rc_phase c = Answered failed))"

lemma same_tables_gone: "same_tables rn rn' \<Longrightarrow> gone k rn' = gone k rn"
  by (simp add: same_tables_def gone_def)

lemma moves_gone:
  "moves rn c c' \<Longrightarrow> gone k rn \<Longrightarrow> bound_to k c \<or> rc_phase c = Answered failed \<Longrightarrow> bound_to k c' \<or> rc_phase c' = Answered failed"
  by (induction rule: moves.induct)
    (auto simp: bound_to_def startReq_def tickReq_def finishReq_def Let_def isServerDead_def gone_def)

lemma handled_bound: "bound_to k (c\<lparr>rc_handler := h\<rparr>) = bound_to k c"
  by (simp add: bound_to_def)

lemma effect_doomed:
  assumes "effect ops S S'" and ops: "\<forall>rn rn'. ops rn rn' \<longrightarrow> gone k rn \<longrightarrow> gone k rn'" and d: "doomed k i S"
  shows "doomed k i S'"
  using assms(1) d
proof (induction rule: effect.induct)
  case (called S j S' c)
  then show ?case
    by (cases "i = j") (auto simp: doomed_def same_tables_gone)
next
  case (moved S j c c' S')
  then have "gone k (rs_net S)"
    by (simp add: doomed_def)
  then show ?case
    using moved moves_gone [OF moved(2), of k] by (cases "i = j") (auto simp: doomed_def same_tables_gone)
next
  case (handled S j c h reply S')
  then show ?case
    by (cases "i = j") (auto simp: doomed_def handled_bound)
next
  case (unmoved S' S)
  then show ?case
    using ops by (auto simp: doomed_def)
qed

lemma reach_doomed:
  assumes "rpc_reach G ops S S'" "\<forall>rn rn'. ops rn rn' \<longrightarrow> gone k rn \<longrightarrow> gone k rn'" "doomed k i S"
  shows "doomed k i S'"
  using assms(1,3)
proof (rule reach_induct [where I = "doomed k i"])
  fix S1 S2
  assume "doomed k i S1" "effect ops S1 S2"
  then show "doomed k i S2"
    using effect_doomed [OF _ assms(2)] by blast
qed

section \<open>A reliable network\<close>

definition up :: "netname \<Rightarrow> netname \<Rightarrow> server_id \<Rightarrow> Network \<Rightarrow> bool" where
  "up e n k rn \<longleftrightarrow> readEndnameInfo e rn = (True, Some n, Some k, True, False)"

definition up_info :: "netname \<Rightarrow> server_id \<Rightarrow> req_info" where
  "up_info n k = \<lparr>ri_servername = n, ri_server = k, ri_reliable = True, ri_longreordering = False\<rparr>"

definition served :: "netname \<Rightarrow> netname \<Rightarrow> server_id \<Rightarrow> rpc \<Rightarrow> bool" where
  "served e n k c \<longleftrightarrow> rq_endname (rc_req c) = e \<and>
     (\<forall>h r. rc_handler c = Finished h r \<longrightarrow> rp_ok r) \<and>
     (case rc_phase c of
        Arrived \<Rightarrow> True | Accepted ri \<Rightarrow> ri = up_info n k | Waiting ri \<Rightarrow> ri = up_info n k
      | GotReply ri r \<Rightarrow> ri = up_info n k \<and> rp_ok r | Answered r \<Rightarrow> rp_ok r | _ \<Rightarrow> False)"

lemma up_alive: "up e n k rn \<Longrightarrow> \<not> isServerDead e n k rn"
  by (auto simp: up_def readEndnameInfo_def isServerDead_def Let_def split: option.splits)

lemma up_accept: "up (rq_endname req) n k rn \<Longrightarrow> acceptReq ms rn req = Accepted (up_info n k)"
  by (simp add: up_def acceptReq_def up_info_def)

lemma up_start: "startReq r c (up_info n k) = c\<lparr>rc_phase := Waiting (up_info n k), rc_handler := Running k\<rparr>"
  by (simp add: startReq_def up_info_def)

lemma up_tick: "up (rq_endname (rc_req c)) n k rn \<Longrightarrow> tickReq rn c (up_info n k) = c"
  by (simp add: tickReq_def up_info_def up_alive)

lemma up_finish:
  "up (rq_endname (rc_req c)) n k rn \<Longrightarrow>
   finishReq r1 r2 m1 m2 rn c (up_info n k) (Some reply) = (c\<lparr>rc_phase := Answered reply\<rparr>, addBytes reply rn)"
  by (simp add: finishReq_def up_info_def up_alive)

lemma same_tables_up: "same_tables rn rn' \<Longrightarrow> up e n k rn' = up e n k rn"
  by (simp add: same_tables_def up_def)

lemma moves_served: "moves rn c c' \<Longrightarrow> up e n k rn \<Longrightarrow> served e n k c \<Longrightarrow> served e n k c'"
proof (induction rule: moves.induct)
  case (1 c ms)
  then show ?case
    by (auto simp: served_def up_accept)
next
  case (2 c ri r)
  then show ?case
    by (auto simp: served_def up_start)
next
  case (4 c ri)
  then show ?case
    by (auto simp: served_def up_tick)
next
  case (5 c ri reply r1 r2 m1 m2)
  then show ?case
    by (auto simp: served_def up_finish)
qed (auto simp: served_def)

definition serving :: "netname \<Rightarrow> netname \<Rightarrow> server_id \<Rightarrow> nat \<Rightarrow> 'w rpc_system \<Rightarrow> bool" where
  "serving e n k i S \<longleftrightarrow> up e n k (rs_net S) \<and> (\<exists>c. rs_rpcs S i = Some c \<and> served e n k c)"

lemma effect_serving:
  assumes "effect ops S S'" and ops: "\<forall>rn rn'. ops rn rn' \<longrightarrow> up e n k rn \<longrightarrow> up e n k rn'" and s: "serving e n k i S"
  shows "serving e n k i S'"
  using assms(1) s
proof (induction rule: effect.induct)
  case (called S j S' c)
  then show ?case
    by (cases "i = j") (auto simp: serving_def same_tables_up)
next
  case (moved S j c c' S')
  then show ?case
    using moves_served [OF moved(2), of e n k] by (cases "i = j") (auto simp: serving_def same_tables_up)
next
  case (handled S j c h reply S')
  then show ?case
    by (cases "i = j") (auto simp: serving_def served_def)
next
  case (unmoved S' S)
  then show ?case
    using ops by (auto simp: serving_def)
qed

lemma reach_serving:
  assumes "rpc_reach G ops S S'" "\<forall>rn rn'. ops rn rn' \<longrightarrow> up e n k rn \<longrightarrow> up e n k rn'" "serving e n k i S"
  shows "serving e n k i S'"
  using assms(1,3)
proof (rule reach_induct [where I = "serving e n k i"])
  fix S1 S2
  assume "serving e n k i S1" "effect ops S1 S2"
  then show "serving e n k i S2"
    using effect_serving [OF _ assms(2)] by blast
qed

lemma reach_step1: "rpc_step G ops S S' \<Longrightarrow> rpc_reach G ops S S'"
  by (rule rpc_reach.further [OF rpc_reach.here])

lemma setRpc_more [simp]:
  "rs_world (setRpc i c S) = rs_world S" "rs_gob (setRpc i c S) = rs_gob S" "setRpc i c' (setRpc i c S) = setRpc i c' S"
  by (simp_all add: setRpc_def)

text \<open>The run a request takes when nothing goes wrong.\<close>

lemma run_started:
  assumes "rs_rpcs S i = Some c" "rc_phase c = Arrived" "up (rq_endname (rc_req c)) n k (rs_net S)"
  shows "rpc_reach G ops S (setRpc i (c\<lparr>rc_phase := Waiting (up_info n k), rc_handler := Running k\<rparr>) S)"
proof (rule rpc_reach.further)
  let ?c = "c\<lparr>rc_phase := Accepted (up_info n k)\<rparr>"
  show "rpc_reach G ops S (setRpc i ?c S)"
    using rpc_step.accept [OF assms(1,2), of G ops] by (simp add: up_accept [OF assms(3)] reach_step1)
  show "rpc_step G ops (setRpc i ?c S) (setRpc i (c\<lparr>rc_phase := Waiting (up_info n k), rc_handler := Running k\<rparr>) S)"
    using rpc_step.start [of "setRpc i ?c S" i ?c "up_info n k" G ops 0] by (simp add: up_start)
qed

lemma run_answered:
  assumes "rs_rpcs S i = Some c" "rc_phase c = Waiting (up_info n k)" "rc_handler c = Running k"
    and up: "up (rq_endname (rc_req c)) n k (rs_net S)"
    and d: "Server_dispatch G (rs_heap S k) (rc_req c) (rs_world S) (rs_gob S) = (rs, Inr (reply, w, g))"
  shows "\<exists>S' c'. rpc_reach G ops S S' \<and> rs_rpcs S' i = Some c' \<and> rc_phase c' = Answered reply \<and> rs_world S' = w"
proof -
  let ?S = "S\<lparr>rs_heap := (rs_heap S)(k := rs), rs_world := w, rs_gob := g, rs_executed := rs_executed S @ [i]\<rparr>"
  let ?c1 = "c\<lparr>rc_handler := Finished k reply\<rparr>"
  let ?c2 = "?c1\<lparr>rc_phase := GotReply (up_info n k) reply\<rparr>"
  let ?c3 = "?c2\<lparr>rc_phase := Answered reply\<rparr>"
  have 1: "rpc_step G ops S (setRpc i ?c1 ?S)"
    by (rule rpc_step.handle [OF assms(1,3) d])
  have 2: "rpc_step G ops (setRpc i ?c1 ?S) (setRpc i ?c2 ?S)"
    using rpc_step.receive [of "setRpc i ?c1 ?S" i ?c1 "up_info n k" k reply G ops] assms(2) by simp
  have f: "finishReq 0 0 0 0 (rs_net S) ?c2 (up_info n k) (Some reply) = (?c3, addBytes reply (rs_net S))"
    using up_finish [of ?c2 n k "rs_net S" 0 0 0 0 reply] up by simp
  have 3: "rpc_step G ops (setRpc i ?c2 ?S) (setRpc i ?c3 ((setRpc i ?c2 ?S)\<lparr>rs_net := addBytes reply (rs_net S)\<rparr>))"
    by (rule rpc_step.finish [where i = i and c = ?c2 and ri = "up_info n k" and reply = reply and ?r1.0 = 0 and ?r2.0 = 0 and ?m1.0 = 0 and ?m2.0 = 0]) (simp_all add: f)
  have "rpc_reach G ops S (setRpc i ?c3 ((setRpc i ?c2 ?S)\<lparr>rs_net := addBytes reply (rs_net S)\<rparr>))"
    by (rule rpc_reach.further [OF rpc_reach.further [OF reach_step1 [OF 1] 2] 3])
  then show ?thesis
    by (intro exI [of _ "setRpc i ?c3 ((setRpc i ?c2 ?S)\<lparr>rs_net := addBytes reply (rs_net S)\<rparr>)"] exI [of _ ?c3]) simp
qed

lemma reach_trans: "rpc_reach G ops S' S'' \<Longrightarrow> rpc_reach G ops S S' \<Longrightarrow> rpc_reach G ops S S''"
  by (induction rule: rpc_reach.induct) (auto intro: rpc_reach.further)

lemma run_call:
  assumes "rs_rpcs S i = Some c" "rc_phase c = Arrived" "up (rq_endname (rc_req c)) n k (rs_net S)"
    and d: "Server_dispatch G (rs_heap S k) (rc_req c) (rs_world S) (rs_gob S) = (rs, Inr (reply, w, g))"
  shows "\<exists>S' c'. rpc_reach G ops S S' \<and> rs_rpcs S' i = Some c' \<and> rc_phase c' = Answered reply \<and> rs_world S' = w"
proof -
  let ?c = "c\<lparr>rc_phase := Waiting (up_info n k), rc_handler := Running k\<rparr>"
  have "\<exists>S' c'. rpc_reach G ops (setRpc i ?c S) S' \<and> rs_rpcs S' i = Some c' \<and> rc_phase c' = Answered reply \<and> rs_world S' = w"
    by (rule run_answered [where c = ?c and n = n and k = k and rs = rs and g = g]) (simp_all add: assms)
  then show ?thesis
    using reach_trans [OF _ run_started [OF assms(1-3)]] by blast
qed

section \<open>Properties\<close>

text \<open>C8: the network executes a call at most once, and a call that returns true was executed exactly once and got
  the reply its handler produced, whatever requests, replies and servers the network drops, delays or cuts off.\<close>

theorem rpc_at_most_once:
  assumes "rpc_reach G ops (rpc_init rn heap w) S" "rs_rpcs S i = Some c" "rc_phase c = Answered r"
  shows "count_list (rs_executed S) i \<le> 1 \<and>
    (rp_ok r \<longrightarrow> count_list (rs_executed S) i = 1 \<and> (\<exists>k. rc_handler c = Finished k r))"
proof -
  have "phase_ok c \<and> count_list (rs_executed S) i = (if handler_ran c then 1 else 0)"
    using rpcs_okD [OF reach_ok [OF assms(1)], of i] assms(2) by simp
  then show ?thesis
    using assms(3) by (auto simp: phase_ok_def handler_ran_def)
qed

text \<open>C10: once \<^verbatim>\<open>DeleteServer\<close> has removed a server, and as long as it is not added again, every request that was on
  its way to it and not yet past the final check fails, even one whose handler runs to its end.\<close>

theorem deleted_server_never_answers:
  assumes "S = T\<lparr>rs_net := DeleteServer n (rs_net T)\<rparr>" "\<forall>m. m \<noteq> n \<longrightarrow> nt_servers (rs_net T) m \<noteq> Some k"
    and "rs_rpcs T i = Some c" "bound_to k c"
    and "\<forall>rn rn'. ops rn rn' \<longrightarrow> gone k rn \<longrightarrow> gone k rn'"
    and "rpc_reach G ops S S'" "rs_rpcs S' i = Some c'" "rc_phase c' = Answered r"
  shows "r = failed"
proof -
  have "doomed k i S"
    using assms(1-4) by (auto simp: doomed_def gone_def DeleteServer_def)
  from reach_doomed [OF assms(6,5) this] show ?thesis
    using assms(7,8) by (auto simp: doomed_def bound_to_def)
qed

text \<open>C37: on a reliable network without reordering, a call through an enabled end connected to a server gets its
  handler's reply: there is a run that delivers it, and no run on which the tester leaves that connection alone
  ends in a failure.\<close>

theorem reliable_call_answered:
  assumes "rs_rpcs S i = Some c" "rc_phase c = Arrived" "rc_handler c = NotStarted"
    and "up (rq_endname (rc_req c)) n k (rs_net S)"
    and "\<forall>rn rn'. ops rn rn' \<longrightarrow> up (rq_endname (rc_req c)) n k rn \<longrightarrow> up (rq_endname (rc_req c)) n k rn'"
    and "Server_dispatch G (rs_heap S k) (rc_req c) (rs_world S) (rs_gob S) = (rs, Inr (reply, w, g))"
  shows "(\<exists>S' c'. rpc_reach G ops S S' \<and> rs_rpcs S' i = Some c' \<and> rc_phase c' = Answered reply \<and> rs_world S' = w) \<and>
    (\<forall>S' c' r. rpc_reach G ops S S' \<longrightarrow> rs_rpcs S' i = Some c' \<longrightarrow> rc_phase c' = Answered r \<longrightarrow> rp_ok r)"
proof (intro conjI allI impI)
  show "\<exists>S' c'. rpc_reach G ops S S' \<and> rs_rpcs S' i = Some c' \<and> rc_phase c' = Answered reply \<and> rs_world S' = w"
    by (rule run_call [OF assms(1,2,4,6)])
next
  fix S' c' r
  assume "rpc_reach G ops S S'" and c': "rs_rpcs S' i = Some c'" "rc_phase c' = Answered r"
  moreover have "serving (rq_endname (rc_req c)) n k i S"
    using assms(1-4) by (simp add: serving_def served_def)
  ultimately have "serving (rq_endname (rc_req c)) n k i S'"
    using reach_serving [OF _ assms(5)] by blast
  then show "rp_ok r"
    using c' by (simp add: serving_def served_def)
qed

section \<open>An example\<close>

text \<open>A server with one method that counts its calls, a network with one end connected to it, and one call.\<close>

definition ex_gob :: gob_lib where
  "ex_gob = \<lparr>gl_types = ex_types, gl_upper = ex_upper,
     gl_enc = (\<lambda>v. case go_Elem v of VBasic t (BInt i) \<Rightarrow> (replicate (nat i) CHR ''1'', True) | _ \<Rightarrow> ([], False)),
     gl_dec = (\<lambda>s v. (VPtr 3 (Some (VBasic 1 (BInt (int (length s))))), True)), gl_zero = (\<lambda>t. VBasic 1 (BInt 0)), gl_ptr = (\<lambda>t. 3)\<rparr>"

definition ex_Ping :: "nat reflect_method" where
  "ex_Ping = \<lparr>rm_Name = ''Ping'', rm_PkgPath = [], rm_In = [KPtr 0, KBasic, KPtr 1], rm_NumOut = 0, rm_replyType = 1,
     rm_Func = (\<lambda>args reply w. (VBasic 1 (BInt (int w + 1)), w + 1))\<rparr>"

definition ex_server :: "nat Server" where
  "ex_server = AddService (MakeService ''Echo'' [ex_Ping]) MakeServer"

definition ex_network :: Network where
  "ex_network = Enable (NInt 1) True (Connect (NInt 1) (NStr ''s'') (AddServer (NStr ''s'') 0 MakeNetwork))"

definition ex_system :: "nat rpc_system" where
  "ex_system = rpc_init ex_network (\<lambda>_. ex_server) 0"

definition ex_req :: reqMsg where
  "ex_req = \<lparr>rq_endname = NInt 1, rq_svcMeth = ''Echo.Ping'', rq_argsType = 1, rq_args = ''11''\<rparr>"

definition ex_called :: "nat rpc_system" where
  "ex_called = projr (Call_send ex_gob \<lparr>ce_endname = NInt 1\<rparr> ''Echo.Ping'' (VBasic 1 (BInt 2)) False 7 ex_system)"

abbreviation no_ops :: "Network \<Rightarrow> Network \<Rightarrow> bool" where
  "no_ops \<equiv> \<lambda>_ _. False"

lemma ex_send: "Call_send ex_gob \<lparr>ce_endname = NInt 1\<rparr> ''Echo.Ping'' (VBasic 1 (BInt 2)) False 7 ex_system = Inr ex_called"
  by (simp add: ex_called_def Call_send_def gob_Encode_def Let_def ex_gob_def)

lemma ex_called_rpc: "rs_rpcs ex_called 7 = Some \<lparr>rc_req = ex_req, rc_phase = Arrived, rc_handler = NotStarted\<rparr>"
  by (simp add: ex_called_def Call_send_def gob_Encode_def Let_def ex_gob_def ex_req_def numeral_2_eq_2)

lemma ex_called_net: "rs_net ex_called = ex_network\<lparr>nt_count := 1, nt_bytes := 2\<rparr>"
  by (simp add: ex_called_def Call_send_def gob_Encode_def Let_def ex_gob_def ex_system_def rpc_init_def ex_network_def
      Enable_def Connect_def AddServer_def MakeNetwork_def)

lemma ex_called_world: "rs_world ex_called = 0" "rs_heap ex_called k = ex_server"
  by (simp_all add: ex_called_def Call_send_def gob_Encode_def Let_def ex_gob_def ex_system_def rpc_init_def)

lemma ex_up: "up (rq_endname ex_req) (NStr ''s'') 0 (rs_net ex_called)"
  by (simp add: ex_called_net up_def readEndnameInfo_def is_enabled_def ex_req_def ex_network_def
      Enable_def Connect_def AddServer_def MakeNetwork_def)

lemma ex_dispatch:
  "\<exists>rs g. Server_dispatch ex_gob (rs_heap ex_called 0) ex_req (rs_world ex_called) (rs_gob ex_called) =
     (rs, Inr (\<lparr>rp_ok = True, rp_reply = ''1''\<rparr>, 1, g))"
  by (simp add: ex_called_world Server_dispatch_def Service_dispatch_def LastIndexByte_def ex_req_def ex_server_def AddService_def
      MakeService_def MakeServer_def suitable_def ex_Ping_def ex_gob_def gob_Decode_def gob_EncodeValue_def Let_def)

lemma ex_reach: "rpc_reach ex_gob no_ops ex_system ex_called"
  by (rule reach_step1, rule rpc_step.send [OF _ ex_send]) (simp add: ex_system_def rpc_init_def)

theorem reliable_call_answered_witness:
  "\<exists>S' c'. rpc_reach ex_gob no_ops ex_called S' \<and> rs_rpcs S' 7 = Some c' \<and>
      rc_phase c' = Answered \<lparr>rp_ok = True, rp_reply = ''1''\<rparr> \<and> rs_world S' = 1"
proof -
  obtain rs g where d: "Server_dispatch ex_gob (rs_heap ex_called 0) ex_req (rs_world ex_called) (rs_gob ex_called) =
     (rs, Inr (\<lparr>rp_ok = True, rp_reply = ''1''\<rparr>, 1, g))"
    using ex_dispatch by blast
  show ?thesis
    by (rule conjunct1, rule reliable_call_answered [OF ex_called_rpc, where n = "NStr ''s''" and k = 0 and rs = rs and g = g])
      (simp_all add: ex_up d)
qed

theorem rpc_at_most_once_witness:
  "\<exists>S. rpc_reach ex_gob no_ops (rpc_init ex_network (\<lambda>_. ex_server) 0) S \<and> count_list (rs_executed S) 7 = 1"
proof -
  obtain rs g where d: "Server_dispatch ex_gob (rs_heap ex_called 0) ex_req (rs_world ex_called) (rs_gob ex_called) =
     (rs, Inr (\<lparr>rp_ok = True, rp_reply = ''1''\<rparr>, 1, g))"
    using ex_dispatch by blast
  have "\<exists>S c. rpc_reach ex_gob no_ops ex_called S \<and> rs_rpcs S 7 = Some c \<and>
      rc_phase c = Answered \<lparr>rp_ok = True, rp_reply = ''1''\<rparr> \<and> rs_world S = 1"
    by (rule run_call [OF ex_called_rpc, where n = "NStr ''s''" and k = 0 and rs = rs and g = g]) (simp_all add: ex_up d)
  then obtain S c where S: "rpc_reach ex_gob no_ops ex_called S" "rs_rpcs S 7 = Some c"
      "rc_phase c = Answered \<lparr>rp_ok = True, rp_reply = ''1''\<rparr>"
    by blast
  have r: "rpc_reach ex_gob no_ops (rpc_init ex_network (\<lambda>_. ex_server) 0) S"
    using reach_trans [OF S(1) ex_reach] by (simp add: ex_system_def)
  from rpc_at_most_once [OF r S(2,3)] show ?thesis
    using r by auto
qed

text \<open>The server is deleted while the handler runs.\<close>

definition ex_running :: "nat rpc_system" where
  "ex_running = setRpc 7 \<lparr>rc_req = ex_req, rc_phase = Waiting (up_info (NStr ''s'') 0), rc_handler = Running 0\<rparr> ex_called"

theorem deleted_server_never_answers_witness:
  "\<exists>S' c' r. rpc_reach ex_gob no_ops (ex_running\<lparr>rs_net := DeleteServer (NStr ''s'') (rs_net ex_running)\<rparr>) S' \<and>
     rs_rpcs S' 7 = Some c' \<and> rc_phase c' = Answered r \<and> r = failed"
proof -
  let ?ri = "up_info (NStr ''s'') 0" and ?S = "ex_running\<lparr>rs_net := DeleteServer (NStr ''s'') (rs_net ex_running)\<rparr>"
  let ?c = "\<lparr>rc_req = ex_req, rc_phase = Waiting ?ri, rc_handler = Running 0\<rparr>"
  let ?c1 = "?c\<lparr>rc_phase := ServerDied ?ri\<rparr>" and ?c2 = "?c\<lparr>rc_phase := Answered failed\<rparr>"
  have 1: "\<forall>m. m \<noteq> NStr ''s'' \<longrightarrow> nt_servers (rs_net ex_running) m \<noteq> Some 0"
    by (simp add: ex_running_def ex_called_net ex_network_def Enable_def Connect_def AddServer_def MakeNetwork_def)
  have 2: "rs_rpcs ex_running 7 = Some ?c" "bound_to 0 ?c"
    by (simp_all add: ex_running_def bound_to_def up_info_def)
  have t: "tickReq (rs_net ?S) ?c ?ri = ?c1"
    by (simp add: tickReq_def isServerDead_def up_info_def DeleteServer_def)
  have s1: "rpc_step ex_gob no_ops ?S (setRpc 7 ?c1 ?S)"
    using rpc_step.tick [of ?S 7 ?c ?ri ex_gob no_ops] 2(1) t by simp
  have s2: "rpc_step ex_gob no_ops (setRpc 7 ?c1 ?S) (setRpc 7 ?c2 ((setRpc 7 ?c1 ?S)\<lparr>rs_net := rs_net ?S\<rparr>))"
    by (rule rpc_step.finish_dead [where c = ?c1 and ri = ?ri]) (simp_all add: finishReq_def)
  have r: "rpc_reach ex_gob no_ops ?S (setRpc 7 ?c2 ((setRpc 7 ?c1 ?S)\<lparr>rs_net := rs_net ?S\<rparr>))"
    by (rule rpc_reach.further [OF reach_step1 [OF s1] s2])
  have "failed = failed"
    by (rule deleted_server_never_answers [OF refl 1 2 _ r, where c' = ?c2]) simp_all
  then show ?thesis
    using r by (intro exI [of _ "setRpc 7 ?c2 ((setRpc 7 ?c1 ?S)\<lparr>rs_net := rs_net ?S\<rparr>)"] exI [of _ ?c2] exI [of _ failed]) simp
qed

end
