(* ===== verification/RF_Raft.thy ===== *)
theory RF_Raft
  imports LR_Rpc
begin

text \<open>
  \<^verbatim>\<open>raft/persister.go\<close>, \<^verbatim>\<open>raft/raft.go\<close> and \<^verbatim>\<open>raft/config.go\<close>: the storage of a Raft peer, the peer as the
  repository has it (a skeleton whose methods do nothing yet), and the tester that starts, crashes, connects and
  disconnects peers and checks what they commit.  Persisters and peers are objects with an identity: the tester
  gives each new instance of a peer a new persister, since the old instance cannot really be killed.
\<close>

section \<open>Persister\<close>

text \<open>Bytes; \<^verbatim>\<open>clone\<close> makes nil and empty the same.\<close>

record Persister =
  ps_raftstate :: string
  ps_snapshot :: string

definition MakePersister :: Persister where
  "MakePersister = \<lparr>ps_raftstate = [], ps_snapshot = []\<rparr>"

definition Persister_Copy :: "Persister \<Rightarrow> Persister" where
  "Persister_Copy ps = MakePersister\<lparr>ps_raftstate := ps_raftstate ps, ps_snapshot := ps_snapshot ps\<rparr>"

definition ReadRaftState :: "Persister \<Rightarrow> string" where
  "ReadRaftState ps = ps_raftstate ps"

definition RaftStateSize :: "Persister \<Rightarrow> nat" where
  "RaftStateSize ps = length (ps_raftstate ps)"

definition Persister_Save :: "string \<Rightarrow> string \<Rightarrow> Persister \<Rightarrow> Persister" where
  "Persister_Save raftstate snapshot ps = ps\<lparr>ps_raftstate := raftstate, ps_snapshot := snapshot\<rparr>"

definition ReadSnapshot :: "Persister \<Rightarrow> string" where
  "ReadSnapshot ps = ps_snapshot ps"

definition SnapshotSize :: "Persister \<Rightarrow> nat" where
  "SnapshotSize ps = length (ps_snapshot ps)"

section \<open>Raft\<close>

type_synonym persister_id = nat
type_synonym raft_id = nat

record 'c ApplyMsg =
  CommandValid :: bool
  Command :: "'c option"
  CommandIndex :: int
  SnapshotValid :: bool
  Snapshot :: "string option"
  SnapshotTerm :: int
  SnapshotIndex :: int

record Raft =
  rf_peers :: "ClientEnd list"
  rf_persister :: persister_id
  rf_me :: int
  rf_dead :: "32 word"

definition Raft_GetState :: "Raft \<Rightarrow> int \<times> bool" where
  "Raft_GetState rf = (0, False)"

definition readPersist :: "string \<Rightarrow> Raft \<Rightarrow> Raft" where
  "readPersist data rf = rf"

definition Raft_Start :: "'c option \<Rightarrow> Raft \<Rightarrow> int \<times> int \<times> bool" where
  "Raft_Start command rf = (- 1, - 1, True)"

definition Raft_Kill :: "Raft \<Rightarrow> Raft" where
  "Raft_Kill rf = rf\<lparr>rf_dead := 1\<rparr>"

definition Raft_killed :: "Raft \<Rightarrow> bool" where
  "Raft_killed rf \<longleftrightarrow> rf_dead rf = 1"

definition Raft_Make :: "ClientEnd list \<Rightarrow> int \<Rightarrow> persister_id \<Rightarrow> Persister \<Rightarrow> Raft" where
  "Raft_Make peers me persister content =
     readPersist (ReadRaftState content) \<lparr>rf_peers = peers, rf_persister = persister, rf_me = me, rf_dead = 0\<rparr>"

section \<open>The tester\<close>

text \<open>\<open>cf_heap\<close> and \<open>cf_objects\<close> are all persisters and all instances ever made, of which \<^verbatim>\<open>saved\<close> and \<^verbatim>\<open>rafts\<close> point
  to the current ones; \<open>cf_made\<close> counts the servers added to the network.\<close>

record 'c config =
  cf_finished :: "32 word"
  cf_net :: Network
  cf_n :: nat
  cf_rafts :: "raft_id option list"
  cf_applyErr :: "string list"
  cf_connected :: "bool list"
  cf_saved :: "persister_id option list"
  cf_endnames :: "string list option list"
  cf_logs :: "(int \<rightharpoonup> 'c option) list"
  cf_lastApplied :: "int list"
  cf_maxIndex :: int
  cf_heap :: "Persister list"
  cf_objects :: "Raft list"
  cf_made :: nat

definition at_index :: "'a list \<Rightarrow> nat \<Rightarrow> go_panic + 'a" where
  "at_index xs i = (if i < length xs then Inr (xs ! i) else Inl IndexOutOfRange)"

definition set_index :: "'a list \<Rightarrow> nat \<Rightarrow> 'a \<Rightarrow> go_panic + 'a list" where
  "set_index xs i x = (if i < length xs then Inr (xs[i := x]) else Inl IndexOutOfRange)"

lemma index_simps [simp]:
  "i < length xs \<Longrightarrow> at_index xs i = Inr (xs ! i)" "i < length xs \<Longrightarrow> set_index xs i x = Inr (xs[i := x])"
  by (simp_all add: at_index_def set_index_def)

text \<open>A row of \<^verbatim>\<open>endnames\<close>; indexing a nil slice panics.\<close>

definition endname_at :: "string list option list \<Rightarrow> nat \<Rightarrow> nat \<Rightarrow> go_panic + string" where
  "endname_at rows i j =
     andThen (at_index rows i) (\<lambda>r. case r of None \<Rightarrow> Inl IndexOutOfRange | Some names \<Rightarrow> at_index names j)"

subsection \<open>Connecting\<close>

text \<open>The loops over the peers have one shape: for each peer, where a condition holds, an end is enabled or disabled.
  \<open>end_of j\<close> is the name of the end, if the condition holds for \<open>j\<close>.\<close>

fun setLinks :: "bool \<Rightarrow> (nat \<Rightarrow> go_panic + string option) \<Rightarrow> nat list \<Rightarrow> Network \<Rightarrow> go_panic + Network" where
  "setLinks yes end_of [] rn = Inr rn"
| "setLinks yes end_of (j # js) rn =
     andThen (end_of j) (\<lambda>e. setLinks yes end_of js (case e of None \<Rightarrow> rn | Some endname \<Rightarrow> Enable (NStr endname) yes rn))"

definition whenTrue :: "bool \<Rightarrow> go_panic + string \<Rightarrow> go_panic + string option" where
  "whenTrue c endname = (if c then andThen endname (\<lambda>e. Inr (Some e)) else Inr None)"

definition connect :: "nat \<Rightarrow> 'c config \<Rightarrow> go_panic + 'c config" where
  "connect i cfg =
     andThen (set_index (cf_connected cfg) i True) (\<lambda>connected.
     andThen (setLinks True (\<lambda>j. andThen (at_index connected j) (\<lambda>c. whenTrue c (endname_at (cf_endnames cfg) i j)))
       [0..<cf_n cfg] (cf_net cfg)) (\<lambda>rn.
     andThen (setLinks True (\<lambda>j. andThen (at_index connected j) (\<lambda>c. whenTrue c (endname_at (cf_endnames cfg) j i)))
       [0..<cf_n cfg] rn) (\<lambda>rn.
     Inr (cfg\<lparr>cf_connected := connected, cf_net := rn\<rparr>))))"

definition disconnect :: "nat \<Rightarrow> 'c config \<Rightarrow> go_panic + 'c config" where
  "disconnect i cfg =
     andThen (set_index (cf_connected cfg) i False) (\<lambda>connected.
     andThen (setLinks False (\<lambda>j. andThen (at_index (cf_endnames cfg) i) (\<lambda>r. whenTrue (r \<noteq> None) (endname_at (cf_endnames cfg) i j)))
       [0..<cf_n cfg] (cf_net cfg)) (\<lambda>rn.
     andThen (setLinks False (\<lambda>j. andThen (at_index (cf_endnames cfg) j) (\<lambda>r. whenTrue (r \<noteq> None) (endname_at (cf_endnames cfg) j i)))
       [0..<cf_n cfg] rn) (\<lambda>rn.
     Inr (cfg\<lparr>cf_connected := connected, cf_net := rn\<rparr>))))"

subsection \<open>Crashing and starting\<close>

text \<open>A new persister with a given content becomes the saved one of peer \<open>i\<close>.\<close>

definition freshSaved :: "nat \<Rightarrow> Persister \<Rightarrow> 'c config \<Rightarrow> 'c config" where
  "freshSaved i ps cfg = cfg\<lparr>cf_heap := cf_heap cfg @ [ps], cf_saved := (cf_saved cfg)[i := Some (length (cf_heap cfg))]\<rparr>"

definition copySaved :: "nat \<Rightarrow> 'c config \<Rightarrow> 'c config" where
  "copySaved i cfg =
     (case cf_saved cfg ! i of None \<Rightarrow> cfg | Some p \<Rightarrow> freshSaved i (Persister_Copy (cf_heap cfg ! p)) cfg)"

definition killRaft :: "nat \<Rightarrow> 'c config \<Rightarrow> 'c config" where
  "killRaft i cfg =
     (case cf_rafts cfg ! i of
        None \<Rightarrow> cfg
      | Some r \<Rightarrow> cfg\<lparr>cf_objects := (cf_objects cfg)[r := Raft_Kill (cf_objects cfg ! r)], cf_rafts := (cf_rafts cfg)[i := None]\<rparr>)"

definition resaveSaved :: "nat \<Rightarrow> 'c config \<Rightarrow> 'c config" where
  "resaveSaved i cfg =
     (case cf_saved cfg ! i of
        None \<Rightarrow> cfg
      | Some p \<Rightarrow>
          (let raftlog = ReadRaftState (cf_heap cfg ! p); snapshot = ReadSnapshot (cf_heap cfg ! p)
           in freshSaved i (Persister_Save raftlog snapshot MakePersister) cfg))"

text \<open>\<^verbatim>\<open>disconnect\<close> has checked the index.\<close>

definition crash1 :: "nat \<Rightarrow> 'c config \<Rightarrow> go_panic + 'c config" where
  "crash1 i cfg =
     andThen (disconnect i cfg) (\<lambda>cfg.
       let cfg = cfg\<lparr>cf_net := DeleteServer (NInt (int i)) (cf_net cfg)\<rparr>;
           cfg = copySaved i cfg;
           cfg = killRaft i cfg
       in Inr (resaveSaved i cfg))"

fun makeEnds :: "(nat \<times> string) list \<Rightarrow> Network \<Rightarrow> go_panic + (ClientEnd list \<times> Network)" where
  "makeEnds [] rn = Inr ([], rn)"
| "makeEnds ((j, name) # rest) rn =
     andThen (MakeEnd (NStr name) rn) (\<lambda>(e, rn).
     andThen (makeEnds rest (Connect (NStr name) (NInt (int j)) rn)) (\<lambda>(es, rn). Inr (e # es, rn)))"

fun xlogMap :: "int \<Rightarrow> 'c option list \<Rightarrow> (int \<rightharpoonup> 'c option) \<Rightarrow> int \<rightharpoonup> 'c option" where
  "xlogMap j [] m = m"
| "xlogMap j (c # xlog) m = xlogMap (j + 1) xlog (m(j \<mapsto> c))"

text \<open>\<open>dec\<close> decodes the two values of a snapshot, the index and the log.\<close>

definition ingestSnap ::
  "(string \<Rightarrow> (int \<times> 'c option list) option) \<Rightarrow> nat \<Rightarrow> string option \<Rightarrow> int \<Rightarrow> 'c config \<Rightarrow> go_panic + (string \<times> 'c config)" where
  "ingestSnap dec i snapshot index cfg =
     (case snapshot of
        None \<Rightarrow> Inl (Fatal ''nil snapshot'')
      | Some bytes \<Rightarrow>
          (case dec bytes of
             None \<Rightarrow> Inl (Fatal ''snapshot decode error'')
           | Some (lastIncludedIndex, xlog) \<Rightarrow>
               if index \<noteq> - 1 \<and> index \<noteq> lastIncludedIndex
               then Inr (''server '' @ itoa (int i) @ '' snapshot doesn't match m.SnapshotIndex'', cfg)
               else andThen (set_index (cf_logs cfg) i (xlogMap 0 xlog Map.empty)) (\<lambda>logs.
                    andThen (set_index (cf_lastApplied cfg) i lastIncludedIndex) (\<lambda>lastApplied.
                    Inr ([], cfg\<lparr>cf_logs := logs, cf_lastApplied := lastApplied\<rparr>)))))"

definition restoreSaved ::
  "(string \<Rightarrow> (int \<times> 'c option list) option) \<Rightarrow> nat \<Rightarrow> 'c config \<Rightarrow> go_panic + 'c config" where
  "restoreSaved dec i cfg =
     (case cf_saved cfg ! i of
        None \<Rightarrow> Inr (freshSaved i MakePersister cfg)
      | Some p \<Rightarrow>
          (let cfg = freshSaved i (Persister_Copy (cf_heap cfg ! p)) cfg;
               snapshot = ReadSnapshot (last (cf_heap cfg))
           in if snapshot \<noteq> [] then
                andThen (ingestSnap dec i (Some snapshot) (- 1) cfg) (\<lambda>(err, cfg).
                if err \<noteq> [] then Inl (Fatal err) else Inr cfg)
              else Inr cfg))"

text \<open>\<open>draw j\<close> is the string \<^verbatim>\<open>randstring\<close> draws for peer \<open>j\<close>.  \<open>makeEnds\<close> does the work of one turn of the loop for each name.\<close>

definition start1 ::
  "(string \<Rightarrow> (int \<times> 'c option list) option) \<Rightarrow> (nat \<Rightarrow> string) \<Rightarrow> nat \<Rightarrow> 'c config \<Rightarrow> go_panic + 'c config" where
  "start1 dec draw i cfg =
     andThen (crash1 i cfg) (\<lambda>cfg.
     let names = map draw [0..<cf_n cfg];
         cfg = cfg\<lparr>cf_endnames := (cf_endnames cfg)[i := Some names]\<rparr>
     in andThen (makeEnds (enumerate 0 names) (cf_net cfg)) (\<lambda>(ends, rn).
        let cfg = cfg\<lparr>cf_net := rn, cf_lastApplied := (cf_lastApplied cfg)[i := 0]\<rparr>
        in andThen (restoreSaved dec i cfg) (\<lambda>cfg.
           let p = the (cf_saved cfg ! i);
               rf = Raft_Make ends (int i) p (cf_heap cfg ! p)
           in Inr (cfg\<lparr>cf_objects := cf_objects cfg @ [rf], cf_rafts := (cf_rafts cfg)[i := Some (length (cf_objects cfg))],
                cf_net := AddServer (NInt (int i)) (cf_made cfg) (cf_net cfg), cf_made := cf_made cfg + 1\<rparr>))))"

fun startAll ::
  "(string \<Rightarrow> (int \<times> 'c option list) option) \<Rightarrow> (nat \<Rightarrow> nat \<Rightarrow> string) \<Rightarrow> nat list \<Rightarrow> 'c config \<Rightarrow> go_panic + 'c config" where
  "startAll dec draws [] cfg = Inr cfg"
| "startAll dec draws (i # is) cfg =
     andThen (start1 dec (draws i) i (cfg\<lparr>cf_logs := (cf_logs cfg)[i := Map.empty]\<rparr>)) (startAll dec draws is)"

fun connectAll :: "nat list \<Rightarrow> 'c config \<Rightarrow> go_panic + 'c config" where
  "connectAll [] cfg = Inr cfg"
| "connectAll (i # is) cfg = andThen (connect i cfg) (connectAll is)"

definition empty_config :: "nat \<Rightarrow> bool \<Rightarrow> 'c config" where
  "empty_config n unreliable =
     \<lparr>cf_finished = 0, cf_net = LongDelays True (Reliable (\<not> unreliable) MakeNetwork), cf_n = n, cf_rafts = replicate n None,
      cf_applyErr = replicate n [], cf_connected = replicate n False, cf_saved = replicate n None,
      cf_endnames = replicate n None, cf_logs = replicate n Map.empty, cf_lastApplied = replicate n 0, cf_maxIndex = 0,
      cf_heap = [], cf_objects = [], cf_made = 0\<rparr>"

definition make_config ::
  "(string \<Rightarrow> (int \<times> 'c option list) option) \<Rightarrow> (nat \<Rightarrow> nat \<Rightarrow> string) \<Rightarrow> nat \<Rightarrow> bool \<Rightarrow> go_panic + 'c config" where
  "make_config dec draws n unreliable =
     andThen (startAll dec draws [0..<n] (empty_config n unreliable)) (connectAll [0..<n])"

definition cleanup_config :: "'c config \<Rightarrow> go_panic + 'c config" where
  "cleanup_config cfg =
     (let objects = foldl (\<lambda>os r. case r of None \<Rightarrow> os | Some k \<Rightarrow> os[k := Raft_Kill (os ! k)]) (cf_objects cfg) (cf_rafts cfg)
      in andThen (Cleanup (cf_net cfg)) (\<lambda>rn. Inr (cfg\<lparr>cf_finished := 1, cf_objects := objects, cf_net := rn\<rparr>)))"

subsection \<open>Checking what is applied\<close>

text \<open>The errors name the place; the values they print are left out.  Commands are of a comparable type, so that \<^verbatim>\<open>!=\<close> on
  them does not panic; \<open>None\<close> is the nil command.\<close>

fun conflictScan :: "'c option \<Rightarrow> int \<Rightarrow> (int \<rightharpoonup> 'c option) list \<Rightarrow> string \<Rightarrow> string" where
  "conflictScan v idx [] err_msg = err_msg"
| "conflictScan v idx (l # logs) err_msg =
     conflictScan v idx logs
       (case l idx of Some old \<Rightarrow> if old \<noteq> v then ''commit index='' @ itoa idx else err_msg | None \<Rightarrow> err_msg)"

definition checkLogs :: "nat \<Rightarrow> 'c ApplyMsg \<Rightarrow> 'c config \<Rightarrow> go_panic + ((string \<times> bool) \<times> 'c config)" where
  "checkLogs i m cfg =
     (let v = Command m; idx = CommandIndex m;
          err_msg = conflictScan v idx (cf_logs cfg) []
      in andThen (at_index (cf_logs cfg) i) (\<lambda>l.
         let prevok = (l (idx - 1) \<noteq> None)
         in Inr ((err_msg, prevok),
              cfg\<lparr>cf_logs := (cf_logs cfg)[i := l(idx \<mapsto> v)], cf_maxIndex := (if idx > cf_maxIndex cfg then idx else cf_maxIndex cfg)\<rparr>)))"

text \<open>One turn of the loop of \<^verbatim>\<open>applier\<close> and of \<^verbatim>\<open>applierSnap\<close>, for one message from the channel.  What follows
  \<^verbatim>\<open>log.Fatalf\<close> is never reached.\<close>

definition applierMsg :: "nat \<Rightarrow> 'c ApplyMsg \<Rightarrow> 'c config \<Rightarrow> go_panic + 'c config" where
  "applierMsg i m cfg =
     (if CommandValid m = False then Inr cfg
      else andThen (checkLogs i m cfg) (\<lambda>((err_msg, prevok), cfg).
        let err_msg = (if CommandIndex m > 1 \<and> prevok = False then ''server apply out of order'' else err_msg)
        in if err_msg \<noteq> [] then Inl (Fatal (''apply error: '' @ err_msg)) else Inr cfg))"

definition xlogOf :: "(int \<rightharpoonup> 'c option) \<Rightarrow> int \<Rightarrow> 'c option list" where
  "xlogOf l idx = map (\<lambda>j. case l j of None \<Rightarrow> None | Some c \<Rightarrow> c) [0..idx]"

text \<open>The second result is the call of \<^verbatim>\<open>rf.Snapshot\<close>, if there is one.\<close>

definition applierSnapMsg ::
  "(int \<times> 'c option list \<Rightarrow> string) \<Rightarrow> (string \<Rightarrow> (int \<times> 'c option list) option) \<Rightarrow> nat \<Rightarrow> 'c ApplyMsg \<Rightarrow> 'c config \<Rightarrow>
   go_panic + ('c config \<times> (int \<times> string) option)" where
  "applierSnapMsg enc dec i m cfg =
     andThen
       (if SnapshotValid m then
          andThen (ingestSnap dec i (Snapshot m) (SnapshotIndex m) cfg) (\<lambda>(err_msg, cfg). Inr (err_msg, cfg, None))
        else if CommandValid m then
          andThen (at_index (cf_lastApplied cfg) i) (\<lambda>last.
          andThen (if CommandIndex m \<noteq> last + 1 then Inr (''server apply out of order, expected index'', cfg)
                   else andThen (checkLogs i m cfg) (\<lambda>((err_msg, prevok), cfg).
                     Inr (if CommandIndex m > 1 \<and> prevok = False then ''server apply out of order'' else err_msg, cfg)))
            (\<lambda>(err_msg, cfg).
              let cfg = cfg\<lparr>cf_lastApplied := (cf_lastApplied cfg)[i := CommandIndex m]\<rparr>
              in if (CommandIndex m + 1) mod 10 = 0 then
                   andThen (at_index (cf_logs cfg) i) (\<lambda>l.
                   Inr (err_msg, cfg, Some (CommandIndex m, enc (CommandIndex m, xlogOf l (CommandIndex m)))))
                 else Inr (err_msg, cfg, None)))
        else Inr ([], cfg, None))
       (\<lambda>(err_msg, cfg, snap). if err_msg \<noteq> [] then Inl (Fatal (''apply error: '' @ err_msg)) else Inr (cfg, snap))"

subsection \<open>Checks of the tester\<close>

text \<open>What the tester asks a peer is an argument, since it changes from call to call: the \<open>k\<close>-th look at \<^verbatim>\<open>GetState\<close>
  of a possibly nil instance.  \<open>shipped_GetState\<close> is what \<^verbatim>\<open>raft.go\<close> has now.\<close>

type_synonym get_state = "nat \<Rightarrow> Raft option \<Rightarrow> go_panic + int \<times> bool"

definition shipped_GetState :: get_state where
  "shipped_GetState k r = Inr (0, False)"

definition raft_at :: "'c config \<Rightarrow> nat \<Rightarrow> go_panic + Raft option" where
  "raft_at cfg i = andThen (at_index (cf_rafts cfg) i) (\<lambda>r. Inr (map_option (\<lambda>k. cf_objects cfg ! k) r))"

fun collectLeaders ::
  "(Raft option \<Rightarrow> go_panic + int \<times> bool) \<Rightarrow> 'c config \<Rightarrow> nat list \<Rightarrow> (int \<rightharpoonup> nat list) \<Rightarrow> go_panic + (int \<rightharpoonup> nat list)" where
  "collectLeaders gs cfg [] leaders = Inr leaders"
| "collectLeaders gs cfg (i # is) leaders =
     andThen (at_index (cf_connected cfg) i) (\<lambda>c.
       if c then andThen (raft_at cfg i) (\<lambda>r. andThen (gs r) (\<lambda>(term, leader).
              collectLeaders gs cfg is
                (if leader then leaders(term \<mapsto> (case leaders term of None \<Rightarrow> [] | Some l \<Rightarrow> l) @ [i]) else leaders)))
       else collectLeaders gs cfg is leaders)"

fun lastTerm :: "(int \<rightharpoonup> nat list) \<Rightarrow> int list \<Rightarrow> int \<Rightarrow> go_panic + int" where
  "lastTerm leaders [] lt = Inr lt"
| "lastTerm leaders (t # ts) lt =
     (if length (case leaders t of None \<Rightarrow> [] | Some l \<Rightarrow> l) > 1 then Inl (Fatal ''term has more than one leader'')
      else lastTerm leaders ts (if t > lt then t else lt))"

fun leaderLoop ::
  "get_state \<Rightarrow> ((int \<rightharpoonup> nat list) \<Rightarrow> int list) \<Rightarrow> 'c config \<Rightarrow> nat list \<Rightarrow> go_panic + nat" where
  "leaderLoop gs order cfg [] = Inl (Fatal ''expected one leader, got none'')"
| "leaderLoop gs order cfg (k # ks) =
     andThen (collectLeaders (gs k) cfg [0..<cf_n cfg] Map.empty) (\<lambda>leaders.
     andThen (lastTerm leaders (order leaders) (- 1)) (\<lambda>lt.
       if leaders \<noteq> Map.empty then at_index (case leaders lt of None \<Rightarrow> [] | Some l \<Rightarrow> l) 0
       else leaderLoop gs order cfg ks))"

definition checkOneLeader :: "get_state \<Rightarrow> ((int \<rightharpoonup> nat list) \<Rightarrow> int list) \<Rightarrow> 'c config \<Rightarrow> go_panic + nat" where
  "checkOneLeader gs order cfg = leaderLoop gs order cfg [0..<10]"

fun termLoop :: "(Raft option \<Rightarrow> go_panic + int \<times> bool) \<Rightarrow> 'c config \<Rightarrow> nat list \<Rightarrow> int \<Rightarrow> go_panic + int" where
  "termLoop gs cfg [] term = Inr term"
| "termLoop gs cfg (i # is) term =
     andThen (at_index (cf_connected cfg) i) (\<lambda>c.
       if c then andThen (raft_at cfg i) (\<lambda>r. andThen (gs r) (\<lambda>(xterm, _).
              if term = - 1 then termLoop gs cfg is xterm
              else if term \<noteq> xterm then Inl (Fatal ''servers disagree on term'')
              else termLoop gs cfg is term))
       else termLoop gs cfg is term)"

definition checkTerms :: "get_state \<Rightarrow> 'c config \<Rightarrow> go_panic + int" where
  "checkTerms gs cfg = termLoop (gs 0) cfg [0..<cf_n cfg] (- 1)"

fun noLeaderLoop :: "(Raft option \<Rightarrow> go_panic + int \<times> bool) \<Rightarrow> 'c config \<Rightarrow> nat list \<Rightarrow> go_panic + unit" where
  "noLeaderLoop gs cfg [] = Inr ()"
| "noLeaderLoop gs cfg (i # is) =
     andThen (at_index (cf_connected cfg) i) (\<lambda>c.
       if c then andThen (raft_at cfg i) (\<lambda>r. andThen (gs r) (\<lambda>(_, is_leader).
              if is_leader then Inl (Fatal ''expected no leader among connected servers'') else noLeaderLoop gs cfg is))
       else noLeaderLoop gs cfg is)"

definition checkNoLeader :: "get_state \<Rightarrow> 'c config \<Rightarrow> go_panic + unit" where
  "checkNoLeader gs cfg = noLeaderLoop (gs 0) cfg [0..<cf_n cfg]"

fun committedLoop :: "'c config \<Rightarrow> int \<Rightarrow> nat list \<Rightarrow> nat \<times> 'c option \<Rightarrow> go_panic + nat \<times> 'c option" where
  "committedLoop cfg index [] (cnt, cmd) = Inr (cnt, cmd)"
| "committedLoop cfg index (i # is) (cnt, cmd) =
     andThen (at_index (cf_applyErr cfg) i) (\<lambda>err.
       if err \<noteq> [] then Inl (Fatal err)
       else andThen (at_index (cf_logs cfg) i) (\<lambda>l.
         case l index of
           None \<Rightarrow> committedLoop cfg index is (cnt, cmd)
         | Some cmd1 \<Rightarrow>
             if cnt > 0 \<and> cmd \<noteq> cmd1 then Inl (Fatal ''committed values do not match'')
             else committedLoop cfg index is (cnt + 1, cmd1)))"

definition nCommitted :: "int \<Rightarrow> 'c config \<Rightarrow> go_panic + nat \<times> 'c option" where
  "nCommitted index cfg = committedLoop cfg index [0..<length (cf_rafts cfg)] (0, None)"

text \<open>The cluster goes on while the tester waits: \<open>polls\<close> are the states it sees, before and after each sleep.  The
  result \<open>None\<close> is the \<^verbatim>\<open>-1\<close> of a term that has moved on.\<close>

fun movedOn :: "(Raft option \<Rightarrow> go_panic + int \<times> bool) \<Rightarrow> 'c config \<Rightarrow> nat list \<Rightarrow> int \<Rightarrow> go_panic + bool" where
  "movedOn gs cfg [] startTerm = Inr False"
| "movedOn gs cfg (i # is) startTerm =
     andThen (raft_at cfg i) (\<lambda>r. andThen (gs r) (\<lambda>(t, _). if t > startTerm then Inr True else movedOn gs cfg is startTerm))"

fun waitLoop ::
  "get_state \<Rightarrow> int \<Rightarrow> nat \<Rightarrow> int \<Rightarrow> nat \<Rightarrow> ('c config \<times> 'c config) list \<Rightarrow> go_panic + bool" where
  "waitLoop gs index n startTerm k [] = Inr False"
| "waitLoop gs index n startTerm k ((cfg1, cfg2) # polls) =
     andThen (nCommitted index cfg1) (\<lambda>(nd, _).
       if nd \<ge> n then Inr False
       else andThen (if startTerm > - 1 then movedOn (gs k) cfg2 [0..<length (cf_rafts cfg2)] startTerm else Inr False) (\<lambda>moved.
         if moved then Inr True else waitLoop gs index n startTerm (k + 1) polls))"

definition wait ::
  "get_state \<Rightarrow> int \<Rightarrow> nat \<Rightarrow> int \<Rightarrow> ('c config \<times> 'c config) list \<Rightarrow> 'c config \<Rightarrow> go_panic + 'c option option" where
  "wait gs index n startTerm polls cfg =
     andThen (waitLoop gs index n startTerm 0 (take 30 polls)) (\<lambda>moved.
       if moved then Inr None
       else andThen (nCommitted index cfg) (\<lambda>(nd, cmd).
         if nd < n then Inl (Fatal ''not enough servers decided'') else Inr (Some cmd)))"

text \<open>\<open>start\<close> is \<^verbatim>\<open>Start\<close> of an instance, at the \<open>k\<close>-th turn of the outer loop.  A turn is what the tester sees in it: the
  state when it tries the servers, and the states at its looks for agreement within two seconds.\<close>

fun tryServers ::
  "(Raft \<Rightarrow> int \<times> int \<times> bool) \<Rightarrow> 'c config \<Rightarrow> nat \<Rightarrow> nat \<Rightarrow> go_panic + (nat \<times> int)" where
  "tryServers start cfg 0 starts = Inr (starts, - 1)"
| "tryServers start cfg (Suc si) starts =
     (let starts = (starts + 1) mod cf_n cfg
      in andThen (at_index (cf_connected cfg) starts) (\<lambda>c.
         andThen (if c then raft_at cfg starts else Inr None) (\<lambda>rf.
         case rf of
           None \<Rightarrow> tryServers start cfg si starts
         | Some rf \<Rightarrow>
             (case start rf of (index1, _, ok) \<Rightarrow>
                if ok then Inr (starts, index1) else tryServers start cfg si starts))))"

fun pollAgreement :: "int \<Rightarrow> 'c option \<Rightarrow> nat \<Rightarrow> 'c config list \<Rightarrow> go_panic + bool" where
  "pollAgreement index cmd expectedServers [] = Inr False"
| "pollAgreement index cmd expectedServers (cfg # polls) =
     andThen (nCommitted index cfg) (\<lambda>(nd, cmd1).
       if nd > 0 \<and> nd \<ge> expectedServers \<and> cmd1 = cmd then Inr True
       else pollAgreement index cmd expectedServers polls)"

fun oneLoop ::
  "(nat \<Rightarrow> Raft \<Rightarrow> int \<times> int \<times> bool) \<Rightarrow> 'c option \<Rightarrow> nat \<Rightarrow> bool \<Rightarrow> nat \<Rightarrow> nat \<Rightarrow> ('c config \<times> 'c config list) list \<Rightarrow>
   go_panic + int option" where
  "oneLoop start cmd expectedServers retry k starts [] = Inr None"
| "oneLoop start cmd expectedServers retry k starts ((cfg, polls) # turns) =
     (if cf_finished cfg \<noteq> 0 then Inr None
      else andThen (tryServers (start k) cfg (cf_n cfg) starts) (\<lambda>(starts, index).
        if index \<noteq> - 1 then
          andThen (pollAgreement index cmd expectedServers polls) (\<lambda>agreed.
          if agreed then Inr (Some index)
          else if retry = False then Inl (Fatal ''one failed to reach agreement'')
          else oneLoop start cmd expectedServers retry (k + 1) starts turns)
        else oneLoop start cmd expectedServers retry (k + 1) starts turns))"

text \<open>\<open>turns\<close> are the turns that start within ten seconds, \<open>cfg\<close> the state after them.\<close>

definition one ::
  "(nat \<Rightarrow> Raft \<Rightarrow> int \<times> int \<times> bool) \<Rightarrow> 'c option \<Rightarrow> nat \<Rightarrow> bool \<Rightarrow> ('c config \<times> 'c config list) list \<Rightarrow> 'c config \<Rightarrow> go_panic + int" where
  "one start cmd expectedServers retry turns cfg =
     andThen (oneLoop start cmd expectedServers retry 0 0 turns) (\<lambda>r.
       case r of Some index \<Rightarrow> Inr index
       | None \<Rightarrow> if cf_finished cfg = 0 then Inl (Fatal ''one failed to reach agreement'') else Inr (- 1))"

fun logSizeLoop :: "'c config \<Rightarrow> nat list \<Rightarrow> nat \<Rightarrow> go_panic + nat" where
  "logSizeLoop cfg [] logsize = Inr logsize"
| "logSizeLoop cfg (i # is) logsize =
     andThen (at_index (cf_saved cfg) i) (\<lambda>p.
       case p of
         None \<Rightarrow> Inl NilDeref
       | Some p \<Rightarrow>
           (let n = RaftStateSize (cf_heap cfg ! p)
            in logSizeLoop cfg is (if n > logsize then n else logsize)))"

definition LogSize :: "'c config \<Rightarrow> go_panic + nat" where
  "LogSize cfg = logSizeLoop cfg [0..<cf_n cfg] 0"

end
