(* ===== verification/RF_Check.thy ===== *)
theory RF_Check
  imports RF_Raft
begin

text \<open>
  What the Raft tester guarantees (\<^verbatim>\<open>raft/config.go\<close>): the readers of the apply channels accept a message exactly when it
  keeps the logs of all servers consistent and gapless; ends are enabled exactly between connected servers; \<^verbatim>\<open>one\<close>
  returns only an index at which enough servers hold the command; a restarted server gets what its predecessor
  persisted, in a persister of its own.
\<close>

section \<open>The logs\<close>

definition logs_ok :: "(int \<rightharpoonup> 'c option) list \<Rightarrow> bool" where
  "logs_ok logs \<longleftrightarrow>
     (\<forall>l \<in> set logs. \<forall>l' \<in> set logs. \<forall>idx c c'. l idx = Some c \<longrightarrow> l' idx = Some c' \<longrightarrow> c = c') \<and>
     (\<forall>l \<in> set logs. \<forall>idx. 1 < idx \<longrightarrow> l idx \<noteq> None \<longrightarrow> l (idx - 1) \<noteq> None)"

text \<open>The command fits: no server has another one at its index, and the server's own log has no gap before it.\<close>

definition fits :: "'c ApplyMsg \<Rightarrow> (int \<rightharpoonup> 'c option) \<Rightarrow> (int \<rightharpoonup> 'c option) list \<Rightarrow> bool" where
  "fits m l logs \<longleftrightarrow>
     (\<forall>l' \<in> set logs. \<forall>c. l' (CommandIndex m) = Some c \<longrightarrow> c = Command m) \<and>
     (1 < CommandIndex m \<longrightarrow> l (CommandIndex m - 1) \<noteq> None)"

fun applyAll :: "(nat \<times> 'c ApplyMsg) list \<Rightarrow> 'c config \<Rightarrow> go_panic + 'c config" where
  "applyAll [] cfg = Inr cfg"
| "applyAll ((i, m) # ms) cfg = andThen (applierMsg i m cfg) (applyAll ms)"

lemma conflictScan_empty:
  "conflictScan v idx logs err = [] \<longleftrightarrow> err = [] \<and> (\<forall>l \<in> set logs. \<forall>c. l idx = Some c \<longrightarrow> c = v)"
  by (induction logs arbitrary: err) (auto split: option.splits)

lemma applierMsg_valid:
  assumes "CommandValid m" "i < length (cf_logs cfg)"
  shows "applierMsg i m cfg =
    (if fits m (cf_logs cfg ! i) (cf_logs cfg)
     then Inr (cfg\<lparr>cf_logs := (cf_logs cfg)[i := (cf_logs cfg ! i)(CommandIndex m \<mapsto> Command m)],
                   cf_maxIndex := (if CommandIndex m > cf_maxIndex cfg then CommandIndex m else cf_maxIndex cfg)\<rparr>)
     else Inl (Fatal (''apply error: '' @
       (if CommandIndex m > 1 \<and> (cf_logs cfg ! i) (CommandIndex m - 1) = None then ''server apply out of order''
        else conflictScan (Command m) (CommandIndex m) (cf_logs cfg) []))))"
  using assms conflictScan_empty [of "Command m" "CommandIndex m" "cf_logs cfg" "[]"]
  by (simp add: applierMsg_def checkLogs_def Let_def fits_def)

lemma applierMsg_bounds:
  "applierMsg i m cfg = Inr cfg' \<Longrightarrow> CommandValid m \<Longrightarrow> i < length (cf_logs cfg)"
  by (auto simp: applierMsg_def checkLogs_def Let_def at_index_def split: if_splits)

lemma logs_ok_update:
  assumes "logs_ok logs" "i < length logs" "fits m (logs ! i) logs"
  shows "logs_ok (logs[i := (logs ! i)(CommandIndex m \<mapsto> Command m)])"
proof -
  let ?l = "(logs ! i)(CommandIndex m \<mapsto> Command m)"
  have l: "l = ?l \<or> l \<in> set logs" if "l \<in> set (logs[i := ?l])" for l
    using that set_update_subset_insert [of logs i ?l] by blast
  have old: "logs ! i \<in> set logs"
    using assms(2) by simp
  have A: "c = c'" if "l \<in> set logs" "l' \<in> set logs" "l idx = Some c" "l' idx = Some c'" for l l' idx c c'
    using assms(1) that unfolding logs_ok_def by blast
  have G: "l (idx - 1) \<noteq> None" if "l \<in> set logs" "1 < idx" "l idx \<noteq> None" for l idx
    using assms(1) that unfolding logs_ok_def by blast
  have F: "c = Command m" if "l \<in> set logs" "l (CommandIndex m) = Some c" for l c
    using assms(3) that unfolding fits_def by blast
  have agree: "c = c'" if "l \<in> set logs" "l idx = Some c" "?l idx = Some c'" for l idx c c'
    using F [OF that(1)] A [OF that(1) old that(2)] that(2,3) by (cases "idx = CommandIndex m") simp_all
  have gap: "?l (idx - 1) \<noteq> None" if "1 < idx" "?l idx \<noteq> None" for idx
    using G [OF old that(1)] assms(3) that unfolding fits_def by (cases "idx = CommandIndex m") simp_all
  show ?thesis
    unfolding logs_ok_def
  proof (intro conjI ballI allI impI)
    fix l l' idx c c'
    assume s: "l \<in> set (logs[i := ?l])" "l' \<in> set (logs[i := ?l])" and c: "l idx = Some c" "l' idx = Some c'"
    show "c = c'"
    proof (cases "l = ?l")
      case True
      then show ?thesis using l [OF s(2)] c agree [of l' idx c' c] by auto
    next
      case False
      then have "l \<in> set logs" using l [OF s(1)] by simp
      then show ?thesis using l [OF s(2)] c agree [of l idx c c'] A [of l l' idx c c'] by auto
    qed
  next
    fix l idx
    assume "l \<in> set (logs[i := ?l])" "(1::int) < idx" "l idx \<noteq> None"
    then show "l (idx - 1) \<noteq> None"
      using l [of l] gap [of idx] G [of l idx] by auto
  qed
qed

lemma applierMsg_ok: "applierMsg i m cfg = Inr cfg' \<Longrightarrow> logs_ok (cf_logs cfg) \<Longrightarrow> logs_ok (cf_logs cfg')"
proof (cases "CommandValid m")
  case True
  assume a: "applierMsg i m cfg = Inr cfg'" "logs_ok (cf_logs cfg)"
  then have i: "i < length (cf_logs cfg)"
    using applierMsg_bounds True by blast
  then have "fits m (cf_logs cfg ! i) (cf_logs cfg)"
    using a(1) applierMsg_valid [OF True i] by (simp split: if_splits)
  then show ?thesis
    using a applierMsg_valid [OF True i] logs_ok_update [OF a(2) i] by auto
qed (simp add: applierMsg_def)

lemma applyAll_ok: "applyAll ms cfg = Inr cfg' \<Longrightarrow> logs_ok (cf_logs cfg) \<Longrightarrow> logs_ok (cf_logs cfg')"
proof (induction ms cfg rule: applyAll.induct)
  case (2 i m ms cfg)
  obtain c where c: "applierMsg i m cfg = Inr c" "applyAll ms c = Inr cfg'"
    using 2(2) by (auto simp: andThen_Inr)
  show ?case
    by (rule 2(1) [OF c applierMsg_ok [OF c(1) 2(3)]])
qed simp


definition ex_msg :: "int \<Rightarrow> string \<Rightarrow> string ApplyMsg" where
  "ex_msg idx c = \<lparr>CommandValid = True, Command = Some c, CommandIndex = idx, SnapshotValid = False, Snapshot = None,
     SnapshotTerm = 0, SnapshotIndex = 0\<rparr>"

definition ex_msgs :: "(nat \<times> string ApplyMsg) list" where
  "ex_msgs = [(0, ex_msg 1 ''x''), (1, ex_msg 1 ''x''), (0, ex_msg 2 ''y'')]"

lemma applyAll_accept:
  assumes "\<exists>c'. applyAll ms c = Inr c' \<and> cf_logs c' = logs" "i < length logs" "fits (ex_msg idx v) (logs ! i) logs"
  shows "\<exists>c'. applyAll (ms @ [(i, ex_msg idx v)]) c = Inr c' \<and> cf_logs c' = logs[i := (logs ! i)(idx \<mapsto> Some v)]"
proof -
  have snoc: "applyAll (ms @ [(i, m)]) c = andThen (applyAll ms c) (applierMsg i m)" for m
    by (induction ms c rule: applyAll.induct) (simp_all add: andThen_def split: sum.splits)
  obtain c' where c': "applyAll ms c = Inr c'" "cf_logs c' = logs"
    using assms(1) by blast
  have m: "CommandValid (ex_msg idx v)" "CommandIndex (ex_msg idx v) = idx" "Command (ex_msg idx v) = Some v"
    by (simp_all add: ex_msg_def)
  have i: "i < length (cf_logs c')" unfolding c'(2) by (rule assms(2))
  have "applierMsg i (ex_msg idx v) c' = Inr (c'\<lparr>cf_logs := logs[i := (logs ! i)(idx \<mapsto> Some v)],
      cf_maxIndex := (if idx > cf_maxIndex c' then idx else cf_maxIndex c')\<rparr>)"
    unfolding applierMsg_valid [OF m(1) i] m c'(2) by (rule if_P [OF assms(3)])
  then show ?thesis unfolding snoc c'(1) andThen_def sum.case by (intro exI conjI, assumption) simp
qed

lemma ex_msgs_applied:
  "\<exists>cfg'. applyAll ex_msgs (empty_config 2 False) = Inr cfg' \<and>
     cf_logs cfg' = [[1 \<mapsto> Some ''x'', 2 \<mapsto> Some ''y''], [1 \<mapsto> Some ''x'']]"
proof -
  let ?c = "empty_config 2 False :: string config"
  have 0: "\<exists>c'. applyAll [] ?c = Inr c' \<and> cf_logs c' = [Map.empty, Map.empty]"
    by (simp add: empty_config_def numeral_2_eq_2)
  have f: "fits (ex_msg 1 ''x'') Map.empty [Map.empty, Map.empty]" "fits (ex_msg 1 ''x'') Map.empty [[1 \<mapsto> Some ''x''], Map.empty]"
      "fits (ex_msg 2 ''y'') [1 \<mapsto> Some ''x''] [[1 \<mapsto> Some ''x''], [1 \<mapsto> Some ''x'']]"
    by (simp_all add: fits_def ex_msg_def)
  have 1: "\<exists>c'. applyAll ([] @ [(0, ex_msg 1 ''x'')]) ?c = Inr c' \<and> cf_logs c' = [Map.empty, Map.empty][0 := ([Map.empty, Map.empty] ! 0)(1 \<mapsto> Some ''x'')]"
    by (rule applyAll_accept [OF 0], simp, unfold nth_Cons_0, rule f(1))
  have 2: "\<exists>c'. applyAll ([(0, ex_msg 1 ''x'')] @ [(1, ex_msg 1 ''x'')]) ?c = Inr c' \<and>
      cf_logs c' = [[1 \<mapsto> Some ''x''], Map.empty][1 := ([[1 \<mapsto> Some ''x''], Map.empty] ! 1)(1 \<mapsto> Some ''x'')]"
    by (rule applyAll_accept [OF 1 [unfolded append.simps nth_Cons_0 list_update.simps nat.case]], simp, unfold One_nat_def nth_Cons_Suc nth_Cons_0, rule f(2))
  have 3: "\<exists>c'. applyAll ([(0, ex_msg 1 ''x''), (Suc 0, ex_msg 1 ''x'')] @ [(0, ex_msg 2 ''y'')]) ?c = Inr c' \<and>
      cf_logs c' = [[1 \<mapsto> Some ''x''], [1 \<mapsto> Some ''x'']][0 := ([[1 \<mapsto> Some ''x''], [1 \<mapsto> Some ''x'']] ! 0)(2 \<mapsto> Some ''y'')]"
    by (rule applyAll_accept [OF 2 [unfolded append.simps One_nat_def nth_Cons_Suc nth_Cons_0 list_update.simps nat.case]], simp, unfold nth_Cons_0, rule f(3))
  show ?thesis
    using 3 unfolding append.simps nth_Cons_0 list_update.simps nat.case ex_msgs_def One_nat_def .
qed


section \<open>The links\<close>

definition enabled_ends :: "Network \<Rightarrow> netname set" where
  "enabled_ends rn = {e. nt_enabled rn e = Some True}"

text \<open>The end over which server \<open>i\<close> sends to server \<open>j\<close>.\<close>

definition link :: "string list option list \<Rightarrow> nat \<Rightarrow> nat \<Rightarrow> netname option" where
  "link rows i j = (if i < length rows then map_option (\<lambda>names. NStr (names ! j)) (rows ! i) else None)"

lemma enabled_ends_simps [simp]:
  "enabled_ends (Enable e True rn) = insert e (enabled_ends rn)" "enabled_ends (Enable e False rn) = enabled_ends rn - {e}"
  "enabled_ends (Connect e v rn) = enabled_ends rn" "enabled_ends (AddServer v s rn) = enabled_ends rn"
  "enabled_ends (DeleteServer v rn) = enabled_ends rn"
  "nt_ends (Enable e b rn) = nt_ends rn" "nt_ends (Connect e v rn) = nt_ends rn" "nt_ends (AddServer v s rn) = nt_ends rn"
  "nt_ends (DeleteServer v rn) = nt_ends rn"
  by (auto simp: enabled_ends_def Enable_def Connect_def AddServer_def DeleteServer_def)

lemma endname_link: "endname_at rows i j = Inr s \<Longrightarrow> link rows i j = Some (NStr s)"
  by (auto simp: endname_at_def at_index_def link_def andThen_Inr split: if_splits option.splits)

lemma setLinks_ends:
  "setLinks yes end_of js rn = Inr rn' \<Longrightarrow> (\<forall>j \<in> set js. \<exists>e. end_of j = Inr e) \<and> nt_ends rn' = nt_ends rn \<and>
     enabled_ends rn' = (let es = {NStr s | s. \<exists>j \<in> set js. end_of j = Inr (Some s)} in if yes then enabled_ends rn \<union> es else enabled_ends rn - es)"
proof (induction js arbitrary: rn)
  case (Cons j js)
  from Cons.prems obtain e where e: "end_of j = Inr e"
    "setLinks yes end_of js (case e of None \<Rightarrow> rn | Some s \<Rightarrow> Enable (NStr s) yes rn) = Inr rn'"
    by (auto simp: andThen_Inr)
  show ?case
    using Cons.IH [OF e(2)] e(1) by (cases e; cases yes) (auto simp: Let_def)
qed simp

lemma setLinks_link:
  assumes run: "setLinks yes (\<lambda>j. andThen (cond j) (\<lambda>c. whenTrue (P c) (endname_at rows (a j) (b j)))) js rn = Inr rn'"
    and PQ: "\<And>j c. cond j = Inr c \<Longrightarrow> P c \<longleftrightarrow> Q j"
  shows "nt_ends rn' = nt_ends rn \<and> enabled_ends rn' =
    (let es = {e. \<exists>j \<in> set js. Q j \<and> link rows (a j) (b j) = Some e} in if yes then enabled_ends rn \<union> es else enabled_ends rn - es)"
proof -
  let ?en = "\<lambda>j. andThen (cond j) (\<lambda>c. whenTrue (P c) (endname_at rows (a j) (b j)))"
  note s = setLinks_ends [OF run]
  have "?en j = Inr (Some x) \<longleftrightarrow> Q j \<and> link rows (a j) (b j) = Some (NStr x)" if j: "j \<in> set js" for j x
  proof -
    from s j obtain e where e: "?en j = Inr e" by blast
    then obtain c where c: "cond j = Inr c" "whenTrue (P c) (endname_at rows (a j) (b j)) = Inr e" by (auto simp: andThen_Inr)
    show ?thesis
      using c PQ [OF c(1)] endname_link [of rows "a j" "b j"] by (auto simp: whenTrue_def andThen_Inr split: if_splits)
  qed
  moreover have "\<exists>x. e = NStr x" if "link rows i j = Some e" for i j e using that by (auto simp: link_def split: if_splits)
  ultimately have "{NStr x | x. \<exists>j \<in> set js. ?en j = Inr (Some x)} = {e. \<exists>j \<in> set js. Q j \<and> link rows (a j) (b j) = Some e}"
    by blast
  then show ?thesis using s by simp
qed

text \<open>Both directions of one server's links.\<close>

lemma connect_ends:
  assumes "connect i cfg = Inr cfg'"
  shows "i < length (cf_connected cfg) \<and> cf_connected cfg' = (cf_connected cfg)[i := True] \<and> cf_endnames cfg' = cf_endnames cfg \<and>
      cf_n cfg' = cf_n cfg \<and> nt_ends (cf_net cfg') = nt_ends (cf_net cfg)"
    and "enabled_ends (cf_net cfg') = enabled_ends (cf_net cfg) \<union>
      {e. \<exists>j < cf_n cfg. cf_connected cfg' ! j \<and> (link (cf_endnames cfg) i j = Some e \<or> link (cf_endnames cfg) j i = Some e)}"
proof -
  let ?c = "(cf_connected cfg)[i := True]" and ?rows = "cf_endnames cfg" and ?js = "[0..<cf_n cfg]"
  from assms obtain rn1 rn2 where i: "i < length (cf_connected cfg)"
    and 1: "setLinks True (\<lambda>j. andThen (at_index ?c j) (\<lambda>c. whenTrue c (endname_at ?rows i j))) ?js (cf_net cfg) = Inr rn1"
    and 2: "setLinks True (\<lambda>j. andThen (at_index ?c j) (\<lambda>c. whenTrue c (endname_at ?rows j i))) ?js rn1 = Inr rn2"
    and cfg': "cfg' = cfg\<lparr>cf_connected := ?c, cf_net := rn2\<rparr>"
    by (auto simp: connect_def andThen_Inr set_index_def split: if_splits)
  have Q: "at_index ?c j = Inr c \<Longrightarrow> c \<longleftrightarrow> ?c ! j" for j c by (auto simp: at_index_def split: if_splits)
  note l1 = setLinks_link [where a = "\<lambda>j. i" and b = "\<lambda>j. j", OF 1 Q] and l2 = setLinks_link [where a = "\<lambda>j. j" and b = "\<lambda>j. i", OF 2 Q]
  show "i < length (cf_connected cfg) \<and> cf_connected cfg' = ?c \<and> cf_endnames cfg' = ?rows \<and> cf_n cfg' = cf_n cfg \<and>
      nt_ends (cf_net cfg') = nt_ends (cf_net cfg)"
    using i l1 l2 cfg' by simp
  show "enabled_ends (cf_net cfg') = enabled_ends (cf_net cfg) \<union>
      {e. \<exists>j < cf_n cfg. cf_connected cfg' ! j \<and> (link ?rows i j = Some e \<or> link ?rows j i = Some e)}"
    using l1 l2 unfolding cfg' by (auto simp: Let_def)
qed

lemma disconnect_ends:
  assumes "disconnect i cfg = Inr cfg'"
  shows "i < length (cf_connected cfg) \<and> cf_connected cfg' = (cf_connected cfg)[i := False] \<and> cf_endnames cfg' = cf_endnames cfg \<and>
      cf_n cfg' = cf_n cfg \<and> nt_ends (cf_net cfg') = nt_ends (cf_net cfg)"
    and "enabled_ends (cf_net cfg') = enabled_ends (cf_net cfg) -
      {e. \<exists>j < cf_n cfg. link (cf_endnames cfg) i j = Some e \<or> link (cf_endnames cfg) j i = Some e}"
proof -
  let ?c = "(cf_connected cfg)[i := False]" and ?rows = "cf_endnames cfg" and ?js = "[0..<cf_n cfg]"
  from assms obtain rn1 rn2 where i: "i < length (cf_connected cfg)"
    and 1: "setLinks False (\<lambda>j. andThen (at_index ?rows i) (\<lambda>r. whenTrue (r \<noteq> None) (endname_at ?rows i j))) ?js (cf_net cfg) = Inr rn1"
    and 2: "setLinks False (\<lambda>j. andThen (at_index ?rows j) (\<lambda>r. whenTrue (r \<noteq> None) (endname_at ?rows j i))) ?js rn1 = Inr rn2"
    and cfg': "cfg' = cfg\<lparr>cf_connected := ?c, cf_net := rn2\<rparr>"
    by (auto simp: disconnect_def andThen_Inr set_index_def split: if_splits)
  have Q: "at_index ?rows k = Inr r \<Longrightarrow> (r \<noteq> None) \<longleftrightarrow> link ?rows k j \<noteq> None" for k j r by (auto simp: at_index_def link_def split: if_splits)
  note l1 = setLinks_link [where a = "\<lambda>j. i" and b = "\<lambda>j. j", OF 1, of "\<lambda>j. link ?rows i j \<noteq> None"]
    and l2 = setLinks_link [where a = "\<lambda>j. j" and b = "\<lambda>j. i", OF 2, of "\<lambda>j. link ?rows j i \<noteq> None"]
  have l1': "nt_ends rn1 = nt_ends (cf_net cfg) \<and> enabled_ends rn1 = enabled_ends (cf_net cfg) - {e. \<exists>j < cf_n cfg. link ?rows i j = Some e}"
    using l1 [OF Q] by (auto simp: Let_def)
  have l2': "nt_ends rn2 = nt_ends rn1 \<and> enabled_ends rn2 = enabled_ends rn1 - {e. \<exists>j < cf_n cfg. link ?rows j i = Some e}"
    using l2 [OF Q] by (auto simp: Let_def)
  show "i < length (cf_connected cfg) \<and> cf_connected cfg' = ?c \<and> cf_endnames cfg' = ?rows \<and> cf_n cfg' = cf_n cfg \<and>
      nt_ends (cf_net cfg') = nt_ends (cf_net cfg)"
    using i l1' l2' cfg' by simp
  show "enabled_ends (cf_net cfg') = enabled_ends (cf_net cfg) -
      {e. \<exists>j < cf_n cfg. link ?rows i j = Some e \<or> link ?rows j i = Some e}"
    using l1' l2' unfolding cfg' by auto
qed

text \<open>Servers that are connected have ends, each end has a name of its own, and the enabled ends are those between two
  connected servers.\<close>

definition rows_ok :: "'c config \<Rightarrow> bool" where
  "rows_ok cfg \<longleftrightarrow> length (cf_connected cfg) = cf_n cfg \<and> length (cf_endnames cfg) = cf_n cfg \<and>
     (\<forall>i j e. i < cf_n cfg \<and> j < cf_n cfg \<and> link (cf_endnames cfg) i j = Some e \<longrightarrow> e \<in> dom (nt_ends (cf_net cfg))) \<and>
     (\<forall>i j i' j' e. i < cf_n cfg \<and> j < cf_n cfg \<and> i' < cf_n cfg \<and> j' < cf_n cfg \<and>
        link (cf_endnames cfg) i j = Some e \<and> link (cf_endnames cfg) i' j' = Some e \<longrightarrow> i = i' \<and> j = j')"

definition links_ok :: "'c config \<Rightarrow> bool" where
  "links_ok cfg \<longleftrightarrow> rows_ok cfg \<and> enabled_ends (cf_net cfg) =
     {e. \<exists>i < cf_n cfg. \<exists>j < cf_n cfg. cf_connected cfg ! i \<and> cf_connected cfg ! j \<and> link (cf_endnames cfg) i j = Some e}"

lemma rows_ok_same:
  assumes "rows_ok cfg" and "length (cf_connected cfg') = length (cf_connected cfg)" "cf_endnames cfg' = cf_endnames cfg" "cf_n cfg' = cf_n cfg"
    "nt_ends (cf_net cfg') = nt_ends (cf_net cfg)"
  shows "rows_ok cfg'"
  unfolding rows_ok_def assms(2-5) by (rule assms(1) [unfolded rows_ok_def])

lemma connect_links:
  assumes ok: "links_ok cfg" and run: "connect i cfg = Inr cfg'"
  shows "links_ok cfg'"
proof -
  note c = connect_ends [OF run]
  have r: "rows_ok cfg" using ok by (simp add: links_ok_def)
  then have n: "length (cf_connected cfg) = cf_n cfg" by (simp add: rows_ok_def)
  have "rows_ok cfg'" by (rule rows_ok_same [OF r]) (use c(1) in simp_all)
  moreover have "enabled_ends (cf_net cfg') = {e. \<exists>i < cf_n cfg'. \<exists>j < cf_n cfg'. cf_connected cfg' ! i \<and> cf_connected cfg' ! j \<and> link (cf_endnames cfg') i j = Some e}"
  proof -
    have conn: "cf_connected cfg' ! k \<longleftrightarrow> k = i \<or> cf_connected cfg ! k" if "k < cf_n cfg" for k
      using that c(1) n by (simp add: nth_list_update)
    have "cf_n cfg' = cf_n cfg" "cf_endnames cfg' = cf_endnames cfg" "i < cf_n cfg" using c(1) n by simp_all
    moreover have "enabled_ends (cf_net cfg) = {e. \<exists>k < cf_n cfg. \<exists>j < cf_n cfg. cf_connected cfg ! k \<and> cf_connected cfg ! j \<and> link (cf_endnames cfg) k j = Some e}"
      using ok by (simp add: links_ok_def)
    ultimately have E: "\<And>e. e \<in> enabled_ends (cf_net cfg') \<longleftrightarrow>
        (\<exists>k < cf_n cfg. \<exists>j < cf_n cfg. cf_connected cfg ! k \<and> cf_connected cfg ! j \<and> link (cf_endnames cfg) k j = Some e) \<or>
        (\<exists>j < cf_n cfg. cf_connected cfg' ! j \<and> (link (cf_endnames cfg) i j = Some e \<or> link (cf_endnames cfg) j i = Some e))"
      and n': "cf_n cfg' = cf_n cfg" "cf_endnames cfg' = cf_endnames cfg" "i < cf_n cfg" "cf_connected cfg' ! i"
      using conn [of i] unfolding c(2) by simp_all
    show ?thesis
    proof (intro set_eqI iffI)
      fix e
      assume "e \<in> enabled_ends (cf_net cfg')"
      then consider (old) k j where "k < cf_n cfg" "j < cf_n cfg" "cf_connected cfg ! k" "cf_connected cfg ! j" "link (cf_endnames cfg) k j = Some e"
        | (new) j where "j < cf_n cfg" "cf_connected cfg' ! j" "link (cf_endnames cfg) i j = Some e \<or> link (cf_endnames cfg) j i = Some e"
        unfolding E by blast
      then show "e \<in> {e. \<exists>k < cf_n cfg'. \<exists>j < cf_n cfg'. cf_connected cfg' ! k \<and> cf_connected cfg' ! j \<and> link (cf_endnames cfg') k j = Some e}"
      proof cases
        case old
        then show ?thesis unfolding mem_Collect_eq n'(1,2) using conn by (intro exI [of _ k] exI [of _ j] conjI) simp_all
      next
        case new
        then show ?thesis unfolding mem_Collect_eq n'(1,2) using n'(3,4) by blast
      qed
    next
      fix e
      assume "e \<in> {e. \<exists>k < cf_n cfg'. \<exists>j < cf_n cfg'. cf_connected cfg' ! k \<and> cf_connected cfg' ! j \<and> link (cf_endnames cfg') k j = Some e}"
      then obtain k j where k: "k < cf_n cfg" "j < cf_n cfg" "cf_connected cfg' ! k" "cf_connected cfg' ! j" "link (cf_endnames cfg) k j = Some e"
        unfolding mem_Collect_eq n'(1,2) by blast
      consider "k = i" | "j = i" | "cf_connected cfg ! k" "cf_connected cfg ! j" using conn k by blast
      then show "e \<in> enabled_ends (cf_net cfg')" unfolding E using k by cases blast+
    qed
  qed
  ultimately show ?thesis by (simp add: links_ok_def)
qed

lemma disconnect_links:
  assumes ok: "links_ok cfg" and run: "disconnect i cfg = Inr cfg'"
  shows "links_ok cfg'"
proof -
  note c = disconnect_ends [OF run]
  have r: "rows_ok cfg" using ok by (simp add: links_ok_def)
  then have n: "length (cf_connected cfg) = cf_n cfg" by (simp add: rows_ok_def)
  have off: "(cf_connected cfg)[i := False] ! k \<longleftrightarrow> k \<noteq> i \<and> cf_connected cfg ! k" if "k < cf_n cfg" for k
    using that n c(1) by (simp add: nth_list_update)
  have inj: "k = k' \<and> j = j'" if "k < cf_n cfg" "j < cf_n cfg" "k' < cf_n cfg" "j' < cf_n cfg"
    "link (cf_endnames cfg) k j = Some e" "link (cf_endnames cfg) k' j' = Some e" for k j k' j' e
    using r that unfolding rows_ok_def by blast
  have "rows_ok cfg'" by (rule rows_ok_same [OF r]) (use c(1) in simp_all)
  moreover have "enabled_ends (cf_net cfg') = {e. \<exists>k < cf_n cfg'. \<exists>j < cf_n cfg'. cf_connected cfg' ! k \<and> cf_connected cfg' ! j \<and> link (cf_endnames cfg') k j = Some e}"
  proof (intro set_eqI iffI)
    fix e
    assume "e \<in> enabled_ends (cf_net cfg')"
    then obtain k j where k: "k < cf_n cfg" "j < cf_n cfg" "cf_connected cfg ! k" "cf_connected cfg ! j" "link (cf_endnames cfg) k j = Some e"
      and "\<not> (\<exists>j < cf_n cfg. link (cf_endnames cfg) i j = Some e \<or> link (cf_endnames cfg) j i = Some e)"
      using ok unfolding c(2) links_ok_def by auto
    then have "k \<noteq> i" "j \<noteq> i" by blast+
    then show "e \<in> {e. \<exists>k < cf_n cfg'. \<exists>j < cf_n cfg'. cf_connected cfg' ! k \<and> cf_connected cfg' ! j \<and> link (cf_endnames cfg') k j = Some e}"
      unfolding mem_Collect_eq using k c(1) by (intro exI [of _ k] exI [of _ j] conjI) simp_all
  next
    fix e
    assume "e \<in> {e. \<exists>k < cf_n cfg'. \<exists>j < cf_n cfg'. cf_connected cfg' ! k \<and> cf_connected cfg' ! j \<and> link (cf_endnames cfg') k j = Some e}"
    then obtain k j where k: "k < cf_n cfg" "j < cf_n cfg" "(cf_connected cfg)[i := False] ! k" "(cf_connected cfg)[i := False] ! j" "link (cf_endnames cfg) k j = Some e"
      using c(1) by auto
    then have k': "k \<noteq> i" "j \<noteq> i" "cf_connected cfg ! k" "cf_connected cfg ! j" using off by blast+
    have i: "i < cf_n cfg" using c(1) n by simp
    have "\<not> (\<exists>j < cf_n cfg. link (cf_endnames cfg) i j = Some e \<or> link (cf_endnames cfg) j i = Some e)"
      using inj [OF k(1,2) i _ k(5)] inj [OF k(1,2) _ i k(5)] k' by blast
    then show "e \<in> enabled_ends (cf_net cfg')"
      unfolding c(2) using ok k k' unfolding links_ok_def by blast
  qed
  ultimately show ?thesis by (simp add: links_ok_def)
qed

lemma links_ok_cong:
  assumes "links_ok cfg" and "cf_connected cfg' = cf_connected cfg" "cf_endnames cfg' = cf_endnames cfg" "cf_n cfg' = cf_n cfg"
    "nt_ends (cf_net cfg') = nt_ends (cf_net cfg)" "enabled_ends (cf_net cfg') = enabled_ends (cf_net cfg)"
  shows "links_ok cfg'"
  unfolding links_ok_def rows_ok_def assms(2-6) by (rule assms(1) [unfolded links_ok_def rows_ok_def])

lemma saved_links [simp]:
  "links_ok (freshSaved i ps cfg) = links_ok cfg" "links_ok (copySaved i cfg) = links_ok cfg"
  "links_ok (killRaft i cfg) = links_ok cfg" "links_ok (resaveSaved i cfg) = links_ok cfg"
  by (simp_all add: links_ok_def rows_ok_def freshSaved_def copySaved_def killRaft_def resaveSaved_def Let_def split: option.split)

lemma crash1_links:
  assumes "links_ok cfg" and "crash1 i cfg = Inr cfg'"
  shows "links_ok cfg' \<and> i < cf_n cfg' \<and> \<not> cf_connected cfg' ! i"
proof -
  obtain c where c: "disconnect i cfg = Inr c"
    "cfg' = resaveSaved i (killRaft i (copySaved i (c\<lparr>cf_net := DeleteServer (NInt (int i)) (cf_net c)\<rparr>)))"
    using assms(2) by (auto simp: crash1_def andThen_Inr Let_def)
  have "links_ok c" by (rule disconnect_links [OF assms(1) c(1)])
  then have "links_ok (c\<lparr>cf_net := DeleteServer (NInt (int i)) (cf_net c)\<rparr>)" by (rule links_ok_cong) simp_all
  moreover have "cf_n cfg' = cf_n c \<and> cf_connected cfg' = cf_connected c"
    by (simp add: c(2) freshSaved_def copySaved_def killRaft_def resaveSaved_def Let_def split: option.split)
  moreover have "i < cf_n c \<and> \<not> cf_connected c ! i"
    using disconnect_ends(1) [OF c(1)] assms(1) by (simp add: links_ok_def rows_ok_def)
  ultimately show ?thesis by (simp add: c(2))
qed

lemma makeEnds_ends:
  "makeEnds ps rn = Inr (es, rn') \<Longrightarrow> distinct (map snd ps) \<and> (\<forall>s \<in> snd ` set ps. NStr s \<notin> dom (nt_ends rn)) \<and>
     dom (nt_ends rn') = dom (nt_ends rn) \<union> (NStr ` snd ` set ps) \<and> enabled_ends rn' = enabled_ends rn - (NStr ` snd ` set ps)"
proof (induction ps rn arbitrary: es rule: makeEnds.induct)
  case (2 j name rest rn)
  from 2(2) obtain e rn1 es1 where m: "MakeEnd (NStr name) rn = Inr (e, rn1)"
    "makeEnds rest (Connect (NStr name) (NInt (int j)) rn1) = Inr (es1, rn')"
    by (auto simp: andThen_Inr)
  have new: "NStr name \<notin> dom (nt_ends rn)" "dom (nt_ends rn1) = insert (NStr name) (dom (nt_ends rn))"
    "enabled_ends rn1 = enabled_ends rn - {NStr name}"
    using m(1) by (auto simp: MakeEnd_def Let_def enabled_ends_def split: if_splits)
  note ih = 2(1) [OF m(1) refl m(2), unfolded enabled_ends_simps]
  show ?case using ih new by auto
qed simp

lemma new_row_links:
  assumes ok: "links_ok c" and i: "i < cf_n c" "\<not> cf_connected c ! i" and len: "length names = cf_n c"
    and run: "makeEnds (enumerate 0 names) (cf_net c) = Inr (es, rn)"
  shows "links_ok (c\<lparr>cf_endnames := (cf_endnames c)[i := Some names], cf_net := rn\<rparr>)"
proof -
  let ?rows = "cf_endnames c" and ?rows' = "(cf_endnames c)[i := Some names]" and ?n = "cf_n c"
  note r = ok [unfolded links_ok_def, THEN conjunct1, unfolded rows_ok_def]
  have m: "distinct names" "\<And>s. s \<in> set names \<Longrightarrow> NStr s \<notin> dom (nt_ends (cf_net c))"
    "dom (nt_ends rn) = dom (nt_ends (cf_net c)) \<union> NStr ` set names" "enabled_ends rn = enabled_ends (cf_net c) - NStr ` set names"
    using makeEnds_ends [OF run] by (simp_all add: image_set del: set_map)
  have l: "link ?rows' k j = (if k = i then Some (NStr (names ! j)) else link ?rows k j)" if "k < ?n" for k j
    using that i(1) r by (auto simp: link_def)
  have old: "e \<in> dom (nt_ends (cf_net c))" if "k < ?n" "j < ?n" "link ?rows k j = Some e" for k j e
    using r that by blast
  have nm: "names ! j \<in> set names" if "j < ?n" for j using that len by simp
  have "rows_ok (c\<lparr>cf_endnames := ?rows', cf_net := rn\<rparr>)"
    unfolding rows_ok_def
  proof (intro conjI allI impI)
    fix k j e
    assume a: "k < cf_n (c\<lparr>cf_endnames := ?rows', cf_net := rn\<rparr>) \<and> j < cf_n (c\<lparr>cf_endnames := ?rows', cf_net := rn\<rparr>) \<and>
      link (cf_endnames (c\<lparr>cf_endnames := ?rows', cf_net := rn\<rparr>)) k j = Some e"
    then have "k < ?n" "j < ?n" "link ?rows' k j = Some e" by simp_all
    then show "e \<in> dom (nt_ends (cf_net (c\<lparr>cf_endnames := ?rows', cf_net := rn\<rparr>)))"
      using l [of k j] old [of k j e] nm [of j] m(3) by (auto split: if_splits)
  next
    fix k j k' j' e
    assume "k < cf_n (c\<lparr>cf_endnames := ?rows', cf_net := rn\<rparr>) \<and> j < cf_n (c\<lparr>cf_endnames := ?rows', cf_net := rn\<rparr>) \<and>
      k' < cf_n (c\<lparr>cf_endnames := ?rows', cf_net := rn\<rparr>) \<and> j' < cf_n (c\<lparr>cf_endnames := ?rows', cf_net := rn\<rparr>) \<and>
      link (cf_endnames (c\<lparr>cf_endnames := ?rows', cf_net := rn\<rparr>)) k j = Some e \<and>
      link (cf_endnames (c\<lparr>cf_endnames := ?rows', cf_net := rn\<rparr>)) k' j' = Some e"
    then have k: "k < ?n" "j < ?n" "k' < ?n" "j' < ?n" "link ?rows' k j = Some e" "link ?rows' k' j' = Some e" by simp_all
    have "k = i \<longleftrightarrow> k' = i"
      using k l old m(2) nm by (metis option.inject)
    moreover have "k = k' \<and> j = j'" if "link ?rows k j = Some e" "link ?rows k' j' = Some e" using r k(1-4) that by blast
    ultimately show "k = k'" "j = j'"
      using k l [of k j] l [of k' j'] m(1) len nth_eq_iff_index_eq [of names j j'] by (auto split: if_splits)
  qed (use r in simp_all)
  moreover have "enabled_ends (cf_net c) \<inter> NStr ` set names = {}"
    using ok old m(2) unfolding links_ok_def by blast
  then have "enabled_ends rn = {e. \<exists>k < ?n. \<exists>j < ?n. cf_connected c ! k \<and> cf_connected c ! j \<and> link ?rows' k j = Some e}"
  proof -
    assume "enabled_ends (cf_net c) \<inter> NStr ` set names = {}"
    then have "enabled_ends rn = enabled_ends (cf_net c)" using m(4) by blast
    moreover have "link ?rows' k j = link ?rows k j" if "k < ?n" "cf_connected c ! k" for k j using l [OF that(1)] i(2) that(2) by auto
    then have "(\<exists>k < ?n. \<exists>j < ?n. cf_connected c ! k \<and> cf_connected c ! j \<and> link ?rows' k j = Some e) \<longleftrightarrow>
        (\<exists>k < ?n. \<exists>j < ?n. cf_connected c ! k \<and> cf_connected c ! j \<and> link ?rows k j = Some e)" for e
      by (intro ex_cong1 conj_cong refl) simp
    ultimately show ?thesis using ok unfolding links_ok_def by simp
  qed
  ultimately show ?thesis unfolding links_ok_def by simp
qed

lemma restoreSaved_frame:
  assumes "restoreSaved dec i cfg = Inr cfg'"
  shows "cf_connected cfg' = cf_connected cfg \<and> cf_endnames cfg' = cf_endnames cfg \<and> cf_n cfg' = cf_n cfg \<and> cf_net cfg' = cf_net cfg"
  using assms by (auto simp: restoreSaved_def freshSaved_def ingestSnap_def andThen_Inr Let_def split: option.splits if_splits prod.splits)

lemma start1_links:
  assumes "links_ok cfg" and "start1 dec draw i cfg = Inr cfg'"
  shows "links_ok cfg'"
proof -
  obtain c where c: "crash1 i cfg = Inr c" using assms(2) by (auto simp: start1_def andThen_Inr)
  let ?names = "map draw [0..<cf_n c]"
  obtain ends rn c2 where m: "makeEnds (enumerate 0 ?names) (cf_net c) = Inr (ends, rn)"
    and r: "restoreSaved dec i (c\<lparr>cf_endnames := (cf_endnames c)[i := Some ?names], cf_net := rn, cf_lastApplied := (cf_lastApplied c)[i := 0]\<rparr>) = Inr c2"
    and c': "cf_connected cfg' = cf_connected c2" "cf_endnames cfg' = cf_endnames c2" "cf_n cfg' = cf_n c2"
      "nt_ends (cf_net cfg') = nt_ends (cf_net c2)" "enabled_ends (cf_net cfg') = enabled_ends (cf_net c2)"
    using assms(2) by (auto simp: start1_def andThen_Inr c Let_def split: prod.splits)
  have k: "links_ok c" "i < cf_n c" "\<not> cf_connected c ! i" using crash1_links [OF assms(1) c] by simp_all
  have "links_ok (c\<lparr>cf_endnames := (cf_endnames c)[i := Some ?names], cf_net := rn\<rparr>)"
    by (rule new_row_links [OF k _ m]) simp
  then have "links_ok c2"
    by (rule links_ok_cong) (use restoreSaved_frame [OF r] in simp_all)
  then show ?thesis by (rule links_ok_cong) (use c' in simp_all)
qed

lemma startAll_links: "startAll dec draws is cfg = Inr cfg' \<Longrightarrow> links_ok cfg \<Longrightarrow> links_ok cfg'"
proof (induction "is" arbitrary: cfg)
  case (Cons i "is")
  have 0: "links_ok (cfg\<lparr>cf_logs := (cf_logs cfg)[i := Map.empty]\<rparr>)"
    by (rule links_ok_cong [OF Cons.prems(2)]) simp_all
  obtain c where c: "start1 dec (draws i) i (cfg\<lparr>cf_logs := (cf_logs cfg)[i := Map.empty]\<rparr>) = Inr c" "startAll dec draws is c = Inr cfg'"
    using Cons.prems(1) by (auto simp: andThen_Inr)
  show ?case by (rule Cons.IH [OF c(2) start1_links [OF 0 c(1)]])
qed simp

lemma connectAll_links: "connectAll is cfg = Inr cfg' \<Longrightarrow> links_ok cfg \<Longrightarrow> links_ok cfg'"
proof (induction "is" arbitrary: cfg)
  case (Cons i "is")
  obtain c where c: "connect i cfg = Inr c" "connectAll is c = Inr cfg'" using Cons.prems(1) by (auto simp: andThen_Inr)
  show ?case by (rule Cons.IH [OF c(2) connect_links [OF Cons.prems(2) c(1)]])
qed simp

lemma empty_config_links: "links_ok (empty_config n unreliable)"
  by (simp add: links_ok_def rows_ok_def empty_config_def link_def enabled_ends_def MakeNetwork_def Reliable_def LongDelays_def)

lemma make_config_links: "make_config dec draws n unreliable = Inr cfg \<Longrightarrow> links_ok cfg"
  using startAll_links [OF _ empty_config_links] connectAll_links by (fastforce simp: make_config_def andThen_Inr)

text \<open>What a test does with its servers.\<close>

inductive tester_steps :: "(string \<Rightarrow> (int \<times> 'c option list) option) \<Rightarrow> 'c config \<Rightarrow> 'c config \<Rightarrow> bool" for dec where
  tester_here: "tester_steps dec cfg cfg"
| tester_connect: "tester_steps dec cfg c \<Longrightarrow> connect i c = Inr c' \<Longrightarrow> tester_steps dec cfg c'"
| tester_disconnect: "tester_steps dec cfg c \<Longrightarrow> disconnect i c = Inr c' \<Longrightarrow> tester_steps dec cfg c'"
| tester_crash: "tester_steps dec cfg c \<Longrightarrow> crash1 i c = Inr c' \<Longrightarrow> tester_steps dec cfg c'"
| tester_start: "tester_steps dec cfg c \<Longrightarrow> start1 dec draw i c = Inr c' \<Longrightarrow> tester_steps dec cfg c'"
| tester_apply: "tester_steps dec cfg c \<Longrightarrow> applierMsg i m c = Inr c' \<Longrightarrow> tester_steps dec cfg c'"

lemma applierMsg_frame:
  "applierMsg i m cfg = Inr cfg' \<Longrightarrow> cf_connected cfg' = cf_connected cfg \<and> cf_endnames cfg' = cf_endnames cfg \<and>
     cf_n cfg' = cf_n cfg \<and> cf_net cfg' = cf_net cfg"
  by (auto simp: applierMsg_def checkLogs_def andThen_Inr Let_def split: if_splits prod.splits)

lemma tester_links: "tester_steps dec cfg c \<Longrightarrow> links_ok cfg \<Longrightarrow> links_ok c"
proof (induction rule: tester_steps.induct)
  case (tester_apply cfg c i m c')
  show ?case
    by (rule links_ok_cong [OF tester_apply.IH [OF tester_apply.prems]]) (use applierMsg_frame [OF tester_apply.hyps(2)] in simp_all)
qed (use connect_links disconnect_links crash1_links start1_links in blast)+


definition ex_draws :: "nat \<Rightarrow> nat \<Rightarrow> string" where
  "ex_draws i j = itoa (int i) @ itoa (int j)"

lemma ex_partition:
  "\<exists>cfg0 cfg :: string config. make_config (\<lambda>b. None) ex_draws 2 False = Inr cfg0 \<and> disconnect 1 cfg0 = Inr cfg \<and>
     cf_n cfg = 2 \<and> cf_connected cfg = [True, False] \<and> cf_endnames cfg ! 0 = Some [''00'', ''01'']"
proof -
  have "case make_config (\<lambda>b. None :: (int \<times> string option list) option) ex_draws 2 False of Inl e \<Rightarrow> False
    | Inr cfg0 \<Rightarrow> (case disconnect 1 cfg0 of Inl e \<Rightarrow> False
      | Inr cfg \<Rightarrow> cf_n cfg = 2 \<and> cf_connected cfg = [True, False] \<and> cf_endnames cfg ! 0 = Some [''00'', ''01''])"
    by code_simp
  then show ?thesis by (auto split: sum.splits)
qed


section \<open>Agreement\<close>

lemma committedLoop_spec:
  assumes "committedLoop cfg index is (cnt, cmd) = Inr (nd, r)"
  shows "nd = cnt + length (filter (\<lambda>i. (cf_logs cfg ! i) index \<noteq> None) is) \<and>
    (\<forall>i \<in> set is. \<forall>c. (cf_logs cfg ! i) index = Some c \<longrightarrow> c = r) \<and> (0 < cnt \<longrightarrow> r = cmd)"
  using assms
proof (induction "is" arbitrary: cnt cmd)
  case (Cons i "is")
  show ?case
  proof (cases "(cf_logs cfg ! i) index")
    case None
    then have "committedLoop cfg index is (cnt, cmd) = Inr (nd, r)"
      using Cons.prems by (auto simp: andThen_Inr at_index_def split: if_splits)
    from Cons.IH [OF this] None show ?thesis by simp
  next
    case (Some c)
    then have l: "committedLoop cfg index is (cnt + 1, c) = Inr (nd, r)" and "\<not> (0 < cnt \<and> cmd \<noteq> c)"
      using Cons.prems by (auto simp: andThen_Inr at_index_def split: if_splits)
    with Cons.IH [OF l] Some show ?thesis by auto
  qed
qed simp

text \<open>The servers that hold a command at an index.\<close>

definition holders :: "'c config \<Rightarrow> int \<Rightarrow> 'c option \<Rightarrow> nat set" where
  "holders cfg index cmd = {i. i < length (cf_rafts cfg) \<and> (cf_logs cfg ! i) index = Some cmd}"

definition agreed :: "'c config \<Rightarrow> int \<Rightarrow> 'c option \<Rightarrow> nat \<Rightarrow> bool" where
  "agreed cfg index cmd k \<longleftrightarrow> 0 < card (holders cfg index cmd) \<and> k \<le> card (holders cfg index cmd) \<and>
     (\<forall>cmd'. cmd' \<noteq> cmd \<longrightarrow> holders cfg index cmd' = {})"

lemma nCommitted_spec:
  assumes "nCommitted index cfg = Inr (nd, cmd)"
  shows "nd = card (holders cfg index cmd)" and "cmd' \<noteq> cmd \<Longrightarrow> holders cfg index cmd' = {}"
proof -
  note s = committedLoop_spec [OF assms [unfolded nCommitted_def]]
  have eq: "(cf_logs cfg ! i) index \<noteq> None \<longleftrightarrow> (cf_logs cfg ! i) index = Some cmd" if "i < length (cf_rafts cfg)" for i
    using s that by auto
  have "nd = card (set (filter (\<lambda>i. (cf_logs cfg ! i) index \<noteq> None) [0..<length (cf_rafts cfg)]))"
    using s distinct_card [OF distinct_filter [OF distinct_upt]] by (simp del: set_filter)
  also have "set (filter (\<lambda>i. (cf_logs cfg ! i) index \<noteq> None) [0..<length (cf_rafts cfg)]) = holders cfg index cmd"
    using eq by (auto simp: holders_def)
  finally show "nd = card (holders cfg index cmd)" .
  show "holders cfg index cmd' = {}" if "cmd' \<noteq> cmd"
    using s that by (auto simp: holders_def)
qed

lemma pollAgreement_spec:
  "pollAgreement index cmd k polls = Inr True \<Longrightarrow> \<exists>p \<in> set polls. agreed p index cmd k"
proof (induction polls)
  case (Cons p polls)
  from Cons.prems obtain nd cmd1 where n: "nCommitted index p = Inr (nd, cmd1)"
    and c: "nd > 0 \<and> nd \<ge> k \<and> cmd1 = cmd \<or> pollAgreement index cmd k polls = Inr True"
    by (auto simp: andThen_Inr split: if_splits)
  from c show ?case
  proof
    assume "nd > 0 \<and> nd \<ge> k \<and> cmd1 = cmd"
    then have "agreed p index cmd k" using nCommitted_spec [OF n] by (auto simp: agreed_def)
    then show ?thesis by simp
  qed (use Cons.IH in auto)
qed simp

text \<open>A connected server of a state accepted the command at an index.\<close>

definition accepted :: "(Raft \<Rightarrow> int \<times> int \<times> bool) \<Rightarrow> 'c config \<Rightarrow> int \<Rightarrow> bool" where
  "accepted start cfg index \<longleftrightarrow> (\<exists>i rf t. i < length (cf_rafts cfg) \<and> cf_connected cfg ! i \<and> raft_at cfg i = Inr (Some rf) \<and>
     start rf = (index, t, True))"

lemma tryServers_spec:
  "tryServers start cfg k starts = Inr (starts', index) \<Longrightarrow> index \<noteq> - 1 \<Longrightarrow> accepted start cfg index"
proof (induction k arbitrary: starts)
  case (Suc k)
  let ?s = "(starts + 1) mod cf_n cfg"
  from Suc.prems(1) obtain c rf where c: "at_index (cf_connected cfg) ?s = Inr c" "(if c then raft_at cfg ?s else Inr None) = Inr rf"
    and r: "(case rf of None \<Rightarrow> tryServers start cfg k ?s
      | Some rf \<Rightarrow> (case start rf of (index1, _, ok) \<Rightarrow> if ok then Inr (?s, index1) else tryServers start cfg k ?s)) = Inr (starts', index)"
    unfolding tryServers.simps Let_def andThen_Inr by blast
  show ?case
  proof (cases rf)
    case None
    then show ?thesis using r Suc.IH Suc.prems(2) by simp
  next
    case (Some rf')
    obtain index1 t ok where st: "start rf' = (index1, t, ok)" by (cases "start rf'") auto
    show ?thesis
    proof (cases ok)
      case True
      have "c" "raft_at cfg ?s = Inr (Some rf')" using c(2) Some by (auto split: if_splits)
      then show ?thesis
        using r Some st True c(1) by (auto simp: accepted_def at_index_def raft_at_def andThen_Inr split: if_splits)
    next
      case False
      then show ?thesis using r Some st Suc.IH Suc.prems(2) by simp
    qed
  qed
qed simp

lemma oneLoop_spec:
  "oneLoop start cmd n retry k starts turns = Inr (Some index) \<Longrightarrow>
   \<exists>(c, polls) \<in> set turns. (\<exists>k. accepted (start k) c index) \<and> (\<exists>p \<in> set polls. agreed p index cmd n)"
proof (induction turns arbitrary: k starts)
  case (Cons turn turns)
  obtain c polls where t: "turn = (c, polls)" by (cases turn)
  from Cons.prems obtain starts' idx where s: "tryServers (start k) c (cf_n c) starts = Inr (starts', idx)"
    and r: "idx \<noteq> - 1 \<and> idx = index \<and> pollAgreement index cmd n polls = Inr True \<or>
      (\<exists>k' s'. oneLoop start cmd n retry k' s' turns = Inr (Some index))"
    unfolding t by (auto simp: andThen_Inr split: if_splits)
  from r show ?case
  proof
    assume a: "idx \<noteq> - 1 \<and> idx = index \<and> pollAgreement index cmd n polls = Inr True"
    then have "accepted (start k) c index" using tryServers_spec [OF s] by blast
    then show ?thesis using pollAgreement_spec a unfolding t by (intro bexI [of _ "(c, polls)"]) auto
  qed (use Cons.IH in fastforce)
qed simp

text \<open>C40: \<^verbatim>\<open>one\<close> returns only after agreement.  If it returns an index (and not the \<^verbatim>\<open>-1\<close> of a test that is over),
  then in one of its turns a connected server had accepted the command at that index, and at one of the looks of
  that turn at least the expected number of servers, and at least one, had applied just this command there, while no
  server had applied another one.  This holds for every Raft behind it.\<close>

theorem one_means_agreement:
  assumes "one start cmd expectedServers retry turns cfg = Inr index" and "index \<noteq> - 1"
  shows "\<exists>(c, polls) \<in> set turns. (\<exists>k. accepted (start k) c index) \<and> (\<exists>p \<in> set polls. agreed p index cmd expectedServers)"
proof -
  have "oneLoop start cmd expectedServers retry 0 0 turns = Inr (Some index)"
    using assms by (auto simp: one_def andThen_Inr split: option.splits if_splits)
  then show ?thesis by (rule oneLoop_spec)
qed

definition ex_agreed :: "string config" where
  "ex_agreed = (empty_config 2 False)\<lparr>cf_connected := [True, True], cf_rafts := [Some 0, Some 1],
     cf_objects := [Raft_Make [] 0 0 MakePersister, Raft_Make [] 1 1 MakePersister],
     cf_logs := [[1 \<mapsto> Some ''x''], [1 \<mapsto> Some ''x'']]\<rparr>"

text \<open>A Raft whose second peer is the leader and puts the command at index 1.\<close>

definition ex_start :: "nat \<Rightarrow> Raft \<Rightarrow> int \<times> int \<times> bool" where
  "ex_start k rf = (if rf_me rf = 1 then (1, 3, True) else (- 1, 3, False))"

theorem one_means_agreement_witness:
  "one ex_start (Some ''x'') 2 True [(ex_agreed, [ex_agreed])] ex_agreed = Inr 1 \<and> agreed ex_agreed 1 (Some ''x'') 2"
proof -
  have "case one ex_start (Some ''x'') 2 True [(ex_agreed, [ex_agreed])] ex_agreed of Inl e \<Rightarrow> False | Inr i \<Rightarrow> i = 1" by code_simp
  then have r: "one ex_start (Some ''x'') 2 True [(ex_agreed, [ex_agreed])] ex_agreed = Inr 1" by (simp split: sum.splits)
  from one_means_agreement [OF r] have "agreed ex_agreed 1 (Some ''x'') 2" by simp
  with r show ?thesis ..
qed

text \<open>With the peers the repository ships, which know no leader and hand out no index, \<^verbatim>\<open>one\<close> never returns an index and
  \<^verbatim>\<open>checkOneLeader\<close> always fails.\<close>

lemma tryServers_shipped: "tryServers (Raft_Start cmd) cfg k starts = Inr (s, i) \<Longrightarrow> i = - 1"
  using tryServers_spec [of "Raft_Start cmd" cfg k starts s i] by (auto simp: accepted_def Raft_Start_def)

lemma one_shipped:
  assumes "one (\<lambda>k. Raft_Start cmd) cmd n retry turns cfg = Inr index"
  shows "index = - 1"
proof (rule ccontr)
  assume n: "index \<noteq> - 1"
  then have "oneLoop (\<lambda>k. Raft_Start cmd) cmd n retry 0 0 turns = Inr (Some index)"
    using assms by (auto simp: one_def andThen_Inr split: option.splits if_splits)
  from oneLoop_spec [OF this] n show False by (auto simp: accepted_def Raft_Start_def)
qed

lemma collectLeaders_shipped: "collectLeaders (shipped_GetState k) cfg is leaders = Inr leaders' \<Longrightarrow> leaders' = leaders"
  by (induction "is") (auto simp: andThen_Inr shipped_GetState_def split: if_splits)

lemma checkOneLeader_shipped:
  assumes "order Map.empty = []"
  shows "\<exists>e. checkOneLeader shipped_GetState order cfg = Inl e"
proof -
  have "\<exists>e. leaderLoop shipped_GetState order cfg ks = Inl e" for ks
  proof (induction ks)
    case (Cons k ks)
    show ?case
    proof (cases "collectLeaders (shipped_GetState k) cfg [0..<cf_n cfg] Map.empty")
      case (Inr leaders)
      then show ?thesis using collectLeaders_shipped [OF Inr] Cons.IH assms by simp
    qed simp
  qed simp
  then show ?thesis by (simp add: checkOneLeader_def)
qed

section \<open>Restarting\<close>

text \<open>A restarted server gets what its predecessor had persisted, in a persister of its own, and its predecessor is told
  to stop.\<close>

definition saved_content :: "nat \<Rightarrow> 'c config \<Rightarrow> Persister" where
  "saved_content i cfg = (case cf_saved cfg ! i of None \<Rightarrow> MakePersister | Some p \<Rightarrow> cf_heap cfg ! p)"

definition heap_ok :: "'c config \<Rightarrow> bool" where
  "heap_ok cfg \<longleftrightarrow> length (cf_saved cfg) = cf_n cfg \<and> length (cf_rafts cfg) = cf_n cfg \<and>
     (\<forall>i p. i < cf_n cfg \<and> cf_saved cfg ! i = Some p \<longrightarrow> p < length (cf_heap cfg)) \<and>
     (\<forall>i r. i < cf_n cfg \<and> cf_rafts cfg ! i = Some r \<longrightarrow> r < length (cf_objects cfg)) \<and>
     (\<forall>rf \<in> set (cf_objects cfg). rf_persister rf < length (cf_heap cfg))"

lemma disconnect_heap:
  "disconnect i cfg = Inr c \<Longrightarrow> i < length (cf_connected cfg) \<and> cf_heap c = cf_heap cfg \<and> cf_saved c = cf_saved cfg \<and>
     cf_rafts c = cf_rafts cfg \<and> cf_objects c = cf_objects cfg \<and> cf_n c = cf_n cfg"
  by (auto simp: disconnect_def andThen_Inr set_index_def split: if_splits)

lemma Persister_copies [simp]:
  "Persister_Copy ps = ps" "Persister_Save (ReadRaftState ps) (ReadSnapshot ps) MakePersister = ps"
  by (simp_all add: Persister_Copy_def MakePersister_def Persister_Save_def ReadRaftState_def ReadSnapshot_def)

lemma saved_content_cong:
  "cf_saved c' = cf_saved c \<Longrightarrow> cf_heap c' = cf_heap c \<Longrightarrow> saved_content i c' = saved_content i c"
  by (simp add: saved_content_def split: option.split)

lemma copySaved_content:
  assumes "i < length (cf_saved cfg)"
  shows "saved_content i (copySaved i cfg) = saved_content i cfg" "saved_content i (resaveSaved i cfg) = saved_content i cfg"
    "saved_content i (killRaft i cfg) = saved_content i cfg"
  using assms by (auto simp: copySaved_def resaveSaved_def killRaft_def freshSaved_def Let_def saved_content_def split: option.split)

lemma saved_frame:
  "length (cf_saved (copySaved i cfg)) = length (cf_saved cfg)" "length (cf_saved (killRaft i cfg)) = length (cf_saved cfg)"
  "length (cf_saved (resaveSaved i cfg)) = length (cf_saved cfg)"
  "length (cf_heap cfg) \<le> length (cf_heap (copySaved i cfg))" "length (cf_heap (killRaft i cfg)) = length (cf_heap cfg)"
  "length (cf_heap cfg) \<le> length (cf_heap (resaveSaved i cfg))"
  "cf_rafts (copySaved i cfg) = cf_rafts cfg" "cf_rafts (resaveSaved i cfg) = cf_rafts cfg"
  "cf_objects (copySaved i cfg) = cf_objects cfg" "cf_objects (resaveSaved i cfg) = cf_objects cfg"
  by (auto simp: copySaved_def resaveSaved_def killRaft_def freshSaved_def Let_def split: option.split)

lemma crash1_heap:
  assumes h: "heap_ok cfg" and n: "length (cf_connected cfg) = cf_n cfg" and run: "crash1 i cfg = Inr c"
  shows "saved_content i c = saved_content i cfg" "i < length (cf_saved c)" "i < length (cf_rafts c)"
    "length (cf_heap cfg) \<le> length (cf_heap c)" "length (cf_objects c) = length (cf_objects cfg)"
    "\<And>r. cf_rafts cfg ! i = Some r \<Longrightarrow> r < length (cf_objects c) \<and> Raft_killed (cf_objects c ! r)"
proof -
  obtain d where d: "disconnect i cfg = Inr d"
    "c = resaveSaved i (killRaft i (copySaved i (d\<lparr>cf_net := DeleteServer (NInt (int i)) (cf_net d)\<rparr>)))"
    using run by (auto simp: crash1_def andThen_Inr Let_def)
  note f = disconnect_heap [OF d(1)]
  let ?d = "d\<lparr>cf_net := DeleteServer (NInt (int i)) (cf_net d)\<rparr>"
  have i: "i < cf_n cfg" "i < length (cf_saved ?d)" using f n h by (simp_all add: heap_ok_def)
  show "saved_content i c = saved_content i cfg"
    using i(2) saved_content_cong [of ?d cfg i] f by (simp add: d(2) copySaved_content saved_frame)
  show "i < length (cf_saved c)" "length (cf_heap cfg) \<le> length (cf_heap c)"
    using i(2) f saved_frame(4) [of ?d i] saved_frame(6) [of "killRaft i (copySaved i ?d)" i] by (simp_all add: d(2) saved_frame)
  show "i < length (cf_rafts c)" "length (cf_objects c) = length (cf_objects cfg)"
    using i(1) h f by (auto simp: d(2) saved_frame killRaft_def heap_ok_def split: option.split)
  show "r < length (cf_objects c) \<and> Raft_killed (cf_objects c ! r)" if "cf_rafts cfg ! i = Some r" for r
    using that i(1) h f by (auto simp: d(2) saved_frame killRaft_def heap_ok_def Raft_killed_def Raft_Kill_def)
qed

lemma restoreSaved_heap:
  assumes "restoreSaved dec i c = Inr c2" and "i < length (cf_saved c)"
  shows "cf_saved c2 ! i = Some (length (cf_heap c)) \<and> cf_heap c2 ! length (cf_heap c) = saved_content i c \<and>
    cf_objects c2 = cf_objects c \<and> cf_rafts c2 = cf_rafts c"
  using assms by (auto simp: restoreSaved_def freshSaved_def ingestSnap_def saved_content_def andThen_Inr Let_def
      split: option.splits if_splits prod.splits)

lemma restart_isolates:
  assumes h: "heap_ok cfg" and n: "length (cf_connected cfg) = cf_n cfg" and run: "start1 dec draw i cfg = Inr cfg'"
  shows "\<exists>p r. cf_saved cfg' ! i = Some p \<and> length (cf_heap cfg) \<le> p \<and> cf_heap cfg' ! p = saved_content i cfg \<and>
    cf_rafts cfg' ! i = Some r \<and> length (cf_objects cfg) \<le> r \<and> rf_persister (cf_objects cfg' ! r) = p \<and>
    (\<forall>rf \<in> set (cf_objects cfg). rf_persister rf \<noteq> p) \<and>
    (\<forall>r0. cf_rafts cfg ! i = Some r0 \<longrightarrow> Raft_killed (cf_objects cfg' ! r0))"
proof -
  obtain c where c: "crash1 i cfg = Inr c" using run by (auto simp: start1_def andThen_Inr)
  note k = crash1_heap [OF h n c]
  obtain ends rn c2 where r: "restoreSaved dec i (c\<lparr>cf_endnames := (cf_endnames c)[i := Some (map draw [0..<cf_n c])], cf_net := rn,
      cf_lastApplied := (cf_lastApplied c)[i := 0]\<rparr>) = Inr c2"
    and c': "cf_saved cfg' = cf_saved c2" "cf_heap cfg' = cf_heap c2" "cf_rafts cfg' = (cf_rafts c2)[i := Some (length (cf_objects c2))]"
      "cf_objects cfg' = cf_objects c2 @ [Raft_Make ends (int i) (the (cf_saved c2 ! i)) (cf_heap c2 ! the (cf_saved c2 ! i))]"
    using run by (auto simp: start1_def andThen_Inr c Let_def split: prod.splits)
  note s = restoreSaved_heap [OF r]
  have p: "cf_saved c2 ! i = Some (length (cf_heap c))" "cf_heap c2 ! length (cf_heap c) = saved_content i cfg"
    "cf_objects c2 = cf_objects c" "cf_rafts c2 = cf_rafts c"
    using s k(1,2) saved_content_cong [of "c\<lparr>cf_endnames := (cf_endnames c)[i := Some (map draw [0..<cf_n c])], cf_net := rn,
      cf_lastApplied := (cf_lastApplied c)[i := 0]\<rparr>" c i] by simp_all
  have "\<forall>rf \<in> set (cf_objects cfg). rf_persister rf \<noteq> length (cf_heap c)" using h k(4) by (fastforce simp: heap_ok_def)
  then show ?thesis
    by (intro exI [of _ "length (cf_heap c)"] exI [of _ "length (cf_objects c)"])
      (use p k c' in \<open>auto simp: Raft_Make_def readPersist_def nth_append\<close>)
qed

lemma heap_ok_saved:
  assumes "heap_ok cfg" and "i < cf_n cfg"
  shows "heap_ok (freshSaved i ps cfg)" "heap_ok (copySaved i cfg)" "heap_ok (killRaft i cfg)" "heap_ok (resaveSaved i cfg)"
proof -
  show f: "heap_ok (freshSaved i ps cfg)" for ps
    using assms unfolding heap_ok_def freshSaved_def by (auto simp: nth_list_update less_Suc_eq)
  show "heap_ok (copySaved i cfg)" "heap_ok (resaveSaved i cfg)"
    using f assms(1) by (auto simp: copySaved_def resaveSaved_def Let_def split: option.split)
  show "heap_ok (killRaft i cfg)"
  proof (cases "cf_rafts cfg ! i")
    case (Some r)
    then have "r < length (cf_objects cfg)" using assms by (auto simp: heap_ok_def)
    then have "set ((cf_objects cfg)[r := Raft_Kill (cf_objects cfg ! r)]) \<subseteq> insert (Raft_Kill (cf_objects cfg ! r)) (set (cf_objects cfg))"
      "cf_objects cfg ! r \<in> set (cf_objects cfg)"
      by (simp_all add: set_update_subset_insert)
    then show ?thesis
      using assms Some unfolding heap_ok_def killRaft_def by (auto simp: nth_list_update Raft_Kill_def)
  qed (use assms(1) in \<open>simp add: killRaft_def\<close>)
qed

lemma heap_ok_cong:
  assumes "heap_ok c" and "cf_saved c' = cf_saved c" "cf_heap c' = cf_heap c" "cf_rafts c' = cf_rafts c" "cf_objects c' = cf_objects c" "cf_n c' = cf_n c"
  shows "heap_ok c'"
  unfolding heap_ok_def assms(2-6) by (rule assms(1) [unfolded heap_ok_def])

lemma saved_n [simp]:
  "cf_n (copySaved i cfg) = cf_n cfg" "cf_n (killRaft i cfg) = cf_n cfg" "cf_n (resaveSaved i cfg) = cf_n cfg"
  by (simp_all add: copySaved_def resaveSaved_def killRaft_def freshSaved_def Let_def split: option.split)

lemma crash1_heap_ok:
  assumes h: "heap_ok cfg" and n: "length (cf_connected cfg) = cf_n cfg" and run: "crash1 i cfg = Inr c"
  shows "heap_ok c \<and> i < cf_n c"
proof -
  obtain d where d: "disconnect i cfg = Inr d"
    "c = resaveSaved i (killRaft i (copySaved i (d\<lparr>cf_net := DeleteServer (NInt (int i)) (cf_net d)\<rparr>)))"
    using run by (auto simp: crash1_def andThen_Inr Let_def)
  note f = disconnect_heap [OF d(1)]
  have "heap_ok (d\<lparr>cf_net := DeleteServer (NInt (int i)) (cf_net d)\<rparr>)" by (rule heap_ok_cong [OF h]) (use f in simp_all)
  then have "heap_ok c" unfolding d(2) by (intro heap_ok_saved) (use f n in simp_all)
  then show ?thesis using f n by (simp add: d(2))
qed

text \<open>The premises of \<open>restart_isolates\<close> hold whenever the tester restarts a server.\<close>

lemma start1_heap_ok:
  assumes h: "heap_ok cfg" and n: "length (cf_connected cfg) = cf_n cfg" and run: "start1 dec draw i cfg = Inr cfg'"
  shows "heap_ok cfg'"
proof -
  obtain c where c: "crash1 i cfg = Inr c" using run by (auto simp: start1_def andThen_Inr)
  have k: "heap_ok c" "i < cf_n c" using crash1_heap_ok [OF h n c] by simp_all
  let ?c = "\<lambda>rn. c\<lparr>cf_endnames := (cf_endnames c)[i := Some (map draw [0..<cf_n c])], cf_net := rn, cf_lastApplied := (cf_lastApplied c)[i := 0]\<rparr>"
  obtain ends rn c2 where r: "restoreSaved dec i (?c rn) = Inr c2"
    and c': "cf_saved cfg' = cf_saved c2" "cf_heap cfg' = cf_heap c2" "cf_rafts cfg' = (cf_rafts c2)[i := Some (length (cf_objects c2))]"
      "cf_objects cfg' = cf_objects c2 @ [Raft_Make ends (int i) (the (cf_saved c2 ! i)) (cf_heap c2 ! the (cf_saved c2 ! i))]" "cf_n cfg' = cf_n c2"
    using run by (auto simp: start1_def andThen_Inr c Let_def split: prod.splits)
  have hc: "heap_ok (?c rn)" by (rule heap_ok_cong [OF k(1)]) simp_all
  obtain ps where "heap_ok (freshSaved i ps (?c rn))" "cf_saved c2 = cf_saved (freshSaved i ps (?c rn))" "cf_heap c2 = cf_heap (freshSaved i ps (?c rn))"
    "cf_rafts c2 = cf_rafts (freshSaved i ps (?c rn))" "cf_objects c2 = cf_objects (freshSaved i ps (?c rn))" "cf_n c2 = cf_n (freshSaved i ps (?c rn))"
    using r heap_ok_saved(1) [OF hc] k(2)
    by (auto simp: restoreSaved_def ingestSnap_def andThen_Inr Let_def split: option.splits if_splits prod.splits)
  then have h2: "heap_ok c2" by (rule heap_ok_cong)
  have "i < length (cf_saved (?c rn))" using k by (simp add: heap_ok_def)
  note s = restoreSaved_heap [OF r this]
  have i: "i < cf_n c2" using restoreSaved_frame [OF r] k(2) by simp
  then obtain p where p: "cf_saved c2 ! i = Some p" "p < length (cf_heap c2)" using s h2 by (auto simp: heap_ok_def)
  show ?thesis
    using h2 i p unfolding heap_ok_def c' by (auto simp: nth_list_update Raft_Make_def readPersist_def less_Suc_eq)
qed

lemma empty_config_heap_ok: "heap_ok (empty_config n unreliable)"
  by (simp add: heap_ok_def empty_config_def)

end
