(* ===== verification/Spec2Isabelle.thy ===== *)
theory Spec2Isabelle
  imports MR_Apps Http_Server Http_Proxy PC_Kv PC_Visualize RF_Check
begin

text \<open>
  A verification of the course repository under \<^verbatim>\<open>src/Labs\<close>: the HTTP server and proxy of Lab 1, the MapReduce framework of
  Lab 2 with its applications, and the packages Lab 2 ships for the later labs: the linearizability checker
  \<^verbatim>\<open>porcupine\<close> with the key-value model, the encoder \<^verbatim>\<open>labgob\<close>, the simulated network
  \<^verbatim>\<open>labrpc\<close>, and the tester of \<^verbatim>\<open>raft\<close>.  Paths below are relative to \<^verbatim>\<open>src/Labs/Lab1\<close> and
  \<^verbatim>\<open>src/Labs/Lab2/6.5840/src\<close>.

  \<^bold>\<open>Conventions.\<close>  A Go struct is a record, a pointer into a shared structure an index or a key, a map a partial function
  with \<^verbatim>\<open>range\<close> over it a list of its keys in some order (\<open>range_order\<close>), a string or byte slice a
  \<^typ>\<open>string\<close> of bytes.  A panic or \<^verbatim>\<open>log.Fatal\<close> is \<open>Inl\<close> of a sum and \<open>andThen\<close> sequences; code with files
  is in the monad of \<open>Go_OS\<close>, whose state has the files, the working directory, the random draws and a list
  saying which of the coming system calls fail, so that every error branch is a value of the model.  Integers are unbounded where the
  code counts things that exist in memory, and words where it computes with their bits (\<open>ihash\<close>, the bit set, byte
  counters).  What concurrent code does is a step relation, one step per atomic action.  Random numbers, the clock,
  iteration orders, and packages that are not in the repository are arguments, with what is assumed of
  them as a hypothesis of the theorem.

  \<^bold>\<open>Shared theories.\<close>  \<open>Prelude\<close>: strings, \<^verbatim>\<open>strconv\<close>, maps and panics.  \<open>Go_Path\<close>: \<^verbatim>\<open>path\<close> and
  \<^verbatim>\<open>path/filepath\<close>, with the lemmas that locate a cleaned path.  \<open>Go_OS\<close>: the file store, a calculus of
  weakest preconditions for its calls, and the locale \<open>atomic_file\<close>: a temporary file written and then renamed
  replaces its destination completely or not at all.  The upload of the file server and the bucket files of the worker
  interpret it.  \<open>Go_Json\<close>: the encoding of a key/value pair and the decoding of a stream of them, a round trip
  for valid UTF-8.

  \<^bold>\<open>Lab 1.\<close>  \<open>Http\<close> (\<^verbatim>\<open>http/\<close>): responses and their bytes, dispatch, the connection handler, and the accept loop
  with its semaphore channel as a step relation.  Shown: the bytes of a response read back as the response; at most
  \<^verbatim>\<open>maxConnections\<close> connections are served at once.  \<open>Http_Server\<close> (\<^verbatim>\<open>http_server/\<close>): path resolution, reading,
  uploading, the handlers.  Shown: a resolved path stays below the public directory, an upload is atomic, GET after
  POST returns what was posted.  \<open>Http_Proxy\<close> (\<^verbatim>\<open>proxy/\<close>): the proxy relays the answer of the target.

  \<^bold>\<open>MapReduce.\<close>  \<open>MR_Task\<close> (\<^verbatim>\<open>mr/task.go\<close>, \<^verbatim>\<open>rpc.go\<close>, \<^verbatim>\<open>data.go\<close>, \<^verbatim>\<open>global_id.go\<close>): the data.
  \<open>MR_Coordinator\<close> (\<^verbatim>\<open>mr/coordinator.go\<close>): each RPC handler as an operation on the task tables.  The reply of
  \<^verbatim>\<open>RequestTask\<close> points into the tables (\<open>LiveReply\<close>) and is read by \<open>encodeReply\<close> when \<^verbatim>\<open>net/rpc\<close>
  sends it, after the lock is released.  The two task tables interpret the locale \<open>task_table\<close>.  Shown: the
  invariant of the tables over all sequences of calls; what is handed out, to whom and when; that a reduce
  reply lists all map outputs if no report of missing outputs comes in before it is encoded, and that it does not
  otherwise; \<^verbatim>\<open>Done\<close> is final; reports are idempotent; an undisturbed worker finishes the job.
  \<open>MR_Worker\<close> (\<^verbatim>\<open>mr/worker.go\<close>, \<^verbatim>\<open>bucket.go\<close>, \<^verbatim>\<open>worker_rpc.go\<close>): the two kinds of tasks.  Shown: bucketing
  partitions the pairs, bucket files round-trip, a failed map task leaves no partial file, a reduce task writes
  the reduction of what it gathers, and an output line that cannot be written is lost silently.
  \<open>MR_System\<close>: coordinator and workers together as the step relation \<open>sys_step\<close>, with workers that crash, share
  directories, lose calls and files.  Three kinds of steps are labelled as incidents, because after them the code may
  finish with a wrong output: a torn reply, a failed print, an output file opened again in a shared directory.
  \<open>MR_Runs\<close>: in every run without an incident the outputs are right once \<^verbatim>\<open>Done\<close> returns true, and a run with one
  torn reply after which they are not.  \<open>MR_Sequential\<close> (\<^verbatim>\<open>main/mrsequential.go\<close>): the sequential program and
  its agreement with the distributed one.  \<open>MR_Apps\<close> (\<^verbatim>\<open>mrapps/\<close>): all applications; word counts and the index are
  right in both programs; \<^verbatim>\<open>nparallel\<close> counts the workers.

  \<^bold>\<open>Porcupine.\<close>  \<open>PC_Bitset\<close> (\<^verbatim>\<open>bitset.go\<close>): refines sets of numbers, through the locale \<open>bitset_ops\<close>.  \<open>PC_Model\<close>,
  \<open>PC_Entries\<close>, \<open>PC_Nodes\<close>, \<open>PC_Checker\<close> (\<^verbatim>\<open>model.go\<close>, \<^verbatim>\<open>checker.go\<close>): the data, the entries and their order, the
  linked list with \<^verbatim>\<open>lift\<close> and \<^verbatim>\<open>unlift\<close> on an explicit heap, and the search.  \<open>PC_Linearizable\<close>, \<open>PC_Search\<close> and
  \<open>PC_Correct\<close>: linearizability, the search on lists, and a simulation of it by the search on the heap, with
  termination.  \<open>PC_Parallel\<close>: the goroutines of \<^verbatim>\<open>checkParallel\<close> as a step relation that ends in a verdict.
  \<open>PC_Porcupine\<close> (\<^verbatim>\<open>porcupine.go\<close>): the exported functions decide linearizability.  \<open>PC_Kv\<close>
  (\<^verbatim>\<open>models/kv.go\<close>): partitioning by key is sound for the whole store; an empty history blocks forever.  \<open>PC_Visualize\<close>
  (\<^verbatim>\<open>visualization.go\<close>): the data of the page is computed without a panic.

  \<^bold>\<open>labgob, labrpc and raft.\<close>  \<open>LR_Gob\<close> (\<^verbatim>\<open>labgob.go\<close>): the checks of types and values over a table of types.  \<open>LR_Rpc\<close>
  (\<^verbatim>\<open>labrpc.go\<close>): all requests in flight as a step relation.  Shown: a call is executed at most once and a
  successful one exactly once, a deleted server never answers, a reliable network answers.  \<open>RF_Raft\<close>
  (\<^verbatim>\<open>raft/persister.go\<close>, \<^verbatim>\<open>raft.go\<close>, \<^verbatim>\<open>config.go\<close>): the persister, the peer as shipped, and the tester over the network of
  \<open>LR_Rpc\<close>.  \<open>RF_Check\<close>: links follow the connected servers, accepted logs agree, \<^verbatim>\<open>one\<close> means agreement, a restart
  isolates the old instance.

  \<^bold>\<open>Termination and bounds.\<close>  Recursion is structural or has a measure.  \<open>checkLoop\<close> of the checker is a
  \<^theory_text>\<open>partial_function\<close>; that it returns is part of \<open>checkSingle_correct\<close>.  \<open>checkType\<close> has fuel for its depth, and
  \<open>check_fuel\<close> is enough because each level adds a type of a finite table to those checked.  The looks of the Raft
  tester at the cluster are lists, as long as the time limits of the code allow.

  \<^bold>\<open>Assumptions.\<close>  A handler of the coordinator, the encoding of one reply and one system call are atomic.  Two workers
  that write one file at the same time are excluded by the incidents.  Intermediate files can get lost but not
  be changed by others.  Values compared with \<^verbatim>\<open>==\<close> through interfaces are comparable.

  \<^bold>\<open>Not modelled.\<close>  Sockets, \<^verbatim>\<open>net/http\<close>'s parsing, \<^verbatim>\<open>net/rpc\<close>, \<^verbatim>\<open>encoding/gob\<close> and plugin loading beyond the
  arguments above; log output; the page text of the visualization; command-line flags; the commands under
  \<^verbatim>\<open>main/\<close> other than \<^verbatim>\<open>mrsequential\<close>; the skeletons and testers of \<^verbatim>\<open>kvraft\<close>, \<^verbatim>\<open>shardctrler\<close> and
  \<^verbatim>\<open>shardkv\<close>; tests and scripts.
\<close>

end
